(* ===== verification/St_Prelude.thy ===== *)
theory St_Prelude
  imports Main "HOL-Library.Word" "HOL-Library.Monad_Syntax"
begin

text \<open>
  Shared vocabulary of the development: the machine integers of the C++ code, byte buffers
  with bounds-checked reads and writes, C strings, and the generic lemmas on them.

  A buffer is the list of the bytes of one allocation. A pointer into it is an offset. The
  C++ code dereferences raw pointers; an access outside the allocation is undefined behaviour,
  and every model function that touches a buffer returns \<open>None\<close> in exactly that case.
\<close>

section \<open>Machine integers\<close>

type_synonym u8 = "8 word"
type_synonym u16 = "16 word"
type_synonym u32 = "32 word"
type_synonym u64 = "64 word"

text \<open>
  Sizes and offsets (\<open>uint64_t\<close>, \<open>uint32_t\<close>) are natural numbers. Their only operation that
  can leave the range on the modelled paths is subtraction, whose wrap-around is written out.
\<close>

definition minus_u64 :: "nat \<Rightarrow> nat \<Rightarrow> nat" where
  "minus_u64 a b = (if b \<le> a then a - b else a + 2 ^ 64 - b)"

definition minus_u32 :: "nat \<Rightarrow> nat \<Rightarrow> nat" where
  "minus_u32 a b = (if b \<le> a then a - b else a + 2 ^ 32 - b)"

section \<open>Collections of lemmas\<close>

named_theorems mem_simps \<open>reads and writes of buffers at known offsets\<close>

section \<open>Byte buffers\<close>

type_synonym buffer = "u8 list"

definition rd :: "buffer \<Rightarrow> nat \<Rightarrow> u8 option" where
  "rd buf p = (if p < length buf then Some (buf ! p) else None)"

fun rd_n :: "buffer \<Rightarrow> nat \<Rightarrow> nat \<Rightarrow> u8 list option" where
  "rd_n buf p 0 = Some []"
| "rd_n buf p (Suc n) = do { b \<leftarrow> rd buf p; bs \<leftarrow> rd_n buf (Suc p) n; Some (b # bs) }"

definition wr :: "buffer \<Rightarrow> nat \<Rightarrow> u8 \<Rightarrow> buffer option" where
  "wr buf p b = (if p < length buf then Some (buf[p := b]) else None)"

fun wr_n :: "buffer \<Rightarrow> nat \<Rightarrow> u8 list \<Rightarrow> buffer option" where
  "wr_n buf p [] = Some buf"
| "wr_n buf p (b # bs) = do { buf' \<leftarrow> wr buf p b; wr_n buf' (Suc p) bs }"

text \<open>\<open>bytes_at buf p bs\<close>: the bytes \<open>bs\<close> stand at offset \<open>p\<close> of the buffer.\<close>

definition bytes_at :: "buffer \<Rightarrow> nat \<Rightarrow> u8 list \<Rightarrow> bool" where
  "bytes_at buf p bs \<longleftrightarrow> p + length bs \<le> length buf \<and> take (length bs) (drop p buf) = bs"

lemma bytes_at_length: "bytes_at buf p bs \<Longrightarrow> p + length bs \<le> length buf"
  by (simp add: bytes_at_def)

lemma bytes_at_nth:
  "bytes_at buf p bs \<longleftrightarrow> p + length bs \<le> length buf \<and> (\<forall>i < length bs. buf ! (p + i) = bs ! i)"
  by (auto simp: bytes_at_def list_eq_iff_nth_eq)

lemma bytes_at_Nil [mem_simps]: "bytes_at buf p [] \<longleftrightarrow> p \<le> length buf"
  by (simp add: bytes_at_def)

lemma bytes_at_Cons [mem_simps]:
  "bytes_at buf p (b # bs) \<longleftrightarrow> rd buf p = Some b \<and> bytes_at buf (Suc p) bs"
  by (auto simp: bytes_at_nth rd_def nth_Cons All_less_Suc2 split: nat.splits)

lemma bytes_at_append [mem_simps]:
  "bytes_at buf p (xs @ ys) \<longleftrightarrow> bytes_at buf p xs \<and> bytes_at buf (p + length xs) ys"
  by (induction xs arbitrary: p) (auto simp: mem_simps dest: bytes_at_length)

lemma bytes_at_appendD:
  assumes "bytes_at buf p (xs @ ys)" and "length xs = n"
  shows "bytes_at buf p xs" and "bytes_at buf (p + n) ys"
  using assms by (auto simp: mem_simps)

lemma rd_bytes_at:
  assumes "bytes_at buf p bs" and "i < length bs"
  shows "rd buf (p + i) = Some (bs ! i)"
  using assms by (auto simp: bytes_at_nth rd_def)

lemma rd_n_bytes_at: "bytes_at buf p bs \<Longrightarrow> rd_n buf p (length bs) = Some bs"
  by (induction bs arbitrary: p) (auto simp: mem_simps)

lemma rd_n_Some_iff: "rd_n buf p n = Some bs \<longleftrightarrow> length bs = n \<and> (n = 0 \<or> bytes_at buf p bs)"
proof (induction n arbitrary: p bs)
  case 0
  then show ?case by auto
next
  case (Suc n)
  show ?case
  proof (cases bs)
    case Nil
    then show ?thesis by (auto simp: bind_eq_Some_conv)
  next
    case (Cons b cs)
    have "bytes_at buf (Suc p) cs" if "rd buf p = Some b" "n = 0" "length cs = n"
      using that by (auto simp: mem_simps rd_def split: if_splits)
    then show ?thesis
      using Cons Suc by (auto simp: bind_eq_Some_conv mem_simps)
  qed
qed

lemma rd_n_in_bounds: "p + n \<le> length buf \<Longrightarrow> \<exists>bs. rd_n buf p n = Some bs \<and> length bs = n"
proof (induction n arbitrary: p)
  case 0
  then show ?case by simp
next
  case (Suc n)
  then have "Suc p + n \<le> length buf" by simp
  from Suc.IH [OF this] obtain bs where "rd_n buf (Suc p) n = Some bs" "length bs = n"
    by blast
  with Suc.prems show ?case by (simp add: rd_def)
qed

lemma rd_n_take_drop: "p + n \<le> length buf \<Longrightarrow> rd_n buf p n = Some (take n (drop p buf))"
  by (auto simp: rd_n_Some_iff bytes_at_def)

lemma wr_length: "wr buf p b = Some buf' \<Longrightarrow> length buf' = length buf"
  by (auto simp: wr_def split: if_splits)

lemma wr_n_length: "wr_n buf p bs = Some buf' \<Longrightarrow> length buf' = length buf"
  by (induction bs arbitrary: buf p) (auto simp: bind_eq_Some_conv wr_length)

lemma wr_n_in_bounds:
  "p + length bs \<le> length buf \<Longrightarrow>
     wr_n buf p bs = Some (take p buf @ bs @ drop (p + length bs) buf)"
proof (induction bs arbitrary: p buf)
  case Nil
  then show ?case by simp
next
  case (Cons b bs)
  then have p: "p < length buf" by simp
  then have "take (Suc p) (buf[p := b]) = take p buf @ [b]"
    by (simp add: take_Suc_conv_app_nth)
  moreover have "wr_n (buf[p := b]) (Suc p) bs =
      Some (take (Suc p) (buf[p := b]) @ bs @ drop (Suc p + length bs) (buf[p := b]))"
    using Cons.prems by (intro Cons.IH) simp
  ultimately show ?case using p by (simp add: wr_def)
qed

lemma wr_n_out_of_bounds:
  "bs \<noteq> [] \<Longrightarrow> length buf < p + length bs \<Longrightarrow> wr_n buf p bs = None"
proof (induction bs arbitrary: p buf)
  case Nil
  then show ?case by simp
next
  case (Cons b bs)
  show ?case
  proof (cases "bs = []")
    case True
    with Cons.prems show ?thesis by (simp add: wr_def)
  next
    case False
    then have "wr_n (buf[p := b]) (Suc p) bs = None"
      using Cons.prems by (intro Cons.IH) simp_all
    then show ?thesis by (simp add: wr_def)
  qed
qed

lemma wr_n_append: "wr_n buf p (xs @ ys) = do { buf' \<leftarrow> wr_n buf p xs; wr_n buf' (p + length xs) ys }"
  by (induction xs arbitrary: buf p) (auto split: Option.bind_splits)

lemma wr_n_bytes_at:
  "wr_n buf p bs = Some buf' \<Longrightarrow> p \<le> length buf \<Longrightarrow> bytes_at buf' p bs"
proof -
  assume wr: "wr_n buf p bs = Some buf'" and p: "p \<le> length buf"
  show ?thesis
  proof (cases "p + length bs \<le> length buf")
    case True
    with wr show ?thesis by (auto simp: wr_n_in_bounds bytes_at_def)
  next
    case False
    with p have "bs \<noteq> []" by auto
    with False wr show ?thesis by (auto simp: wr_n_out_of_bounds)
  qed
qed

lemma wr_n_nth_other:
  assumes "wr_n buf q cs = Some buf'" and "i < q \<or> q + length cs \<le> i"
  shows "buf' ! i = buf ! i"
  using assms
proof (induction cs arbitrary: buf q)
  case Nil
  then show ?case by simp
next
  case (Cons c cs)
  from Cons.prems(1) have "wr_n (buf[q := c]) (Suc q) cs = Some buf'" "q < length buf"
    by (auto simp: wr_def split: if_splits)
  then have "buf' ! i = buf[q := c] ! i"
    using Cons.prems(2) by (intro Cons.IH) auto
  then show ?case using Cons.prems(2) by auto
qed

lemma wr_n_frame:
  assumes "wr_n buf q cs = Some buf'" and "bytes_at buf p bs"
    and "p + length bs \<le> q \<or> q + length cs \<le> p"
  shows "bytes_at buf' p bs"
proof -
  have "buf' ! (p + i) = buf ! (p + i)" if "i < length bs" for i
    using assms that by (intro wr_n_nth_other) auto
  then show ?thesis
    using assms by (simp add: bytes_at_nth wr_n_length)
qed

section \<open>Characters and C strings\<close>

text \<open>
  \<open>std::string\<close> and \<open>char*\<close> hold bytes; the model's \<open>string\<close> is a list of 8-bit characters.
\<close>

definition byte_of :: "char \<Rightarrow> u8" where
  "byte_of c = word_of_nat (of_char c)"

definition char_of_byte :: "u8 \<Rightarrow> char" where
  "char_of_byte b = char_of (unat b)"

lemma char_of_byte_of [simp]: "char_of_byte (byte_of c) = c"
proof -
  have "(of_char c :: nat) < 256" by (rule nat_of_char_less_256)
  then show ?thesis by (simp add: byte_of_def char_of_byte_def unat_of_nat)
qed

lemma byte_of_char_of_byte [simp]: "byte_of (char_of_byte b) = b"
proof -
  have "unat b < 256" using unsigned_less [of b] by simp
  then show ?thesis by (simp add: byte_of_def char_of_byte_def)
qed

lemma byte_of_inject [simp]: "byte_of a = byte_of b \<longleftrightarrow> a = b"
  by (metis char_of_byte_of)

text \<open>Reading a \<open>char\<close> array as a C string stops at the first NUL.\<close>

definition c_str :: "string \<Rightarrow> string" where
  "c_str s = takeWhile (\<lambda>c. c \<noteq> CHR 0x00) s"

lemma c_str_id: "CHR 0x00 \<notin> set s \<Longrightarrow> c_str s = s"
  by (auto simp: c_str_def takeWhile_eq_all_conv)

lemma c_str_id_iff: "c_str s = s \<longleftrightarrow> CHR 0x00 \<notin> set s"
  by (auto simp: c_str_def takeWhile_eq_all_conv)

lemma c_str_idem [simp]: "c_str (c_str s) = c_str s"
  by (metis (full_types) c_str_def c_str_id set_takeWhileD)

section \<open>State machines\<close>

text \<open>A step relation with an invariant that every step keeps.\<close>

locale state_machine =
  fixes step :: "'s \<Rightarrow> 's \<Rightarrow> bool" and inv :: "'s \<Rightarrow> bool"
  assumes inv_step: "step s s' \<Longrightarrow> inv s \<Longrightarrow> inv s'"
begin

lemma reachable: "step\<^sup>*\<^sup>* s s' \<Longrightarrow> inv s \<Longrightarrow> inv s'"
  by (induction rule: rtranclp_induct) (auto intro: inv_step)

end

text \<open>
  Runs as infinite sequences of states. At each position the machine takes a step or rests; a run is fair
  when it does not rest for ever in a state that some step changes.
\<close>

definition fair_run :: "('s \<Rightarrow> 's \<Rightarrow> bool) \<Rightarrow> (nat \<Rightarrow> 's) \<Rightarrow> bool" where
  "fair_run step run \<longleftrightarrow>
     (\<forall>i. step (run i) (run (Suc i)) \<or> run (Suc i) = run i)
   \<and> (\<forall>i. (\<exists>s'. step (run i) s' \<and> s' \<noteq> run i) \<longrightarrow> (\<exists>j>i. run j \<noteq> run i))"

text \<open>
  A machine that finishes: every step that changes a state lowers its rank, and until the goal is reached
  there is such a step. Then every fair run reaches the goal and stays there.
\<close>

locale finishing_machine = state_machine step inv
  for step :: "'s \<Rightarrow> 's \<Rightarrow> bool" and inv :: "'s \<Rightarrow> bool" +
  fixes rank :: "'s \<Rightarrow> nat" and goal :: "'s \<Rightarrow> bool"
  assumes rank_step: "inv s \<Longrightarrow> step s s' \<Longrightarrow> s' \<noteq> s \<Longrightarrow> rank s' < rank s"
    and enabled: "inv s \<Longrightarrow> \<not> goal s \<Longrightarrow> \<exists>s'. step s s' \<and> s' \<noteq> s"
    and goal_step: "inv s \<Longrightarrow> step s s' \<Longrightarrow> goal s \<Longrightarrow> goal s'"
begin

lemma can_finish: "inv s \<Longrightarrow> \<exists>s'. step\<^sup>*\<^sup>* s s' \<and> goal s'"
proof (induction "rank s" arbitrary: s rule: less_induct)
  case less
  show ?case
  proof (cases "goal s")
    case False
    with less.prems enabled obtain s1 where s1: "step s s1" "s1 \<noteq> s" by blast
    then obtain s' where "step\<^sup>*\<^sup>* s1 s'" "goal s'"
      using less.hyps rank_step inv_step less.prems by blast
    with s1(1) show ?thesis by (blast intro: converse_rtranclp_into_rtranclp)
  qed blast
qed

lemma run_inv:
  assumes "fair_run step run" and "inv (run 0)"
  shows "inv (run i)"
proof (induction i)
  case (Suc i)
  have "step (run i) (run (Suc i)) \<or> run (Suc i) = run i" using assms(1) by (simp add: fair_run_def)
  with Suc show ?case by (auto intro: inv_step)
qed (rule assms(2))

lemma run_rank:
  assumes "fair_run step run" and "inv (run 0)"
  shows "i \<le> j \<Longrightarrow> run j = run i \<or> rank (run j) < rank (run i)"
proof (induction j rule: dec_induct)
  case (step j)
  have "step (run j) (run (Suc j)) \<or> run (Suc j) = run j" using assms(1) by (simp add: fair_run_def)
  then have "run (Suc j) = run j \<or> rank (run (Suc j)) < rank (run j)"
    using rank_step run_inv [OF assms, of j] by blast
  with step.IH show ?case by auto
qed simp

lemma run_goal:
  assumes "fair_run step run" and "inv (run 0)"
  shows "goal (run i) \<Longrightarrow> i \<le> j \<Longrightarrow> goal (run j)"
proof (rotate_tac, induction j rule: dec_induct)
  case (step j)
  have "step (run j) (run (Suc j)) \<or> run (Suc j) = run j" using assms(1) by (simp add: fair_run_def)
  with step goal_step run_inv [OF assms, of j] show ?case by metis
qed

lemma finishes:
  assumes "fair_run step run" and "inv (run 0)"
  shows "\<exists>k. \<forall>j\<ge>k. goal (run j)"
proof -
  have "\<exists>k. goal (run k)" if "rank (run i) = r" for i r
    using that
  proof (induction r arbitrary: i rule: less_induct)
    case (less r)
    show ?case
    proof (cases "goal (run i)")
      case False
      with enabled run_inv [OF assms] obtain s' where "step (run i) s'" "s' \<noteq> run i" by blast
      with assms(1) obtain j where j: "j > i" "run j \<noteq> run i" unfolding fair_run_def by blast
      with run_rank [OF assms, of i j] have "rank (run j) < r" using less.prems by simp
      with less.IH show ?thesis by blast
    qed blast
  qed
  then obtain k where "goal (run k)" by blast
  with run_goal [OF assms] show ?thesis by blast
qed

end

text \<open>A machine whose steps are runs of another one, under a view \<open>abs\<close> of its state.\<close>

locale simulation =
  fixes step :: "'s \<Rightarrow> 's \<Rightarrow> bool" and astep :: "'a \<Rightarrow> 'a \<Rightarrow> bool" and abs :: "'s \<Rightarrow> 'a"
  assumes sim_step: "step s s' \<Longrightarrow> astep\<^sup>*\<^sup>* (abs s) (abs s')"
begin

lemma simulated: "step\<^sup>*\<^sup>* s s' \<Longrightarrow> astep\<^sup>*\<^sup>* (abs s) (abs s')"
  by (induction rule: rtranclp_induct) (auto dest: sim_step)

end

text \<open>Then the invariant of the abstract machine holds of the view in every reachable state.\<close>

locale refined_machine = simulation step astep abs + abstract: state_machine astep inv
  for step :: "'s \<Rightarrow> 's \<Rightarrow> bool" and astep :: "'a \<Rightarrow> 'a \<Rightarrow> bool" and abs :: "'s \<Rightarrow> 'a" and inv :: "'a \<Rightarrow> bool"
begin

lemma abs_inv: "step\<^sup>*\<^sup>* s s' \<Longrightarrow> inv (abs s) \<Longrightarrow> inv (abs s')"
  by (blast intro: abstract.reachable simulated)

end

end
