(* ===== verification/Str_Utils.thy ===== *)
theory Str_Utils
  imports St_Prelude
begin

text \<open>
  The \<open>std::string\<close> operations the code uses (\<open>find\<close>, \<open>find_last_of\<close>, \<open>substr\<close>, \<open>to_string\<close>,
  \<open>stoi\<close>, \<open>toupper\<close>) and the helpers of \<open>src/common/main/utils/string_utils.h\<close>: \<open>split\<close> and
  \<open>join\<close>. The \<open>while\<close> loop of \<open>split\<close> never ends on an empty separator, so it is a partial
  function whose value \<open>None\<close> is divergence.
\<close>

section \<open>Standard library strings\<close>

text \<open>\<open>s.find(sep, from)\<close>: \<open>None\<close> is \<open>npos\<close>.\<close>

definition str_find :: "string \<Rightarrow> string \<Rightarrow> nat \<Rightarrow> nat option" where
  "str_find s sep from = find (\<lambda>i. take (length sep) (drop i s) = sep) [from ..< Suc (length s)]"

text \<open>\<open>s.find_last_of(c)\<close>.\<close>

definition find_last_of :: "string \<Rightarrow> char \<Rightarrow> nat option" where
  "find_last_of s c = find (\<lambda>i. s ! i = c) (rev [0 ..< length s])"

text \<open>\<open>s.substr(pos, n)\<close> for \<open>pos \<le> size\<close>; the count \<open>None\<close> is \<open>npos\<close>.\<close>

definition substr :: "string \<Rightarrow> nat \<Rightarrow> nat option \<Rightarrow> string" where
  "substr s pos n = (case n of None \<Rightarrow> drop pos s | Some k \<Rightarrow> take k (drop pos s))"

text \<open>What the conversions of the standard library throw.\<close>

datatype std_exn = Invalid_Argument | Out_Of_Range

definition digit_char :: "nat \<Rightarrow> char" where
  "digit_char n = char_of (48 + n)"

definition is_digit :: "char \<Rightarrow> bool" where
  "is_digit c \<longleftrightarrow> 48 \<le> (of_char c :: nat) \<and> (of_char c :: nat) \<le> 57"

definition is_space :: "char \<Rightarrow> bool" where
  "is_space c \<longleftrightarrow> (of_char c :: nat) = 32 \<or> (9 \<le> (of_char c :: nat) \<and> (of_char c :: nat) \<le> 13)"

fun to_string :: "nat \<Rightarrow> string" where
  "to_string n = (if n < 10 then [digit_char n] else to_string (n div 10) @ [digit_char (n mod 10)])"

declare to_string.simps [simp del]

definition digits_value :: "string \<Rightarrow> nat" where
  "digits_value ds = foldl (\<lambda>v c. v * 10 + (of_char c - 48)) 0 ds"

text \<open>\<open>stoi\<close>: blanks, an optional sign, then the longest run of digits; the rest is ignored.\<close>

definition stoi :: "string \<Rightarrow> std_exn + int" where
  "stoi s =
     (let s1 = dropWhile is_space s;
          neg = (s1 \<noteq> [] \<and> hd s1 = CHR ''-'');
          s2 = (if s1 \<noteq> [] \<and> (hd s1 = CHR ''-'' \<or> hd s1 = CHR ''+'') then tl s1 else s1);
          ds = takeWhile is_digit s2;
          v = (if neg then - int (digits_value ds) else int (digits_value ds))
      in if ds = [] then Inl Invalid_Argument
         else if v < - (2 ^ 31) \<or> 2 ^ 31 \<le> v then Inl Out_Of_Range
         else Inr v)"

definition to_upper :: "char \<Rightarrow> char" where
  "to_upper c = (let n = (of_char c :: nat) in if 97 \<le> n \<and> n \<le> 122 then char_of (n - 32) else c)"

section \<open>split and join\<close>

partial_function (option) split_loop ::
  "string \<Rightarrow> string \<Rightarrow> nat \<Rightarrow> nat \<Rightarrow> nat \<Rightarrow> nat \<Rightarrow> string list \<Rightarrow> string list option" where
  "split_loop str separator spit_cnt pos lastPos s_cnt result =
     (case str_find str separator pos of
        None \<Rightarrow> Some (result @ [substr str lastPos (Some (length str - lastPos))])
      | Some pos' \<Rightarrow>
          (let line = substr str lastPos (Some (pos' - lastPos));
               next = pos' + length separator
           in if spit_cnt \<noteq> 0 \<and> spit_cnt \<le> Suc s_cnt
              then Some (result @ [line] @ [substr str next (Some (length str - next))])
              else split_loop str separator spit_cnt next next (Suc s_cnt) (result @ [line])))"

definition split_from :: "string \<Rightarrow> string \<Rightarrow> nat \<Rightarrow> nat \<Rightarrow> string list option" where
  "split_from str separator start spit_cnt =
     (if str = [] then Some [] else split_loop str separator spit_cnt start 0 0 [])"

definition split :: "string \<Rightarrow> string \<Rightarrow> string list option" where
  "split str separator = split_from str separator 0 0"

definition join :: "string list \<Rightarrow> string \<Rightarrow> string" where
  "join xs delimit = foldl (\<lambda>result value. (if result \<noteq> [] then result @ delimit else result) @ value) [] xs"

section \<open>Decimal numbers\<close>

lemma of_char_digit_char [simp]: "n < 10 \<Longrightarrow> of_char (digit_char n) = 48 + n"
  by (simp add: digit_char_def)

lemma is_digit_digit_char [simp]: "n < 10 \<Longrightarrow> is_digit (digit_char n)"
  by (simp add: is_digit_def)

lemma to_string_digits: "c \<in> set (to_string n) \<Longrightarrow> is_digit c"
  by (induction n rule: to_string.induct)
     (subst (asm) (2) to_string.simps, auto split: if_splits)

lemma to_string_nonempty [simp]: "to_string n \<noteq> []"
  by (subst to_string.simps) simp

lemma digits_value_snoc: "digits_value (ds @ [c]) = digits_value ds * 10 + (of_char c - 48)"
  by (simp add: digits_value_def)

lemma digits_value_to_string [simp]: "digits_value (to_string n) = n"
proof (induction n rule: to_string.induct)
  case (1 n)
  show ?case
  proof (cases "n < 10")
    case True
    then show ?thesis by (subst to_string.simps) (simp add: digits_value_def)
  next
    case False
    with 1 show ?thesis by (subst to_string.simps) (simp add: digits_value_snoc)
  qed
qed

lemma is_digit_not: "is_digit c \<Longrightarrow> c \<noteq> CHR ''.'' \<and> c \<noteq> CHR ''-'' \<and> c \<noteq> CHR ''+'' \<and> c \<noteq> CHR '','' \<and> \<not> is_space c"
  by (auto simp: is_digit_def is_space_def)

lemma takeWhile_digits_append:
  "takeWhile is_digit (to_string n @ rest) = to_string n @ takeWhile is_digit rest"
  by (simp add: to_string_digits takeWhile_append2)

lemma hd_to_string_digit: "is_digit (hd (to_string n))"
  by (rule to_string_digits [OF hd_in_set]) simp

lemma stoi_to_string_append:
  assumes "n < 2 ^ 31" and "rest = [] \<or> \<not> is_digit (hd rest)"
  shows "stoi (to_string n @ rest) = Inr (int n)"
proof -
  obtain d ds where s: "to_string n = d # ds" by (cases "to_string n") auto
  have d: "is_digit d" using hd_to_string_digit [of n] s by simp
  have "takeWhile is_digit rest = []" using assms(2) by (cases rest) auto
  then have tw: "takeWhile is_digit (d # ds @ rest) = d # ds"
    using takeWhile_digits_append [of n rest] s by simp
  have v: "digits_value (d # ds) = n" using digits_value_to_string [of n] s by simp
  from is_digit_not [OF d] have ws: "dropWhile is_space (d # ds @ rest) = d # ds @ rest"
    and "d \<noteq> CHR ''-''" "d \<noteq> CHR ''+''" by simp_all
  with tw v assms(1) show ?thesis by (simp add: stoi_def s Let_def)
qed

section \<open>Searching\<close>

lemma str_find_Some:
  "str_find s sep from = Some i \<Longrightarrow> from \<le> i \<and> i + length sep \<le> length s \<and> take (length sep) (drop i s) = sep"
proof -
  assume "str_find s sep from = Some i"
  then obtain k where k: "k < length [from ..< Suc (length s)]"
    "take (length sep) (drop ([from ..< Suc (length s)] ! k) s) = sep" "i = [from ..< Suc (length s)] ! k"
    by (auto simp: str_find_def find_Some_iff simp del: upt_Suc)
  then have i: "i = from + k" "from + k \<le> length s" by (simp_all del: upt_Suc)
  have "length (take (length sep) (drop i s)) = length sep" using k by simp
  then have "i + length sep \<le> length s" using i by simp
  with k i show ?thesis by simp
qed

lemma str_find_char_None: "c \<notin> set (drop from s) \<Longrightarrow> str_find s [c] from = None"
proof -
  assume c: "c \<notin> set (drop from s)"
  have "False" if "i \<in> set [from ..< Suc (length s)]" "take (length [c]) (drop i s) = [c]" for i
  proof -
    from that(2) have "c \<in> set (drop i s)" by (metis in_set_takeD list.set_intros(1))
    moreover have "from \<le> i" using that(1) by (simp del: upt_Suc)
    ultimately have "c \<in> set (drop from s)" using set_drop_subset_set_drop [of "from" i s] by auto
    with c show False by simp
  qed
  then show ?thesis unfolding str_find_def find_None_iff by blast
qed

lemma str_find_char_Some:
  assumes "c \<notin> set ys" and "s = xs @ ys @ c # zs"
  shows "str_find s [c] (length xs) = Some (length xs + length ys)"
proof -
  let ?is = "[length xs ..< Suc (length s)]"
  have hit: "?is ! length ys = length xs + length ys" "length ys < length ?is"
    using assms(2) by (simp_all del: upt_Suc)
  have "take 1 (drop (?is ! j) s) \<noteq> [c]" if "j < length ys" for j
  proof -
    have "?is ! j = length xs + j" using that assms(2) by (simp del: upt_Suc)
    then have "take 1 (drop (?is ! j) s) = [ys ! j]"
      using that assms(2) by (simp add: take_Suc_conv_app_nth nth_append)
    then show ?thesis using that assms(1) nth_mem by fastforce
  qed
  then show ?thesis
    unfolding str_find_def find_Some_iff
    using hit assms(2) by (intro exI [of _ "length ys"]) (simp del: upt_Suc)
qed

section \<open>Reference versions of split and join\<close>

fun split_on :: "char \<Rightarrow> string \<Rightarrow> string list" where
  "split_on c [] = [[]]"
| "split_on c (x # xs) =
     (if x = c then [] # split_on c xs
      else (case split_on c xs of [] \<Rightarrow> [[x]] | y # ys \<Rightarrow> (x # y) # ys))"

fun sep_join :: "string \<Rightarrow> string list \<Rightarrow> string" where
  "sep_join d [] = []"
| "sep_join d [x] = x"
| "sep_join d (x # y # ys) = x @ d @ sep_join d (y # ys)"

text \<open>\<open>getline\<close> until the end of the file: a newline at the end does not start another line.\<close>

definition getlines :: "string \<Rightarrow> string list" where
  "getlines s = (let ls = split_on (CHR 0x0A) s in if last ls = [] then butlast ls else ls)"

lemma split_on_no_sep: "c \<notin> set s \<Longrightarrow> split_on c s = [s]"
  by (induction s) auto

lemma split_on_sep: "c \<notin> set ys \<Longrightarrow> split_on c (ys @ c # zs) = ys # split_on c zs"
  by (induction ys) auto

lemma split_on_nonempty [simp]: "split_on c s \<noteq> []"
  by (cases s) (auto split: list.splits)

lemma getlines_concat: "\<forall>l\<in>set ls. CHR 0x0A \<notin> set l \<Longrightarrow> getlines (concat (map (\<lambda>l. l @ [CHR 0x0A]) ls)) = ls"
  by (induction ls) (auto simp: getlines_def split_on_sep Let_def split: if_splits)

lemma split_on_pieces: "x \<in> set (split_on c s) \<Longrightarrow> c \<notin> set x"
  by (induction s arbitrary: x) (auto split: if_splits list.splits)

lemma sep_join_Cons: "xs \<noteq> [] \<Longrightarrow> sep_join d (x # xs) = x @ d @ sep_join d xs"
  by (cases xs) auto

lemma sep_join_split_on: "sep_join [c] (split_on c s) = s"
proof (induction s)
  case Nil
  then show ?case by simp
next
  case (Cons x s)
  then show ?case
    by (cases "split_on c s"; cases "tl (split_on c s)") (auto simp: sep_join_Cons)
qed

lemma split_on_sep_join:
  "xs \<noteq> [] \<Longrightarrow> \<forall>x \<in> set xs. c \<notin> set x \<Longrightarrow> split_on c (sep_join [c] xs) = xs"
proof (induction xs)
  case Nil
  then show ?case by simp
next
  case (Cons x xs)
  then show ?case
    by (cases xs) (auto simp: split_on_no_sep split_on_sep)
qed

lemma split_loop_split_on:
  "split_loop (pre @ s) [c] 0 (length pre) (length pre) n result = Some (result @ split_on c s)"
proof (induction s arbitrary: pre n result rule: length_induct)
  case (1 s)
  show ?case
  proof (cases "c \<in> set s")
    case False
    then have "str_find (pre @ s) [c] (length pre) = None"
      by (intro str_find_char_None) simp
    with False show ?thesis
      by (subst split_loop.simps) (simp add: substr_def split_on_no_sep)
  next
    case True
    then obtain ys zs where s: "s = ys @ c # zs" and c: "c \<notin> set ys"
      using split_list_first by metis
    then have "str_find (pre @ s) [c] (length pre) = Some (length pre + length ys)"
      by (intro str_find_char_Some) simp_all
    moreover have "split_loop ((pre @ ys @ [c]) @ zs) [c] 0 (length (pre @ ys @ [c]))
        (length (pre @ ys @ [c])) (Suc n) (result @ [ys]) = Some ((result @ [ys]) @ split_on c zs)"
      using s by (intro 1 [rule_format]) simp
    ultimately show ?thesis
      by (subst split_loop.simps) (simp add: s substr_def Let_def split_on_sep c)
  qed
qed

lemma foldl_join:
  "r \<noteq> [] \<Longrightarrow>
     foldl (\<lambda>result value. (if result \<noteq> [] then result @ d else result) @ value) r xs
       = r @ concat (map (\<lambda>x. d @ x) xs)"
  by (induction xs arbitrary: r) auto

lemma sep_join_concat: "sep_join d (x # xs) = x @ concat (map (\<lambda>y. d @ y) xs)"
  by (induction xs arbitrary: x) auto

lemma join_sep_join: "xs = [] \<or> hd xs \<noteq> [] \<Longrightarrow> join xs d = sep_join d xs"
  by (cases xs) (auto simp: join_def foldl_join sep_join_concat)

lemma split_nonempty: "s \<noteq> [] \<Longrightarrow> split s [c] = Some (split_on c s)"
  using split_loop_split_on [of "[]" s c 0 "[]"] by (simp add: split_def split_from_def)

lemma split_join:
  assumes "xs = [] \<or> hd xs \<noteq> []" and "\<forall>x \<in> set xs. c \<notin> set x"
  shows "split (join xs [c]) [c] = Some xs"
proof (cases "xs = []")
  case True
  then show ?thesis by (simp add: join_def split_def split_from_def)
next
  case False
  then have "join xs [c] = sep_join [c] xs" using assms(1) by (simp add: join_sep_join)
  moreover have "sep_join [c] xs \<noteq> []"
    using assms(1) False by (cases xs; cases "tl xs") auto
  ultimately show ?thesis
    using assms False by (simp add: split_nonempty split_on_sep_join)
qed

section \<open>Properties\<close>

text \<open>
  Splitting at a one-character separator gives exactly the pieces between the separators:
  the loop agrees with the structural reference, on every non-empty string.
\<close>

theorem split_char_correct:
  "split s [c] = Some (if s = [] then [] else split_on c s)"
  by (cases "s = []") (simp_all add: split_nonempty, simp add: split_def split_from_def)

text \<open>
  Joining pieces and splitting the result at the same character gives the pieces back, as
  long as the first piece is not empty and no piece holds the separator. (With an empty first
  piece \<open>join\<close> drops a separator.)
\<close>

theorem split_join_roundtrip:
  assumes "xs \<noteq> []" and "hd xs \<noteq> []" and "\<forall>x \<in> set xs. c \<notin> set x"
  shows "split (join xs [c]) [c] = Some xs"
  using assms by (intro split_join) simp_all

theorem split_join_roundtrip_witness:
  "split (join [''a'', [], ''b.c''] '','') '','' = Some [''a'', [], ''b.c'']"
  by (rule split_join_roundtrip) auto

text \<open>
  C39. The loop of \<open>split\<close> ends on every input whose separator is not empty, for every start
  and every piece limit.
\<close>

theorem split_from_terminates:
  assumes "separator \<noteq> []"
  shows "\<exists>r. split_from str separator start spit_cnt = Some r"
proof -
  have "\<exists>r. split_loop str separator spit_cnt pos lastPos s_cnt result = Some r"
    for pos lastPos s_cnt result
  proof (induction "Suc (length str) - pos" arbitrary: pos lastPos s_cnt result rule: less_induct)
    case less
    show ?case
    proof (cases "str_find str separator pos")
      case None
      then show ?thesis by (subst split_loop.simps) simp
    next
      case (Some i)
      from str_find_Some [OF this] have "pos \<le> i" "i + length separator \<le> length str" by simp_all
      moreover have "0 < length separator" using assms by simp
      ultimately have "Suc (length str) - (i + length separator) < Suc (length str) - pos"
        by linarith
      from less [OF this] Some show ?thesis by (subst split_loop.simps) (auto simp: Let_def)
    qed
  qed
  then show ?thesis by (simp add: split_from_def)
qed

theorem split_from_terminates_witness: "\<exists>r. split_from ''http://a/b'' ''://'' 0 1 = Some r"
  by (rule split_from_terminates) simp

end
