(* ===== verification/Ipv4.thy ===== *)
theory Ipv4
  imports Str_Utils
begin

unbundle bit_operations_syntax

text \<open>
  The address conversions of \<open>src/common/main/utils/ipv4.h\<close>. \<open>str_to_ip\<close> returns 0 for a text
  it rejects and lets the exception of \<open>stoi\<close> escape, so its result is a sum: \<open>Inl\<close> is the
  exception, \<open>Inr\<close> the address.
\<close>

section \<open>Model\<close>

definition ip_to_str :: "u32 \<Rightarrow> string" where
  "ip_to_str ip =
     to_string (unat (drop_bit 24 (ip AND 0xFF000000))) @ ''.'' @
     to_string (unat (drop_bit 16 (ip AND 0x00FF0000))) @ ''.'' @
     to_string (unat (drop_bit 8 (ip AND 0x0000FF00))) @ ''.'' @
     to_string (unat (ip AND 0x000000FF))"

text \<open>
  The loop of \<open>str_to_ip\<close>. The count given to \<open>substr\<close> is the position of the next dot, not the
  length of the segment, so the piece may run past the dot; and the digit check of the source
  looks at \<open>numStr[0]\<close> in every round, so only the first character is checked.
\<close>

function str_to_ip_loop :: "string \<Rightarrow> nat \<Rightarrow> nat \<Rightarrow> u32 \<Rightarrow> std_exn + u32" where
  "str_to_ip_loop ipStr lastPos num ip =
     (if num < 4 \<and> lastPos < length ipStr then
        (let pos = str_find ipStr ''.'' lastPos in
         if (num \<noteq> 3 \<and> pos = None) \<or> (num = 3 \<and> pos \<noteq> None) then Inr 0
         else (let numStr = substr ipStr lastPos pos in
           if numStr = [] then Inr 0
           else if \<not> is_digit (numStr ! 0) then Inr 0
           else (case stoi numStr of
               Inl e \<Rightarrow> Inl e
             | Inr v \<Rightarrow>
                 (let ipSeg = word_of_int v :: u32 in
                  if 255 < ipSeg then Inr 0
                  else str_to_ip_loop ipStr (case pos of None \<Rightarrow> 0 | Some p \<Rightarrow> Suc p) (Suc num)
                         (ip OR push_bit (32 - 8 * Suc num) ipSeg)))))
      else Inr ip)"
  by pat_completeness auto
termination
  by (relation "measure (\<lambda>(ipStr, lastPos, num, ip). 4 - num)") auto

declare str_to_ip_loop.simps [simp del]

definition str_to_ip :: "string \<Rightarrow> std_exn + u32" where
  "str_to_ip ipStr = str_to_ip_loop ipStr 0 0 0"

definition ips_to_str :: "u32 list \<Rightarrow> string" where
  "ips_to_str ips =
     (let ipStr = foldl (\<lambda>ipStr ip. ipStr @ ip_to_str ip @ '','') [] ips
      in if ipStr = [] then substr ipStr 0 None else substr ipStr 0 (Some (length ipStr - 1)))"

fun str_to_ips_loop :: "string list \<Rightarrow> u32 list \<Rightarrow> std_exn + u32 list" where
  "str_to_ips_loop [] ips = Inr ips"
| "str_to_ips_loop (str # ipStrs) ips =
     (case str_to_ip str of
        Inl e \<Rightarrow> Inl e
      | Inr ip \<Rightarrow> str_to_ips_loop ipStrs (if 0 < ip then ips @ [ip] else ips))"

definition str_to_ips :: "string \<Rightarrow> (std_exn + u32 list) option" where
  "str_to_ips ipStr = map_option (\<lambda>ipStrs. str_to_ips_loop ipStrs []) (split ipStr '','')"

section \<open>Octets\<close>

definition octet :: "u32 \<Rightarrow> nat \<Rightarrow> u32" where
  "octet ip k = take_bit 8 (drop_bit (8 * k) ip)"

lemma octet_masks:
  "drop_bit 24 (ip AND 0xFF000000) = octet ip 3"
  "drop_bit 16 (ip AND 0x00FF0000) = octet ip 2"
  "drop_bit 8 (ip AND 0x0000FF00) = octet ip 1"
  "ip AND 0x000000FF = octet ip 0"
proof -
  have ff: "(255 :: u32) = mask 8" by (simp add: mask_eq_exp_minus_1)
  have m: "(0xFF000000 :: u32) = push_bit 24 255" "(0x00FF0000 :: u32) = push_bit 16 255"
    "(0x0000FF00 :: u32) = push_bit 8 255" by simp_all
  show "drop_bit 24 (ip AND 0xFF000000) = octet ip 3"
    unfolding m ff octet_def by (rule bit_word_eqI) (auto simp: bit_simps)
  show "drop_bit 16 (ip AND 0x00FF0000) = octet ip 2"
    unfolding m ff octet_def by (rule bit_word_eqI) (auto simp: bit_simps)
  show "drop_bit 8 (ip AND 0x0000FF00) = octet ip 1"
    unfolding m ff octet_def by (rule bit_word_eqI) (auto simp: bit_simps)
  show "ip AND 0x000000FF = octet ip 0"
    unfolding ff octet_def by (rule bit_word_eqI) (auto simp: bit_simps)
qed

lemma octet_less: "unat (octet ip k) < 256"
  using take_bit_nat_less_exp [of 8 "unat (drop_bit (8 * k) ip)"]
  by (simp add: octet_def unsigned_take_bit_eq)

lemma octets_join:
  "push_bit 24 (octet ip 3) OR push_bit 16 (octet ip 2) OR push_bit 8 (octet ip 1) OR octet ip 0 = ip"
proof (rule bit_word_eqI)
  fix n assume "n < LENGTH(32)"
  then consider "n < 8" | "8 \<le> n" "n < 16" | "16 \<le> n" "n < 24" | "24 \<le> n" "n < 32"
    by force
  then show "bit (push_bit 24 (octet ip 3) OR push_bit 16 (octet ip 2) OR push_bit 8 (octet ip 1)
      OR octet ip 0) n = bit ip n"
    by cases (auto simp: octet_def bit_simps)
qed

section \<open>Parsing one segment\<close>

lemma str_to_ip_loop_step:
  fixes n :: u32
  assumes n: "unat n < 256" and k: "num < 3" and s: "s = pre @ to_string (unat n) @ CHR ''.'' # rest"
  shows "str_to_ip_loop s (length pre) num ip =
           str_to_ip_loop s (length pre + length (to_string (unat n)) + 1) (Suc num)
             (ip OR push_bit (32 - 8 * Suc num) n)"
proof -
  let ?d = "to_string (unat n)"
  have "CHR ''.'' \<notin> set ?d" using to_string_digits is_digit_not by blast
  then have find: "str_find s ''.'' (length pre) = Some (length pre + length ?d)"
    using s by (intro str_find_char_Some) simp_all
  have sub: "substr s (length pre) (Some (length pre + length ?d)) = ?d @ take (length pre) (CHR ''.'' # rest)"
    by (simp add: substr_def s)
  have "take (length pre) (CHR ''.'' # rest) = [] \<or> \<not> is_digit (hd (take (length pre) (CHR ''.'' # rest)))"
    by (cases pre) (simp_all add: is_digit_def)
  with n have "stoi (?d @ take (length pre) (CHR ''.'' # rest)) = Inr (int (unat n))"
    by (intro stoi_to_string_append) simp_all
  moreover have "is_digit ((?d @ take (length pre) (CHR ''.'' # rest)) ! 0)"
    using hd_to_string_digit [of "unat n"] by (simp add: nth_append hd_conv_nth)
  moreover have "\<not> 255 < n" using n by (simp add: word_less_nat_alt)
  moreover have "length pre < length s" by (simp add: s)
  ultimately show ?thesis
    using k by (subst str_to_ip_loop.simps) (simp add: find sub Let_def)
qed

lemma str_to_ip_loop_last:
  fixes n :: u32
  assumes n: "unat n < 256" and s: "s = pre @ to_string (unat n)"
  shows "str_to_ip_loop s (length pre) 3 ip = Inr (ip OR n)"
proof -
  let ?d = "to_string (unat n)"
  have "CHR ''.'' \<notin> set ?d" using to_string_digits is_digit_not by blast
  then have find: "str_find s ''.'' (length pre) = None"
    using s by (intro str_find_char_None) simp
  have "stoi ?d = Inr (int (unat n))"
    using n stoi_to_string_append [of "unat n" "[]"] by simp
  moreover have "is_digit (?d ! 0)"
    using hd_to_string_digit [of "unat n"] by (simp add: hd_conv_nth)
  moreover have "\<not> 255 < n" using n by (simp add: word_less_nat_alt)
  moreover have "str_to_ip_loop s 0 4 x = Inr x" for x
    by (subst str_to_ip_loop.simps) simp
  moreover have "length pre < length s" "substr s (length pre) None = ?d"
    by (simp_all add: s substr_def)
  ultimately show ?thesis
    by (subst str_to_ip_loop.simps) (simp add: find Let_def)
qed

lemma three_segments:
  fixes ip :: u32
  defines "a \<equiv> \<lambda>k. to_string (unat (octet ip k))"
  defines "pre \<equiv> a 3 @ ''.'' @ a 2 @ ''.'' @ a 1 @ ''.''"
  shows "str_to_ip_loop (pre @ rest) 0 0 0 = str_to_ip_loop (pre @ rest) (length pre) 3
           (push_bit 24 (octet ip 3) OR push_bit 16 (octet ip 2) OR push_bit 8 (octet ip 1))"
proof -
  let ?s = "pre @ rest"
  have "str_to_ip_loop ?s (length ([] :: string)) 0 0 =
      str_to_ip_loop ?s (length (a 3 @ ''.'')) 1 (push_bit 24 (octet ip 3))"
    by (subst str_to_ip_loop_step [OF octet_less, of 0 ?s "[]" ip 3]) (simp_all add: pre_def a_def)
  also have "\<dots> = str_to_ip_loop ?s (length (a 3 @ ''.'' @ a 2 @ ''.'')) 2
      (push_bit 24 (octet ip 3) OR push_bit 16 (octet ip 2))"
    by (subst str_to_ip_loop_step [OF octet_less, of 1 ?s "a 3 @ ''.''" ip 2])
       (simp_all add: pre_def a_def numeral_2_eq_2)
  also have "\<dots> = str_to_ip_loop ?s (length pre) 3
      (push_bit 24 (octet ip 3) OR push_bit 16 (octet ip 2) OR push_bit 8 (octet ip 1))"
    by (subst str_to_ip_loop_step [OF octet_less, of 2 ?s "a 3 @ ''.'' @ a 2 @ ''.''" ip 1])
       (simp_all add: pre_def a_def or.assoc numeral_3_eq_3 add.assoc)
  finally show ?thesis by simp
qed

lemma dotted_roundtrip: "str_to_ip (ip_to_str ip) = Inr ip"
proof -
  let ?a = "\<lambda>k. to_string (unat (octet ip k))"
  let ?pre = "?a 3 @ ''.'' @ ?a 2 @ ''.'' @ ?a 1 @ ''.''"
  have "ip_to_str ip = ?pre @ ?a 0" unfolding ip_to_str_def octet_masks by simp
  then have "str_to_ip (ip_to_str ip) = str_to_ip_loop (?pre @ ?a 0) (length ?pre) 3
      (push_bit 24 (octet ip 3) OR push_bit 16 (octet ip 2) OR push_bit 8 (octet ip 1))"
    unfolding str_to_ip_def using three_segments [of ip "?a 0"] by simp
  also have "\<dots> = Inr ip"
    by (subst str_to_ip_loop_last [OF octet_less refl]) (simp only: or.assoc octets_join)
  finally show ?thesis .
qed

section \<open>Address lists\<close>

lemma ip_to_str_chars: "c \<in> set (ip_to_str ip) \<Longrightarrow> is_digit c \<or> c = CHR ''.''"
  by (auto simp: ip_to_str_def dest: to_string_digits)

lemma ip_to_str_no_comma: "CHR '','' \<notin> set (ip_to_str ip)"
  using ip_to_str_chars is_digit_not by fastforce

lemma ip_to_str_nonempty [simp]: "ip_to_str ip \<noteq> []"
  by (simp add: ip_to_str_def)

lemma concat_trailing_sep:
  "xs \<noteq> [] \<Longrightarrow> concat (map (\<lambda>x. f x @ d) xs) = sep_join d (map f xs) @ d"
proof (induction xs)
  case Nil
  then show ?case by simp
next
  case (Cons x xs)
  then show ?case by (cases xs) auto
qed

lemma ips_to_str_sep_join: "ips_to_str ips = sep_join '','' (map ip_to_str ips)"
proof -
  have "foldl (\<lambda>ipStr ip. ipStr @ ip_to_str ip @ '','') acc ips
      = acc @ concat (map (\<lambda>ip. ip_to_str ip @ '','') ips)" for acc
    by (induction ips arbitrary: acc) auto
  then show ?thesis
    by (cases "ips = []") (simp_all add: ips_to_str_def substr_def Let_def concat_trailing_sep)
qed

lemma str_to_ips_loop_ip_to_str:
  assumes "\<And>ip. str_to_ip (ip_to_str ip) = Inr ip"
  shows "str_to_ips_loop (map ip_to_str ips) acc = Inr (acc @ filter (\<lambda>ip. 0 < ip) ips)"
  by (induction ips arbitrary: acc) (auto simp: assms)

section \<open>Properties\<close>

text \<open>
  Every address survives printing and parsing: \<open>str_to_ip\<close> of the dotted text of \<open>ip\<close> is
  \<open>ip\<close> again, for all \<open>2 ^ 32\<close> addresses and without an exception.
\<close>

theorem str_to_ip_ip_to_str: "str_to_ip (ip_to_str ip) = Inr ip"
  by (rule dotted_roundtrip)

text \<open>
  A list of addresses survives \<open>ips_to_str\<close> and \<open>str_to_ips\<close>, apart from the address
  \<open>0.0.0.0\<close>, which \<open>str_to_ips\<close> drops because 0 is its mark for a rejected text.
\<close>

theorem str_to_ips_ips_to_str:
  "str_to_ips (ips_to_str ips) = Some (Inr (filter (\<lambda>ip. ip \<noteq> 0) ips))"
proof -
  have rt: "str_to_ip (ip_to_str ip) = Inr ip" for ip
    by (rule dotted_roundtrip)
  have "split (sep_join '','' (map ip_to_str ips)) '','' = Some (map ip_to_str ips)"
  proof (cases "ips = []")
    case True
    then show ?thesis by (simp add: split_def split_from_def)
  next
    case False
    then have "sep_join '','' (map ip_to_str ips) \<noteq> []"
      by (cases ips; cases "tl ips") auto
    then show ?thesis
      using False split_on_sep_join [of "map ip_to_str ips" "CHR '',''"]
      by (simp add: split_nonempty ip_to_str_no_comma)
  qed
  then show ?thesis
    by (simp add: str_to_ips_def ips_to_str_sep_join str_to_ips_loop_ip_to_str rt word_neq_0_conv)
qed

text \<open>
  \<open>str_to_ip\<close> does not reject a truncated address: three octets and a trailing dot are read
  as an address whose last octet is 0, although every other malformed text gives 0.
\<close>

theorem str_to_ip_trailing_dot:
  "str_to_ip (to_string (unat (octet ip 3)) @ ''.'' @ to_string (unat (octet ip 2)) @ ''.'' @
     to_string (unat (octet ip 1)) @ ''.'')
   = Inr (push_bit 24 (octet ip 3) OR push_bit 16 (octet ip 2) OR push_bit 8 (octet ip 1))"
  (is "str_to_ip ?s = _")
proof -
  have "str_to_ip ?s = str_to_ip_loop ?s (length ?s) 3
      (push_bit 24 (octet ip 3) OR push_bit 16 (octet ip 2) OR push_bit 8 (octet ip 1))"
    using three_segments [of ip "[]"] by (simp add: str_to_ip_def)
  also have "\<dots> = Inr (push_bit 24 (octet ip 3) OR push_bit 16 (octet ip 2) OR push_bit 8 (octet ip 1))"
    by (subst str_to_ip_loop.simps) simp
  finally show ?thesis .
qed

end
