(* ===== verification/Bytes.thy ===== *)
theory Bytes
  imports St_Prelude
begin

unbundle bit_operations_syntax

text \<open>
  The byte helpers of \<open>src/common/main/utils/byte.h\<close>: big-endian integers on a buffer
  (\<open>read\<close>, \<open>write\<close>, \<open>to_bytes\<close>), the byte-by-byte \<open>copy\<close> templates and \<open>join\<close>. The templates
  are used at \<open>uint16_t\<close> and \<open>uint32_t\<close>; the model keeps the width as a type parameter.
\<close>

section \<open>Model\<close>

text \<open>
  \<open>read\<close> adds to what the target already holds (\<open>result |= valFinal\<close>), so the old value is an
  argument. The loop counts the bytes still to come: \<open>k = len - i - 1\<close> at each step.
\<close>

fun read_loop :: "buffer \<Rightarrow> nat \<Rightarrow> nat \<Rightarrow> 'a::len word \<Rightarrow> 'a word option" where
  "read_loop buf p 0 result = Some result"
| "read_loop buf p (Suc k) result = do {
     val \<leftarrow> rd buf p;
     let valFinal = push_bit (k * 8) (ucast val :: u32);
     read_loop buf (Suc p) k (result OR ucast valFinal) }"

definition read_int :: "buffer \<Rightarrow> nat \<Rightarrow> 'a::len word \<Rightarrow> 'a word option" where
  "read_int buf p result = read_loop buf p (LENGTH('a) div 8) result"

fun write_loop :: "buffer \<Rightarrow> nat \<Rightarrow> nat \<Rightarrow> 'a::len word \<Rightarrow> buffer option" where
  "write_loop buf p 0 result = Some buf"
| "write_loop buf p (Suc k) result = do {
     buf' \<leftarrow> wr buf p (ucast (drop_bit (k * 8) (push_bit (k * 8) 255 AND result)));
     write_loop buf' (Suc p) k result }"

text \<open>\<open>write\<close> returns the advanced pointer with the buffer.\<close>

definition write_int :: "buffer \<Rightarrow> nat \<Rightarrow> 'a::len word \<Rightarrow> (buffer \<times> nat) option" where
  "write_int buf p result = do {
     buf' \<leftarrow> write_loop buf p (LENGTH('a) div 8) result;
     Some (buf', p + LENGTH('a) div 8) }"

fun to_bytes_loop :: "nat \<Rightarrow> 'a::len word \<Rightarrow> u8 list" where
  "to_bytes_loop 0 num = []"
| "to_bytes_loop (Suc k) num =
     ucast (drop_bit (k * 8) ((ucast num :: u64) AND push_bit (k * 8) 255)) # to_bytes_loop k num"

definition to_bytes :: "'a::len word \<Rightarrow> u8 list" where
  "to_bytes num = to_bytes_loop (LENGTH('a) div 8) num"

text \<open>\<open>copy\<close> inside one allocation goes byte by byte, so overlapping ranges see earlier writes.\<close>

fun copy_within :: "buffer \<Rightarrow> nat \<Rightarrow> nat \<Rightarrow> nat \<Rightarrow> buffer option" where
  "copy_within buf src dst 0 = Some buf"
| "copy_within buf src dst (Suc n) = do {
     b \<leftarrow> rd buf src;
     buf' \<leftarrow> wr buf dst b;
     copy_within buf' (Suc src) (Suc dst) n }"

text \<open>\<open>copy\<close> between two allocations, with the index arguments of the five-argument template.\<close>

fun copy_between :: "buffer \<Rightarrow> nat \<Rightarrow> buffer \<Rightarrow> nat \<Rightarrow> nat \<Rightarrow> buffer option" where
  "copy_between src sp dst dp 0 = Some dst"
| "copy_between src sp dst dp (Suc n) = do {
     b \<leftarrow> rd src sp;
     dst' \<leftarrow> wr dst dp b;
     copy_between src (Suc sp) dst' (Suc dp) n }"

section \<open>Big-endian layout\<close>

text \<open>\<open>be_bytes k w\<close>: the low \<open>k\<close> bytes of \<open>w\<close>, most significant first.\<close>

fun be_bytes :: "nat \<Rightarrow> 'a::len word \<Rightarrow> u8 list" where
  "be_bytes 0 w = []"
| "be_bytes (Suc k) w = ucast (drop_bit (k * 8) w) # be_bytes k w"

abbreviation int_bytes :: "'a::len word \<Rightarrow> u8 list" where
  "int_bytes w \<equiv> be_bytes (LENGTH('a) div 8) w"

lemma length_be_bytes [simp]: "length (be_bytes k w) = k"
  by (induction k) auto

lemma masked_byte:
  fixes w :: "'a::len word"
  assumes "8 + n \<le> LENGTH('a)"
  shows "ucast (drop_bit n (push_bit n 255 AND w)) = (ucast (drop_bit n w) :: u8)"
proof (rule bit_word_eqI)
  fix i assume i: "i < LENGTH(8)"
  have ff: "(255 :: 'a word) = mask 8" by (simp add: mask_eq_exp_minus_1)
  show "bit (ucast (drop_bit n (push_bit n 255 AND w)) :: u8) i
      = bit (ucast (drop_bit n w) :: u8) i"
    unfolding ff using i assms by (auto simp: bit_simps)
qed

lemma write_loop_be_bytes:
  fixes w :: "'a::len word"
  assumes "k * 8 \<le> LENGTH('a)"
  shows "write_loop buf p k w = wr_n buf p (be_bytes k w)"
  using assms by (induction k arbitrary: buf p) (simp_all add: masked_byte del: drop_bit_and)

lemma to_bytes_loop_be_bytes:
  fixes w :: "'a::len word"
  assumes "k * 8 \<le> LENGTH('a)" and "LENGTH('a) \<le> 64"
  shows "to_bytes_loop k w = be_bytes k w"
  using assms
proof (induction k)
  case 0
  then show ?case by simp
next
  case (Suc k)
  have "ucast (drop_bit (k * 8) ((ucast w :: u64) AND push_bit (k * 8) 255))
      = (ucast (drop_bit (k * 8) (ucast w :: u64)) :: u8)"
    using masked_byte [of "k * 8" "ucast w :: u64"] Suc.prems by (simp add: and.commute)
  also have "\<dots> = ucast (drop_bit (k * 8) w)"
    by (rule bit_word_eqI) (use Suc.prems in \<open>auto simp: bit_simps\<close>)
  finally show ?case using Suc by simp
qed

lemma take_bit_byte_step:
  fixes w :: "'a::len word"
  assumes "8 + n \<le> 32"
  shows "ucast (push_bit n (ucast (ucast (drop_bit n w) :: u8) :: u32)) OR take_bit n w
       = take_bit (8 + n) w"
  by (rule bit_word_eqI) (use assms in \<open>auto simp: bit_simps\<close>)

lemma read_loop_be_bytes:
  fixes w :: "'a::len word"
  assumes "k * 8 \<le> 32" and "bytes_at buf p (be_bytes k w)"
  shows "read_loop buf p k r = Some (r OR take_bit (k * 8) w)"
  using assms
proof (induction k arbitrary: p r)
  case 0
  then show ?case by simp
next
  case (Suc k)
  from Suc.prems have "read_loop buf (Suc p) k r' = Some (r' OR take_bit (k * 8) w)" for r'
    by (intro Suc.IH) (simp_all add: mem_simps)
  with Suc.prems show ?case
    by (simp add: mem_simps Let_def or.assoc take_bit_byte_step)
qed

lemma read_loop_in_bounds: "p + k \<le> length buf \<Longrightarrow> \<exists>w. read_loop buf p k r = Some w"
  by (induction k arbitrary: p r) (auto simp: rd_def Let_def)

lemma read_loop_out_of_bounds:
  "0 < k \<Longrightarrow> length buf < p + k \<Longrightarrow> read_loop buf p k r = None"
proof (induction k arbitrary: p r)
  case 0
  then show ?case by simp
next
  case (Suc k)
  then show ?case by (cases "k = 0") (auto simp: rd_def Let_def)
qed

section \<open>The codec interface\<close>

text \<open>
  What the message layer relies on: a fixed-width encoding that decodes to the encoded value
  wherever it stands in a buffer, and a decoder that fails only outside the buffer.
\<close>

locale wire_codec =
  fixes enc :: "'a \<Rightarrow> u8 list" and dec :: "buffer \<Rightarrow> nat \<Rightarrow> 'a option" and width :: nat
  assumes enc_length: "length (enc x) = width"
    and dec_enc: "bytes_at buf p (enc x) \<Longrightarrow> dec buf p = Some x"
    and dec_total: "p + width \<le> length buf \<Longrightarrow> \<exists>x. dec buf p = Some x"
    and dec_fails: "length buf < p + width \<Longrightarrow> dec buf p = None"
begin

lemma enc_inj: "enc x = enc y \<Longrightarrow> x = y"
  using dec_enc [of "enc x" 0 x] dec_enc [of "enc x" 0 y] by (simp add: bytes_at_def)

lemma dec_Some_bound: "dec buf p = Some x \<Longrightarrow> p + width \<le> length buf"
  using dec_fails [of buf p] by fastforce

lemma length_concat_enc: "length (concat (map enc xs)) = width * length xs"
  by (induction xs) (auto simp: enc_length)

lemma dec_nth_concat:
  assumes "bytes_at buf p (concat (map enc xs))" and "i < length xs"
  shows "dec buf (p + i * width) = Some (xs ! i)"
  using assms
proof (induction xs arbitrary: p i)
  case Nil
  then show ?case by simp
next
  case (Cons x xs)
  then show ?case
    by (cases i) (auto simp: mem_simps enc_length dec_enc add.assoc [symmetric])
qed

end

interpretation u16_wire: wire_codec "int_bytes :: u16 \<Rightarrow> u8 list" "\<lambda>buf p. read_int buf p (0 :: u16)" 2
proof
  fix buf p and x :: u16
  show "length (int_bytes x) = 2" by simp
  show "bytes_at buf p (int_bytes x) \<Longrightarrow> read_int buf p (0 :: u16) = Some x"
    using read_loop_be_bytes [of 2 buf p x 0] by (simp add: read_int_def take_bit_word_eq_self)
  show "p + 2 \<le> length buf \<Longrightarrow> \<exists>x. read_int buf p (0 :: u16) = Some x"
    using read_loop_in_bounds [of p 2 buf "0 :: u16"] by (simp add: read_int_def)
  show "length buf < p + 2 \<Longrightarrow> read_int buf p (0 :: u16) = None"
    using read_loop_out_of_bounds [of 2 buf p "0 :: u16"] by (simp add: read_int_def)
qed

interpretation u32_wire: wire_codec "int_bytes :: u32 \<Rightarrow> u8 list" "\<lambda>buf p. read_int buf p (0 :: u32)" 4
proof
  fix buf p and x :: u32
  show "length (int_bytes x) = 4" by simp
  show "bytes_at buf p (int_bytes x) \<Longrightarrow> read_int buf p (0 :: u32) = Some x"
    using read_loop_be_bytes [of 4 buf p x 0] by (simp add: read_int_def take_bit_word_eq_self)
  show "p + 4 \<le> length buf \<Longrightarrow> \<exists>x. read_int buf p (0 :: u32) = Some x"
    using read_loop_in_bounds [of p 4 buf "0 :: u32"] by (simp add: read_int_def)
  show "length buf < p + 4 \<Longrightarrow> read_int buf p (0 :: u32) = None"
    using read_loop_out_of_bounds [of 4 buf p "0 :: u32"] by (simp add: read_int_def)
qed

lemma write_u16: "write_int buf p (w :: u16) = do { buf' \<leftarrow> wr_n buf p (int_bytes w); Some (buf', p + 2) }"
  by (simp add: write_int_def write_loop_be_bytes)

lemma write_u32: "write_int buf p (w :: u32) = do { buf' \<leftarrow> wr_n buf p (int_bytes w); Some (buf', p + 4) }"
  by (simp add: write_int_def write_loop_be_bytes)

section \<open>Copying\<close>

lemma copy_between_bytes_at:
  "bytes_at src sp bs \<Longrightarrow> copy_between src sp dst dp (length bs) = wr_n dst dp bs"
  by (induction bs arbitrary: sp dst dp) (auto simp: mem_simps)

lemma copy_within_bytes_at:
  assumes "bytes_at buf src bs" and "src + length bs \<le> dst"
  shows "copy_within buf src dst (length bs) = wr_n buf dst bs"
  using assms
proof (induction bs arbitrary: buf src dst)
  case Nil
  then show ?case by simp
next
  case (Cons b bs)
  have step: "copy_within buf' (Suc src) (Suc dst) (length bs) = wr_n buf' (Suc dst) bs"
    if "wr buf dst b = Some buf'" for buf'
  proof (rule Cons.IH)
    have "wr_n buf dst [b] = Some buf'" using that by simp
    then show "bytes_at buf' (Suc src) bs"
      using Cons.prems by (elim wr_n_frame) (auto simp: mem_simps)
    show "Suc src + length bs \<le> Suc dst" using Cons.prems by simp
  qed
  then have "(wr buf dst b \<bind> (\<lambda>buf'. copy_within buf' (Suc src) (Suc dst) (length bs)))
      = (wr buf dst b \<bind> (\<lambda>buf'. wr_n buf' (Suc dst) bs))"
    by (cases "wr buf dst b") simp_all
  with Cons.prems show ?case by (simp add: mem_simps)
qed

end
