(* ===== verification/Dns_Domain.thy ===== *)
theory Dns_Domain
  imports Bytes Str_Utils
begin

unbundle bit_operations_syntax

text \<open>
  \<open>dns_domain\<close> of \<open>src/core/protocol/dns_message.h\<close> and \<open>dns_message.cpp\<close>: writing a host name as
  labels, and the recursive label parser \<open>parseRe\<close> with its compression pointers. Both work on
  raw pointers. The parser trusts the offsets of the message, so its model returns \<open>None\<close> when
  an access leaves the buffer.
\<close>

section \<open>Model\<close>

record dns_domain =
  d_data :: nat
  d_len :: nat
  d_valid :: bool
  domain :: string

subsection \<open>Writing a name\<close>

text \<open>
  The label boundaries are pairs of \<open>unsigned char\<close>: first and last index of a label, the last
  one computed as \<open>i - 1\<close> and truncated to eight bits.
\<close>

fun sub_lens :: "string \<Rightarrow> nat \<Rightarrow> nat \<Rightarrow> nat \<Rightarrow> (u8 \<times> u8) list \<Rightarrow> (u8 \<times> u8) list \<times> nat" where
  "sub_lens [] i lastBegin tot subLens =
     (subLens @ [(word_of_nat lastBegin, word_of_int (int i - 1))], tot)"
| "sub_lens (ch # cs) i lastBegin tot subLens =
     (if ch = CHR ''.''
      then sub_lens cs (Suc i) (Suc i) tot (subLens @ [(word_of_nat lastBegin, word_of_int (int i - 1))])
      else sub_lens cs (Suc i) lastBegin (Suc tot) subLens)"

text \<open>\<open>hostChar[j]\<close>: the characters of the string, then its terminating NUL, then nothing.\<close>

definition host_char :: "string \<Rightarrow> nat \<Rightarrow> char option" where
  "host_char host j = (if j < length host then Some (host ! j)
                       else if j = length host then Some (CHR 0x00) else None)"

fun emit_chars :: "string \<Rightarrow> nat list \<Rightarrow> buffer \<Rightarrow> nat \<Rightarrow> (buffer \<times> nat) option" where
  "emit_chars host [] buf p = Some (buf, p)"
| "emit_chars host (j # js) buf p = do {
     c \<leftarrow> host_char host j;
     buf' \<leftarrow> wr buf p (byte_of c);
     emit_chars host js buf' (Suc p) }"

fun emit_labels :: "string \<Rightarrow> (u8 \<times> u8) list \<Rightarrow> buffer \<Rightarrow> nat \<Rightarrow> (buffer \<times> nat) option" where
  "emit_labels host [] buf p = Some (buf, p)"
| "emit_labels host ((first, second) # subLens) buf p = do {
     let len = int (unat second) - int (unat first) + 1;
     buf1 \<leftarrow> wr buf p (word_of_int len);
     (buf2, q) \<leftarrow> emit_chars host [unat first ..< Suc (unat second)] buf1 (Suc p);
     emit_labels host subLens buf2 q }"

definition dns_domain_generate :: "buffer \<Rightarrow> nat \<Rightarrow> string \<Rightarrow> (buffer \<times> dns_domain) option" where
  "dns_domain_generate buf data host = do {
     let (subLens, tot) = sub_lens (c_str host) 0 0 0 [];
     let finalDataLen = length subLens + tot + 1;
     (buf1, q) \<leftarrow> emit_labels host subLens buf data;
     buf2 \<leftarrow> wr buf1 q 0;
     Some (buf2, \<lparr>d_data = data, d_len = finalDataLen, d_valid = True, domain = host\<rparr>) }"

subsection \<open>Parsing a name\<close>

definition max_depth :: nat where
  "max_depth = 20"

text \<open>The offset of a compression pointer, collected into a \<open>uint16_t\<close>.\<close>

definition ptr_pos :: "u8 \<Rightarrow> u8 \<Rightarrow> nat" where
  "ptr_pos high low = unat (push_bit 8 (ucast (high AND 0x3F)) OR ucast low :: u16)"

text \<open>
  The loop of \<open>parseRe\<close>. \<open>p\<close> is the pointer \<open>allData\<close>; the name starts at \<open>begin\<close> and the loop
  has consumed \<open>actualLen\<close> bytes. The result is the return value and the \<open>domain\<close> reference.
  The recursive call of the source first tests \<open>depth > 20\<close>; the test stands at the call here.
\<close>

function parseRe_loop ::
  "buffer \<Rightarrow> nat \<Rightarrow> nat \<Rightarrow> nat \<Rightarrow> nat \<Rightarrow> nat \<Rightarrow> string \<Rightarrow> nat \<Rightarrow> (nat \<times> string) option" where
  "parseRe_loop buf p allDataSize begin maxParse actualLen dn depth =
     (if actualLen < maxParse then do {
        frameLen \<leftarrow> rd buf (p + begin + actualLen);
        if frameLen AND 0xC0 = 0xC0 then do {
          low \<leftarrow> rd buf (p + begin + actualLen + 1);
          let pos = ptr_pos frameLen low;
          let actualLen' = actualLen + 2;
          if pos \<noteq> begin then do {
            (consume, domainRe) \<leftarrow>
              (if max_depth < depth + 1 then Some (0, [])
               else parseRe_loop buf p allDataSize pos (minus_u64 allDataSize pos) 0 [] (depth + 1));
            if consume \<noteq> 0 then
              (if dn \<noteq> []
               then parseRe_loop buf p allDataSize begin maxParse actualLen' (dn @ ''.'' @ domainRe) depth
               else Some (actualLen', domainRe))
            else Some (0, dn) }
          else Some (actualLen', dn) }
        else if frameLen AND 0xC0 = 0 then
          (if frameLen = 0 then Some (actualLen + 1, dn)
           else if maxParse - (actualLen + 1) < unat frameLen then Some (0, dn)
           else do {
             bs \<leftarrow> rd_n buf (p + begin + actualLen + 1) (unat frameLen);
             let domainStr = c_str (map char_of_byte bs);
             parseRe_loop buf p allDataSize begin maxParse (actualLen + 1 + unat frameLen)
               ((if dn \<noteq> [] then dn @ ''.'' else dn) @ domainStr) depth })
        else Some (actualLen, dn) }
      else Some (actualLen, dn))"
  by pat_completeness auto
termination
  by (relation "measures [\<lambda>(buf, p, sz, b, mp, al, dn, d). max_depth - d,
                          \<lambda>(buf, p, sz, b, mp, al, dn, d). length buf - (p + b + al)]")
     (auto simp: rd_def max_depth_def split: if_splits)

declare parseRe_loop.simps [simp del]

definition parseRe :: "buffer \<Rightarrow> nat \<Rightarrow> nat \<Rightarrow> nat \<Rightarrow> nat \<Rightarrow> string \<Rightarrow> nat \<Rightarrow> (nat \<times> string) option" where
  "parseRe buf p allDataSize begin maxParse dn depth =
     (if max_depth < depth then Some (0, dn)
      else parseRe_loop buf p allDataSize begin maxParse 0 dn depth)"

definition dns_domain_parse :: "buffer \<Rightarrow> nat \<Rightarrow> nat \<Rightarrow> nat \<Rightarrow> nat \<Rightarrow> (nat \<times> string) option" where
  "dns_domain_parse buf p allDataSize begin maxParse = parseRe buf p allDataSize begin maxParse [] 0"

text \<open>The constructors that parse: the object points at \<open>p + begin\<close> and is invalid on length 0.\<close>

definition dns_domain_at :: "buffer \<Rightarrow> nat \<Rightarrow> nat \<Rightarrow> nat \<Rightarrow> nat \<Rightarrow> dns_domain option" where
  "dns_domain_at buf p dataSize begin maxParse = do {
     (actualLen, dn) \<leftarrow> dns_domain_parse buf p dataSize begin maxParse;
     Some \<lparr>d_data = p + begin, d_len = actualLen, d_valid = (actualLen \<noteq> 0), domain = dn\<rparr> }"

definition dns_domain_new :: "buffer \<Rightarrow> nat \<Rightarrow> nat \<Rightarrow> nat \<Rightarrow> dns_domain option" where
  "dns_domain_new buf p dataSize begin = dns_domain_at buf p dataSize begin (minus_u64 dataSize begin)"

subsection \<open>Top-level domains\<close>

definition getFIDomain :: "string \<Rightarrow> string" where
  "getFIDomain dn = (case find_last_of dn (CHR ''.'') of
     None \<Rightarrow> []
   | Some pos \<Rightarrow> map to_upper (substr dn (Suc pos) None))"

definition removeFIDomain :: "string \<Rightarrow> string" where
  "removeFIDomain dn = (case find_last_of dn (CHR ''.'') of
     None \<Rightarrow> dn
   | Some pos \<Rightarrow> substr dn 0 (Some pos))"

section \<open>The wire form of a name\<close>

definition label_bytes :: "string \<Rightarrow> u8 list" where
  "label_bytes l = word_of_nat (length l) # map byte_of l"

definition name_bytes :: "string list \<Rightarrow> u8 list" where
  "name_bytes ls = concat (map label_bytes ls) @ [0]"

text \<open>Labels that the wire form can carry, and the host names made of them.\<close>

definition wf_label :: "string \<Rightarrow> bool" where
  "wf_label l \<longleftrightarrow> l \<noteq> [] \<and> length l < 64 \<and> CHR 0x00 \<notin> set l"

definition wf_host :: "string \<Rightarrow> bool" where
  "wf_host host \<longleftrightarrow> length host < 256 \<and> (\<forall>l \<in> set (split_on (CHR ''.'') host). wf_label l)"

lemma length_label_bytes [simp]: "length (label_bytes l) = Suc (length l)"
  by (simp add: label_bytes_def)

lemma length_name_bytes_pos [simp]: "0 < length (name_bytes ls)"
  by (simp add: name_bytes_def)

lemma name_bytes_Cons: "name_bytes (l # ls) = label_bytes l @ name_bytes ls"
  by (simp add: name_bytes_def)

lemma name_bytes_Nil: "name_bytes [] = [0]"
  by (simp add: name_bytes_def)

lemma length_concat_label_bytes:
  "length (concat (map label_bytes ls)) = length ls + length (concat ls)"
  by (induction ls) auto

lemma length_concat_split_on: "length (concat (split_on c s)) = length (filter (\<lambda>x. x \<noteq> c) s)"
  by (induction s) (auto split: list.splits)

lemma length_split_on_filter: "length (split_on c s) + length (filter (\<lambda>x. x \<noteq> c) s) = Suc (length s)"
  by (induction s) (auto split: list.splits)

lemma length_name_bytes_host: "length (name_bytes (split_on (CHR ''.'') host)) = length host + 2"
  using length_split_on_filter [of "CHR ''.''" host]
  by (simp add: name_bytes_def length_concat_label_bytes length_concat_split_on)

lemma wf_host_no_nul: "wf_host host \<Longrightarrow> CHR 0x00 \<notin> set host"
proof -
  assume "wf_host host"
  then have "CHR 0x00 \<notin> set (concat (split_on (CHR ''.'') host))"
    by (auto simp: wf_host_def wf_label_def)
  moreover have "set (sep_join d xs) \<subseteq> set d \<union> set (concat xs)" for d xs
    by (induction d xs rule: sep_join.induct) auto
  from this [of "''.''" "split_on (CHR ''.'') host"]
  have "set host \<subseteq> insert (CHR ''.'') (set (concat (split_on (CHR ''.'') host)))"
    by (simp add: sep_join_split_on)
  ultimately show ?thesis by auto
qed

lemma hd_split_on_Nil: "hd (split_on c s) = [] \<longleftrightarrow> s = [] \<or> hd s = c"
  by (cases s) (auto split: list.splits)

lemma wf_host_first: "wf_host host \<Longrightarrow> host \<noteq> [] \<and> hd host \<noteq> CHR ''.''"
  using hd_split_on_Nil [of "CHR ''.''" host] hd_in_set [OF split_on_nonempty, of "CHR ''.''" host]
  by (auto simp: wf_host_def wf_label_def)

section \<open>Writing is correct\<close>

fun label_bounds :: "nat \<Rightarrow> string list \<Rightarrow> (u8 \<times> u8) list" where
  "label_bounds b [] = []"
| "label_bounds b (l # ls) =
     (word_of_nat b, word_of_int (int (b + length l) - 1)) # label_bounds (b + length l + 1) ls"

lemma sub_lens_partial:
  "sub_lens s (b + length k) b tot acc =
     (let ls = split_on (CHR ''.'') s
      in (acc @ label_bounds b ((k @ hd ls) # tl ls), tot + length (filter (\<lambda>c. c \<noteq> CHR ''.'') s)))"
proof (induction s arbitrary: b k tot acc)
  case Nil
  then show ?case by simp
next
  case (Cons c s)
  show ?case
  proof (cases "c = CHR ''.''")
    case True
    then show ?thesis
      using Cons.IH [of "Suc (b + length k)" "[]"]
      by (cases "split_on (CHR ''.'') s") (auto simp: Let_def)
  next
    case False
    then show ?thesis
      using Cons.IH [of b "k @ [c]"]
      by (cases "split_on (CHR ''.'') s") (auto simp: Let_def)
  qed
qed

lemma sub_lens_split_on:
  "sub_lens s 0 0 0 [] =
     (label_bounds 0 (split_on (CHR ''.'') s), length (filter (\<lambda>c. c \<noteq> CHR ''.'') s))"
  using sub_lens_partial [of s 0 "[]" 0 "[]"] by (simp add: Let_def del: label_bounds.simps)

lemma emit_chars_upt:
  assumes "b + n \<le> length host"
  shows "emit_chars host [b ..< b + n] buf p =
           do { buf' \<leftarrow> wr_n buf p (map byte_of (take n (drop b host))); Some (buf', p + n) }"
  using assms
proof (induction n arbitrary: b buf p)
  case 0
  then show ?case by simp
next
  case (Suc n)
  have "[b ..< b + Suc n] = b # [Suc b ..< Suc b + n]" by (simp add: upt_conv_Cons del: upt_Suc)
  moreover have "take (Suc n) (drop b host) = host ! b # take n (drop (Suc b) host)"
    using Suc.prems by (simp add: Cons_nth_drop_Suc [symmetric])
  moreover have "host_char host b = Some (host ! b)"
    using Suc.prems by (simp add: host_char_def)
  ultimately show ?case
    using Suc.prems Suc.IH [of "Suc b"] by (simp del: upt_Suc)
qed

lemma emit_labels_sep_join:
  assumes "drop b host = sep_join ''.'' ls" and "ls \<noteq> []" and "length host < 256"
    and "b \<le> length host" and "0 < b \<or> hd ls \<noteq> []"
  shows "emit_labels host (label_bounds b ls) buf p =
           do { buf' \<leftarrow> wr_n buf p (concat (map label_bytes ls));
                Some (buf', p + length (concat (map label_bytes ls))) }"
  using assms
proof (induction ls arbitrary: b buf p)
  case Nil
  then show ?case by simp
next
  case (Cons l ls)
  let ?n = "length l"
  have drop_b: "drop b host = l @ (if ls = [] then [] else CHR ''.'' # sep_join ''.'' ls)"
    using Cons.prems(1) by (simp add: sep_join_Cons)
  then have l: "take ?n (drop b host) = l" by simp
  have "length (drop b host) = length l + (if ls = [] then 0 else Suc (length (sep_join ''.'' ls)))"
    using drop_b by simp
  then have bound: "b + ?n \<le> length host" and nxt: "ls \<noteq> [] \<Longrightarrow> b + ?n + 1 \<le> length host"
    using Cons.prems(4) by (auto split: if_splits)
  have pos: "0 < b + ?n" using Cons.prems(5) by auto
  have first: "unat (word_of_nat b :: u8) = b"
    using Cons.prems(3,4) by (simp add: unat_of_nat)
  have "int (b + ?n) - 1 = int (b + ?n - 1)" using pos by linarith
  then have "(word_of_int (int (b + ?n) - 1) :: u8) = word_of_nat (b + ?n - 1)" by (simp only: of_int_of_nat_eq)
  then have second: "unat (word_of_int (int (b + ?n) - 1) :: u8) = b + ?n - 1"
    using bound Cons.prems(3) by (simp add: unat_of_nat)
  have idx: "[b ..< Suc (b + ?n - 1)] = [b ..< b + ?n]" using pos by simp
  have len: "int (b + ?n - 1) - int b + 1 = int ?n" using pos by linarith
  have rest: "emit_labels host (label_bounds (b + ?n + 1) ls) buf' q =
      do { buf'' \<leftarrow> wr_n buf' q (concat (map label_bytes ls));
           Some (buf'', q + length (concat (map label_bytes ls))) }" for buf' q
  proof (cases "ls = []")
    case True
    then show ?thesis by simp
  next
    case False
    have "drop (b + ?n + 1) host = drop (?n + 1) (drop b host)" by (simp add: add.commute add.left_commute)
    then have "drop (b + ?n + 1) host = sep_join ''.'' ls"
      using drop_b False by simp
    then show ?thesis
      using False nxt Cons.prems(3) by (intro Cons.IH) simp_all
  qed
  have "emit_labels host (label_bounds b (l # ls)) buf p =
      do { buf1 \<leftarrow> wr buf p (word_of_nat ?n);
           (buf2, q) \<leftarrow> emit_chars host [b ..< b + ?n] buf1 (Suc p);
           emit_labels host (label_bounds (b + ?n + 1) ls) buf2 q }"
    by (simp only: label_bounds.simps emit_labels.simps first second Let_def idx len of_int_of_nat_eq)
  also have "\<dots> = do { buf1 \<leftarrow> wr buf p (word_of_nat ?n);
           buf2 \<leftarrow> wr_n buf1 (Suc p) (map byte_of l);
           buf3 \<leftarrow> wr_n buf2 (Suc p + ?n) (concat (map label_bytes ls));
           Some (buf3, Suc p + ?n + length (concat (map label_bytes ls))) }"
    using rest by (simp add: emit_chars_upt bound l del: upt_Suc)
  finally show ?case
    by (simp add: label_bytes_def [of l] wr_n_append add.assoc)
qed

lemma dns_domain_generate_correct:
  assumes "host \<noteq> []" and "hd host \<noteq> CHR ''.''" and "CHR 0x00 \<notin> set host" and "length host < 256"
  defines "bs \<equiv> name_bytes (split_on (CHR ''.'') host)"
  shows "dns_domain_generate buf p host =
           do { buf' \<leftarrow> wr_n buf p bs;
                Some (buf', \<lparr>d_data = p, d_len = length bs, d_valid = True, domain = host\<rparr>) }"
proof -
  let ?ls = "split_on (CHR ''.'') host"
  have emit: "emit_labels host (label_bounds 0 ?ls) buf p =
      do { buf' \<leftarrow> wr_n buf p (concat (map label_bytes ?ls));
           Some (buf', p + length (concat (map label_bytes ?ls))) }"
    by (rule emit_labels_sep_join) (use assms in \<open>simp_all add: sep_join_split_on hd_split_on_Nil\<close>)
  have len: "length (label_bounds b ls) = length ls" for b ls
    by (induction ls arbitrary: b) auto
  have "length (label_bounds 0 ?ls) + length (filter (\<lambda>c. c \<noteq> CHR ''.'') host) + 1 = length bs"
    by (simp add: len bs_def name_bytes_def length_concat_label_bytes length_concat_split_on)
  then show ?thesis
    using assms by (auto simp: dns_domain_generate_def c_str_id sub_lens_split_on emit bs_def
        name_bytes_def wr_n_append Let_def split: Option.bind_splits)
qed

section \<open>Parsing\<close>

lemma parseRe_loop_unfold:
  "parseRe_loop buf p sz b mp al dn d =
     (if al < mp then do {
        frameLen \<leftarrow> rd buf (p + b + al);
        if frameLen AND 0xC0 = 0xC0 then do {
          low \<leftarrow> rd buf (p + b + al + 1);
          if ptr_pos frameLen low \<noteq> b then do {
            (consume, domainRe) \<leftarrow>
              parseRe buf p sz (ptr_pos frameLen low) (minus_u64 sz (ptr_pos frameLen low)) [] (d + 1);
            if consume \<noteq> 0 then
              (if dn \<noteq> [] then parseRe_loop buf p sz b mp (al + 2) (dn @ ''.'' @ domainRe) d
               else Some (al + 2, domainRe))
            else Some (0, dn) }
          else Some (al + 2, dn) }
        else if frameLen AND 0xC0 = 0 then
          (if frameLen = 0 then Some (al + 1, dn)
           else if mp - (al + 1) < unat frameLen then Some (0, dn)
           else do {
             bs \<leftarrow> rd_n buf (p + b + al + 1) (unat frameLen);
             parseRe_loop buf p sz b mp (al + 1 + unat frameLen)
               ((if dn \<noteq> [] then dn @ ''.'' else dn) @ c_str (map char_of_byte bs)) d })
        else Some (al, dn) }
      else Some (al, dn))"
  by (subst parseRe_loop.simps) (simp add: parseRe_def Let_def cong: if_cong)

lemma label_length_byte:
  assumes "n < 64"
  shows "(word_of_nat n :: u8) AND 0xC0 = 0" and "unat (word_of_nat n :: u8) = n"
proof -
  have "\<not> bit n i" if "6 \<le> i" for i
  proof -
    have "n < 2 ^ i" using assms that power_increasing [of 6 i "2 :: nat"] by simp
    then show ?thesis by (simp add: bit_iff_odd)
  qed
  moreover have c0: "(0xC0 :: u8) = push_bit 6 (mask 2)" by (simp add: mask_eq_exp_minus_1)
  ultimately show "(word_of_nat n :: u8) AND 0xC0 = 0"
    unfolding c0 by (intro bit_word_eqI) (auto simp: bit_simps)
  show "unat (word_of_nat n :: u8) = n" using assms by (simp add: unat_of_nat)
qed

text \<open>The domain string a run of labels leaves behind; from the empty string it is \<open>join\<close>.\<close>

abbreviation add_labels :: "string \<Rightarrow> string list \<Rightarrow> string" where
  "add_labels dn ls \<equiv> foldl (\<lambda>result value. (if result \<noteq> [] then result @ ''.'' else result) @ value) dn ls"

lemma parse_label:
  assumes "bytes_at buf (p + b + al) (label_bytes l)" and "wf_label l" and "al + 1 + length l \<le> mp"
  shows "parseRe_loop buf p sz b mp al dn d =
           parseRe_loop buf p sz b mp (al + length (label_bytes l)) (add_labels dn [l]) d"
proof -
  have l: "length l < 64" "l \<noteq> []" "CHR 0x00 \<notin> set l" using assms(2) by (auto simp: wf_label_def)
  have "rd buf (p + b + al) = Some (word_of_nat (length l))"
    and "bytes_at buf (p + b + al + 1) (map byte_of l)"
    using assms(1) by (auto simp: label_bytes_def mem_simps)
  moreover from this(2) have "rd_n buf (p + b + al + 1) (length l) = Some (map byte_of l)"
    using rd_n_bytes_at by fastforce
  moreover have "(word_of_nat (length l) :: u8) \<noteq> 0"
    using label_length_byte(2) [OF l(1)] l(2) by (metis length_0_conv unat_0)
  moreover have "c_str (map char_of_byte (map byte_of l)) = l"
    using l(3) by (simp add: c_str_id o_def)
  ultimately show ?thesis
    using assms(3) label_length_byte [OF l(1)]
    by (subst parseRe_loop_unfold) auto
qed

lemma parse_labels:
  assumes "bytes_at buf (p + b + al) (concat (map label_bytes ls))" and "\<forall>l \<in> set ls. wf_label l"
    and "al + length (concat (map label_bytes ls)) \<le> mp"
  shows "parseRe_loop buf p sz b mp al dn d =
           parseRe_loop buf p sz b mp (al + length (concat (map label_bytes ls))) (add_labels dn ls) d"
  using assms
proof (induction ls arbitrary: al dn)
  case Nil
  then show ?case by simp
next
  case (Cons l ls)
  have "parseRe_loop buf p sz b mp al dn d =
      parseRe_loop buf p sz b mp (al + length (label_bytes l)) (add_labels dn [l]) d"
    using Cons.prems by (intro parse_label) (auto simp: mem_simps)
  also have "\<dots> = parseRe_loop buf p sz b mp (al + length (label_bytes l) + length (concat (map label_bytes ls)))
      (add_labels (add_labels dn [l]) ls) d"
    using Cons.prems by (intro Cons.IH) (auto simp: mem_simps add.assoc)
  finally show ?case by (simp add: add.assoc)
qed

lemma parse_name:
  assumes at: "bytes_at buf (p + b + al) (name_bytes ls)" and wf: "\<forall>l \<in> set ls. wf_label l"
    and mp: "al + length (name_bytes ls) \<le> mp"
  shows "parseRe_loop buf p sz b mp al dn d = Some (al + length (name_bytes ls), add_labels dn ls)"
proof -
  let ?n = "length (concat (map label_bytes ls))"
  have at': "bytes_at buf (p + b + al) (concat (map label_bytes ls))" "rd buf (p + b + (al + ?n)) = Some 0"
    using at by (auto simp: name_bytes_def mem_simps add.assoc)
  have "parseRe_loop buf p sz b mp al dn d = parseRe_loop buf p sz b mp (al + ?n) (add_labels dn ls) d"
    using at'(1) wf mp by (intro parse_labels) (auto simp: name_bytes_def)
  also have "\<dots> = Some (al + ?n + 1, add_labels dn ls)"
    using at'(2) mp by (subst parseRe_loop_unfold) (simp add: name_bytes_def)
  finally show ?thesis by (simp add: name_bytes_def)
qed

lemma add_labels_host:
  assumes "wf_host host"
  shows "add_labels [] (split_on (CHR ''.'') host) = host"
proof -
  have "join (split_on (CHR ''.'') host) ''.'' = sep_join ''.'' (split_on (CHR ''.'') host)"
    using wf_host_first [OF assms] by (intro join_sep_join) (auto simp: hd_split_on_Nil)
  then show ?thesis by (simp add: join_def sep_join_split_on)
qed

lemma parse_host:
  assumes "bytes_at buf (p + b) (name_bytes (split_on (CHR ''.'') host))" and "wf_host host"
    and "length host + 2 \<le> mp" and "d \<le> max_depth"
  shows "parseRe buf p sz b mp [] d = Some (length host + 2, host)"
  using parse_name [of buf p b 0 "split_on (CHR ''.'') host" mp sz "[]" d] assms
  by (simp add: parseRe_def wf_host_def length_name_bytes_host add_labels_host)

text \<open>A name that is only a pointer, as the answers of the server have it.\<close>

lemma parse_pointer:
  assumes "rd buf (p + b) = Some high" and "rd buf (p + b + 1) = Some low" and "high AND 0xC0 = 0xC0"
    and "ptr_pos high low \<noteq> b" and "0 < mp" and "d \<le> max_depth"
    and "parseRe buf p sz (ptr_pos high low) (minus_u64 sz (ptr_pos high low)) [] (d + 1) = Some (c, dn)"
    and "c \<noteq> 0"
  shows "parseRe buf p sz b mp [] d = Some (2, dn)"
  using assms by (subst parseRe_def, subst parseRe_loop_unfold) simp

section \<open>Bounds and memory safety of the parser\<close>

lemma parseRe_loop_bounds:
  assumes "parseRe_loop buf p sz b mp al dn d = Some (n, dn')" and "p + b + al \<le> length buf"
  shows "n = 0 \<or> al \<le> n \<and> p + b + n \<le> length buf \<and> n \<le> max al (mp + 1)"
  using assms
proof (induction "length buf - (p + b + al)" arbitrary: al dn rule: less_induct)
  case less
  note eq = less.prems(1) [unfolded parseRe_loop_unfold [of buf p sz b mp al dn d]]
  show ?case
  proof (cases "al < mp")
    case False
    with eq less.prems show ?thesis by simp
  next
    case True
    with eq obtain f where f: "rd buf (p + b + al) = Some f"
      by (auto split: Option.bind_splits)
    then have lt: "p + b + al < length buf" by (simp add: rd_def split: if_splits)
    consider (ptr) "f AND 0xC0 = 0xC0" | (label) "f AND 0xC0 = 0" | (other) "f AND 0xC0 \<noteq> 0xC0" "f AND 0xC0 \<noteq> 0"
      by auto
    then show ?thesis
    proof cases
      case ptr
      with eq True f obtain low where "rd buf (p + b + al + 1) = Some low"
        by (auto split: Option.bind_splits)
      then have lt2: "p + b + (al + 2) \<le> length buf" by (simp add: rd_def split: if_splits)
      have IH: "n = 0 \<or> al + 2 \<le> n \<and> p + b + n \<le> length buf \<and> n \<le> max (al + 2) (mp + 1)"
        if "parseRe_loop buf p sz b mp (al + 2) dn2 d = Some (n, dn')" for dn2
        using less.hyps [OF _ that] lt lt2 by auto
      from eq True f ptr \<open>rd buf (p + b + al + 1) = Some low\<close>
      have "n = 0 \<or> n = al + 2 \<or> (\<exists>dn2. parseRe_loop buf p sz b mp (al + 2) dn2 d = Some (n, dn'))"
        by (auto split: Option.bind_splits if_splits)
      with IH lt2 True show ?thesis by fastforce
    next
      case label
      have IH: "n = 0 \<or> al' \<le> n \<and> p + b + n \<le> length buf \<and> n \<le> max al' (mp + 1)"
        if "parseRe_loop buf p sz b mp al' dn2 d = Some (n, dn')" "al < al'" "p + b + al' \<le> length buf"
        for al' dn2
        using less.hyps [OF _ that(1)] that(2,3) lt by auto
      show ?thesis
      proof (cases "f = 0 \<or> mp - (al + 1) < unat f")
        case True
        with eq \<open>al < mp\<close> f label lt show ?thesis by (auto split: if_splits)
      next
        case False
        with eq True f label obtain bs where bs: "rd_n buf (p + b + al + 1) (unat f) = Some bs"
          and rec: "parseRe_loop buf p sz b mp (al + 1 + unat f)
              ((if dn \<noteq> [] then dn @ ''.'' else dn) @ c_str (map char_of_byte bs)) d = Some (n, dn')"
          by (auto split: Option.bind_splits)
        have "unat f \<noteq> 0" using False by (simp add: unat_eq_0)
        with bs have "p + b + (al + 1 + unat f) \<le> length buf"
          by (auto simp: rd_n_Some_iff dest: bytes_at_length)
        from IH [OF rec _ this] False True show ?thesis by auto
      qed
    next
      case other
      with eq True f lt show ?thesis by simp
    qed
  qed
qed

text \<open>
  What the code relies on without checking it: every compression pointer of the message lies
  inside it, and so does the offset it carries.
\<close>

definition ptrs_ok :: "buffer \<Rightarrow> nat \<Rightarrow> nat \<Rightarrow> bool" where
  "ptrs_ok buf p sz \<longleftrightarrow> p + sz \<le> length buf \<and> sz < 2 ^ 64 \<and>
     (\<forall>i < sz. buf ! (p + i) AND 0xC0 = 0xC0 \<longrightarrow>
        Suc i < sz \<and> ptr_pos (buf ! (p + i)) (buf ! (p + i + 1)) < sz)"

lemma parseRe_loop_safe:
  assumes "ptrs_ok buf p sz" and "b + mp \<le> sz"
  shows "\<exists>r. parseRe_loop buf p sz b mp al dn d = Some r"
  using assms
proof (induction buf p sz b mp al dn d rule: parseRe_loop.induct)
  case (1 buf p sz b mp al dn d)
  show ?case
  proof (cases "al < mp")
    case False
    then show ?thesis by (subst parseRe_loop.simps) simp
  next
    case al: True
    let ?f = "buf ! (p + b + al)"
    have in_sz: "b + al < sz" using al "1.prems" by simp
    then have f: "rd buf (p + b + al) = Some ?f"
      using "1.prems" by (simp add: rd_def ptrs_ok_def)
    consider (ptr) "?f AND 0xC0 = 0xC0" | (label) "?f AND 0xC0 = 0" | (other) "?f AND 0xC0 \<noteq> 0xC0" "?f AND 0xC0 \<noteq> 0"
      by auto
    then show ?thesis
    proof cases
      case ptr
      let ?l = "buf ! (p + b + al + 1)"
      have "Suc (b + al) < sz \<and> ptr_pos ?f ?l < sz"
        using "1.prems"(1) in_sz ptr unfolding ptrs_ok_def by (metis add.assoc)
      then have l: "rd buf (p + b + al + 1) = Some ?l" and pos: "ptr_pos ?f ?l < sz"
        using "1.prems" by (auto simp: rd_def ptrs_ok_def)
      have nested: "\<exists>r. parseRe buf p sz (ptr_pos ?f ?l) (minus_u64 sz (ptr_pos ?f ?l)) [] (d + 1) = Some r"
        if "ptr_pos ?f ?l \<noteq> b"
        using "1.IH"(1) [OF al f ptr l refl refl that] "1.prems" pos
        by (cases "max_depth < d + 1") (auto simp: parseRe_def minus_u64_def)
      show ?thesis
      proof (cases "ptr_pos ?f ?l = b")
        case True
        with al f ptr l show ?thesis by (subst parseRe_loop_unfold) simp
      next
        case False
        from nested [OF this] obtain c re where
          re: "parseRe buf p sz (ptr_pos ?f ?l) (minus_u64 sz (ptr_pos ?f ?l)) [] (d + 1) = Some (c, re)"
          by auto
        then have re': "(if max_depth < d + 1 then Some (0, [])
            else parseRe_loop buf p sz (ptr_pos ?f ?l) (minus_u64 sz (ptr_pos ?f ?l)) 0 [] (d + 1)) = Some (c, re)"
          by (simp only: parseRe_def)
        have "\<exists>r. parseRe_loop buf p sz b mp (al + 2) (dn @ ''.'' @ re) d = Some r"
          if "c \<noteq> 0" "dn \<noteq> []"
          using "1.IH"(2) [OF al f ptr l refl refl False re' refl that] "1.prems" by simp
        with al f ptr l False re show ?thesis by (subst parseRe_loop_unfold) auto
      qed
    next
      case label
      show ?thesis
      proof (cases "?f = 0 \<or> mp - (al + 1) < unat ?f")
        case True
        with al f label show ?thesis by (subst parseRe_loop_unfold) auto
      next
        case False
        then have "p + b + al + 1 + unat ?f \<le> length buf"
          using al "1.prems" unfolding ptrs_ok_def by linarith
        then obtain bs where bs: "rd_n buf (p + b + al + 1) (unat ?f) = Some bs"
          using rd_n_in_bounds by metis
        have ptr': "?f AND 0xC0 \<noteq> 0xC0" using label by simp
        have "\<exists>r. parseRe_loop buf p sz b mp (al + 1 + unat ?f)
            ((if dn \<noteq> [] then dn @ ''.'' else dn) @ c_str (map char_of_byte bs)) d = Some r"
          using "1.IH"(3) [OF al f ptr' label _ _ bs refl] False "1.prems" by simp
        with al f label False bs show ?thesis by (subst parseRe_loop_unfold) auto
      qed
    next
      case other
      with al f show ?thesis by (subst parseRe_loop_unfold) simp
    qed
  qed
qed

section \<open>Properties\<close>

text \<open>
  C13. A host name survives the wire: for every host made of labels of 1 to 63 bytes, what
  \<open>dns_domain::generate\<close> writes at any place of a buffer is read back by \<open>dns_domain::parse\<close> as the
  same host, and both report the same length, \<open>length host + 2\<close>.
\<close>

theorem dns_domain_roundtrip:
  assumes "wf_host host" and "p + length host + 2 \<le> length buf" and "length host + 2 \<le> maxParse"
  shows "\<exists>buf' dd. dns_domain_generate buf p host = Some (buf', dd) \<and> d_len dd = length host + 2
           \<and> dns_domain_parse buf' 0 allDataSize p maxParse = Some (d_len dd, host)"
proof -
  let ?bs = "name_bytes (split_on (CHR ''.'') host)"
  have len: "length ?bs = length host + 2" by (rule length_name_bytes_host)
  then obtain buf' where wr: "wr_n buf p ?bs = Some buf'"
    using assms(2) wr_n_in_bounds [of p ?bs buf] by auto
  have "p \<le> length buf" using assms(2) by simp
  from wr_n_bytes_at [OF wr this] have "bytes_at buf' p ?bs" .
  then have "parseRe buf' 0 allDataSize p maxParse [] 0 = Some (length host + 2, host)"
    using assms by (intro parse_host) simp_all
  moreover have "dns_domain_generate buf p host =
      Some (buf', \<lparr>d_data = p, d_len = length ?bs, d_valid = True, domain = host\<rparr>)"
    using wr assms(1) wf_host_first [OF assms(1)] wf_host_no_nul [OF assms(1)]
    by (simp add: dns_domain_generate_correct wf_host_def)
  ultimately show ?thesis by (simp add: dns_domain_parse_def len)
qed

theorem dns_domain_roundtrip_witness:
  "\<exists>buf' dd. dns_domain_generate (replicate 32 0) 12 ''www.baidu.com'' = Some (buf', dd)
     \<and> d_len dd = length ''www.baidu.com'' + 2
     \<and> dns_domain_parse buf' 0 32 12 20 = Some (d_len dd, ''www.baidu.com'')"
  by (rule dns_domain_roundtrip) (simp_all add: wf_host_def wf_label_def)

text \<open>
  C14. The parser never claims more than it saw: a non-zero length it returns lies inside the
  buffer and exceeds the limit \<open>maxParse\<close> by at most one byte (the second byte of a pointer whose
  first byte is the last allowed one), whatever bytes the message holds.
\<close>

theorem dns_domain_parse_bounds:
  assumes "dns_domain_parse buf p allDataSize begin maxParse = Some (n, dn)" and "p + begin \<le> length buf"
  shows "p + begin + n \<le> length buf \<and> n \<le> maxParse + 1"
  using parseRe_loop_bounds [of buf p allDataSize "begin" maxParse 0 "[]" 0 n dn] assms
  by (auto simp: dns_domain_parse_def parseRe_def max_depth_def)

theorem dns_domain_parse_bounds_witness:
  "0 + 0 + 5 \<le> length ([3, 119, 119, 119, 0, 9] :: u8 list) \<and> 5 \<le> (6 :: nat) + 1"
proof (rule dns_domain_parse_bounds)
  show "dns_domain_parse [3, 119, 119, 119, 0, 9] 0 6 0 6 = Some (5, ''www'')" by code_simp
qed simp

text \<open>
  C15. Parsing is memory safe on a message whose compression pointers stay inside the message:
  then no access leaves the buffer, at any nesting of the pointers, and the parse ends with an
  answer even if the pointers form a cycle.
\<close>

theorem dns_domain_parse_safe:
  assumes "ptrs_ok buf p allDataSize" and "begin + maxParse \<le> allDataSize"
  shows "\<exists>r. dns_domain_parse buf p allDataSize begin maxParse = Some r"
  using parseRe_loop_safe [OF assms] by (simp add: dns_domain_parse_def parseRe_def)

theorem dns_domain_parse_safe_witness:
  "\<exists>r. dns_domain_parse [0xC0, 2, 0xC0, 0] 0 4 0 4 = Some r"
proof (rule dns_domain_parse_safe)
  have "i = 0 \<or> i = 1 \<or> i = 2 \<or> i = 3" if "i < 4" for i :: nat using that by auto
  then show "ptrs_ok [0xC0, 2, 0xC0, 0] 0 4" by (fastforce simp: ptrs_ok_def ptr_pos_def)
qed simp

text \<open>
  Without that condition the parser is not memory safe: a name that starts with a pointer
  whose offset lies at or past the end of the buffer makes it read outside the buffer. The code
  does not compare the offset with the size of the message, and the limit it computes for the
  nested name, \<open>allDataSize - pos\<close>, wraps around.
\<close>

theorem dns_domain_parse_pointer_out_of_bounds:
  assumes "rd buf (p + begin) = Some high" and "rd buf (p + begin + 1) = Some low"
    and "high AND 0xC0 = 0xC0" and "length buf \<le> p + ptr_pos high low"
    and "allDataSize < ptr_pos high low" and "0 < maxParse"
  shows "dns_domain_parse buf p allDataSize begin maxParse = None"
proof -
  have "ptr_pos high low < 2 ^ LENGTH(16)" unfolding ptr_pos_def by (rule unsigned_less)
  then have "0 < minus_u64 allDataSize (ptr_pos high low)"
    using assms(5) by (simp add: minus_u64_def)
  moreover have "rd buf (p + ptr_pos high low) = None" using assms(4) by (simp add: rd_def)
  ultimately have "parseRe buf p allDataSize (ptr_pos high low)
      (minus_u64 allDataSize (ptr_pos high low)) [] (0 + 1) = None"
    by (subst parseRe_def, subst parseRe_loop_unfold) (simp add: max_depth_def)
  moreover have "ptr_pos high low \<noteq> begin" using assms(1,4) by (auto simp: rd_def split: if_splits)
  ultimately show ?thesis
    using assms by (subst dns_domain_parse_def, subst parseRe_def, subst parseRe_loop_unfold)
       (simp add: max_depth_def)
qed

theorem dns_domain_parse_pointer_out_of_bounds_witness:
  "dns_domain_parse [0xFF, 0xFF, 0, 1, 0, 1] 0 6 0 6 = None"
  by (rule dns_domain_parse_pointer_out_of_bounds [where high = "0xFF" and low = "0xFF"])
     (simp_all add: rd_def ptr_pos_def)

text \<open>
  A label followed by a pointer ends the name in the wire format, but not in the parser: it
  goes on after the pointer, and when the next byte is 0 (the high byte of the record type) it
  counts that byte too. The reported length is one more than the length of the name.
\<close>

theorem dns_domain_parse_label_pointer_overrun:
  assumes "bytes_at buf (p + begin) (label_bytes l @ [high, low, 0])" and "wf_label l"
    and "high AND 0xC0 = 0xC0" and "ptr_pos high low \<noteq> begin"
    and "parseRe buf p allDataSize (ptr_pos high low)
           (minus_u64 allDataSize (ptr_pos high low)) [] 1 = Some (c, rest)" and "c \<noteq> 0"
    and "length (label_bytes l @ [high, low]) < maxParse"
  shows "dns_domain_parse buf p allDataSize begin maxParse =
           Some (length (label_bytes l @ [high, low]) + 1, l @ ''.'' @ rest)"
proof -
  let ?n = "length (label_bytes l)"
  have at: "bytes_at buf (p + begin) (label_bytes l)" "rd buf (p + begin + ?n) = Some high"
    "rd buf (p + begin + ?n + 1) = Some low" "rd buf (p + begin + (?n + 2)) = Some 0"
    using assms(1) by (simp_all add: mem_simps add.assoc)
  have "l \<noteq> []" using assms(2) by (simp add: wf_label_def)
  have "parseRe_loop buf p allDataSize begin maxParse 0 [] 0
      = parseRe_loop buf p allDataSize begin maxParse ?n l 0"
    using parse_label [of buf p "begin" 0 l maxParse allDataSize "[]" 0] at(1) assms(2,7) by simp
  also have "\<dots> = parseRe_loop buf p allDataSize begin maxParse (?n + 2) (l @ ''.'' @ rest) 0"
    using at assms(3-7) \<open>l \<noteq> []\<close> by (subst parseRe_loop_unfold) simp
  also have "\<dots> = Some (?n + 3, l @ ''.'' @ rest)"
    using at(4) assms(7) by (subst parseRe_loop_unfold) simp
  finally show ?thesis by (simp add: dns_domain_parse_def parseRe_def)
qed

theorem dns_domain_parse_label_pointer_overrun_witness:
  "dns_domain_parse [1, 120, 0, 3, 119, 119, 119, 0xC0, 0, 0, 1, 0, 1] 0 13 3 10
     = Some (length (label_bytes ''www'' @ [0xC0, 0]) + 1, ''www'' @ ''.'' @ ''x'')"
proof (rule dns_domain_parse_label_pointer_overrun [where c = 3])
  show "bytes_at [1, 120, 0, 3, 119, 119, 119, 0xC0, 0, 0, 1, 0, 1] (0 + 3) (label_bytes ''www'' @ [0xC0, 0, 0])"
    by code_simp
  show "parseRe [1, 120, 0, 3, 119, 119, 119, 0xC0, 0, 0, 1, 0, 1] 0 13 (ptr_pos 0xC0 0)
      (minus_u64 13 (ptr_pos 0xC0 0)) [] 1 = Some (3, ''x'')"
    by code_simp
qed (simp_all add: wf_label_def ptr_pos_def)

text \<open>
  Writing the empty host, or a host with a leading dot, reads outside the string: the last
  index of the empty first label is \<open>-1\<close>, which an \<open>unsigned char\<close> holds as 255, so 256
  characters are copied.
\<close>

theorem dns_domain_generate_empty_label_faults:
  assumes "host = [] \<or> hd host = CHR ''.''" and "length host < 255"
  shows "dns_domain_generate buf p host = None"
proof -
  have "\<exists>xs t. sub_lens (c_str host) 0 0 0 [] = ((0, 255) # xs, t)"
  proof (cases host)
    case Nil
    then show ?thesis by (simp add: c_str_def)
  next
    case (Cons c cs)
    with assms(1) have "c_str host = CHR ''.'' # c_str cs" by (simp add: c_str_def)
    moreover have "split_on (CHR ''.'') (CHR ''.'' # c_str cs) = [] # split_on (CHR ''.'') (c_str cs)"
      by simp
    ultimately show ?thesis by (simp add: sub_lens_split_on)
  qed
  then obtain xs t where xs: "sub_lens (c_str host) 0 0 0 [] = ((0, 255) # xs, t)" by blast
  have "emit_chars host js b q = None" if "255 \<in> set js" for js b q
    using that assms(2)
    by (induction js arbitrary: b q) (auto simp: host_char_def split: Option.bind_splits)
  then have "emit_chars host [0 ..< 256] b q = None" for b q by simp
  then show ?thesis
    by (auto simp: dns_domain_generate_def xs Let_def split: Option.bind_splits)
qed

theorem dns_domain_generate_empty_label_faults_witness:
  "dns_domain_generate (replicate 1024 0) 12 [] = None"
  by (rule dns_domain_generate_empty_label_faults) simp_all

end
