(* ===== verification/Dns_Message.thy ===== *)
theory Dns_Message
  imports Dns_Domain
begin

unbundle bit_operations_syntax

text \<open>
  The other parts of a DNS message in \<open>src/core/protocol/dns_message.h\<close>: the header with the id
  generator, questions and the question section, and resource records. Parsing functions return
  \<open>None\<close> on an access outside the buffer; a null pointer is an inner \<open>None\<close>, an object marked
  invalid has its flag cleared.
\<close>

section \<open>Model\<close>

subsection \<open>Printing\<close>

text \<open>
  \<open>basic_data::print_hex\<close>: the digit table has fifteen entries, \<open>'0'\<close> to \<open>'e'\<close>. A line break is
  written before every eighth byte but the first.
\<close>

definition hex_chars :: string where
  "hex_chars = ''0123456789abcde''"

definition print_hex_byte :: "u8 \<Rightarrow> string option" where
  "print_hex_byte b = do {
     let hi = unat (drop_bit 4 (b AND 0xF0));
     let lo = unat (b AND 0x0F);
     if hi < length hex_chars \<and> lo < length hex_chars
     then Some [hex_chars ! hi, hex_chars ! lo] else None }"

fun print_hex_loop :: "buffer \<Rightarrow> nat \<Rightarrow> nat \<Rightarrow> nat \<Rightarrow> string option" where
  "print_hex_loop buf p i 0 = Some [CHR 0x0A]"
| "print_hex_loop buf p i (Suc n) = do {
     b \<leftarrow> rd buf (p + i);
     h \<leftarrow> print_hex_byte b;
     out \<leftarrow> print_hex_loop buf p (Suc i) n;
     Some ((if i \<noteq> 0 \<and> i mod 8 = 0 then [CHR 0x0A] else []) @ h @ '' '' @ out) }"

definition print_hex :: "buffer \<Rightarrow> nat \<Rightarrow> nat \<Rightarrow> string option" where
  "print_hex buf data len = print_hex_loop buf data 0 len"

text \<open>\<open>print\<close> writes the bits of every byte, the highest first, and breaks the line before every fourth.\<close>

definition print_bit :: "u8 \<Rightarrow> string" where
  "print_bit value = map (\<lambda>i. if 0 < (drop_bit i (push_bit 7 1) :: u32) AND ucast value then CHR ''1'' else CHR ''0'') [0 ..< 8]"

fun print_loop :: "buffer \<Rightarrow> nat \<Rightarrow> nat \<Rightarrow> nat \<Rightarrow> string option" where
  "print_loop buf p i 0 = Some [CHR 0x0A]"
| "print_loop buf p i (Suc n) = do {
     b \<leftarrow> rd buf (p + i);
     out \<leftarrow> print_loop buf p (Suc i) n;
     Some ((if i \<noteq> 0 \<and> i mod 4 = 0 then [CHR 0x0A] else []) @ print_bit b @ '' '' @ out) }"

definition print :: "buffer \<Rightarrow> nat \<Rightarrow> nat \<Rightarrow> string option" where
  "print buf data len = print_loop buf data 0 len"

lemma print_bit_nth: "i < 8 \<Longrightarrow> print_bit b ! i = (if bit b (7 - i) then CHR ''1'' else CHR ''0'')"
proof -
  assume i: "i < 8"
  define m :: u32 where "m = push_bit (7 - i) 1"
  have "i = 0 \<or> i = 1 \<or> i = 2 \<or> i = 3 \<or> i = 4 \<or> i = 5 \<or> i = 6 \<or> i = 7" using i by linarith
  then have "drop_bit i (push_bit 7 1) = m" unfolding m_def by (elim disjE) simp_all
  moreover have "m AND ucast b = (if bit b (7 - i) then m else 0)"
    using i by (auto intro!: bit_word_eqI simp: m_def bit_simps)
  moreover have "m \<noteq> 0"
  proof
    assume "m = 0"
    then have "bit m (7 - i) = bit (0 :: u32) (7 - i)" by simp
    then show False using i by (simp add: m_def bit_simps)
  qed
  ultimately show ?thesis using i by (simp add: print_bit_def word_neq_0_conv)
qed

lemma print_bit_inject: "print_bit a = print_bit b \<longleftrightarrow> a = b"
proof
  assume same: "print_bit a = print_bit b"
  show "a = b"
  proof (rule bit_word_eqI)
    fix k assume "k < LENGTH(8)"
    then have "7 - k < 8" "7 - (7 - k) = k" by simp_all
    then have "(if bit a k then CHR ''1'' else CHR ''0'') = (if bit b k then CHR ''1'' else CHR ''0'')"
      using print_bit_nth [of "7 - k" a] print_bit_nth [of "7 - k" b] same by simp
    then show "bit a k = bit b k" by (simp split: if_splits)
  qed
qed simp

subsection \<open>Identifiers\<close>

text \<open>\<open>id->fetch_add(1)\<close> on a 16-bit atomic: the old value and the incremented, wrapped state.\<close>

definition id16 :: "u16 \<Rightarrow> u16 \<times> u16" where
  "id16 gen = (gen, gen + 1)"

fun ids16 :: "nat \<Rightarrow> u16 \<Rightarrow> u16 list \<times> u16" where
  "ids16 0 gen = ([], gen)"
| "ids16 (Suc n) gen = (let (i, gen') = id16 gen; (is, gen'') = ids16 n gen' in (i # is, gen''))"

subsection \<open>Header\<close>

definition header_len :: nat where
  "header_len = 12"

record dns_header =
  h_data :: nat
  h_len :: nat
  h_id :: u16
  answerCount :: u16
  questionCount :: u16
  responseCode :: u8
  qr :: u8
  opcode :: u8

definition dns_header_parse :: "buffer \<Rightarrow> nat \<Rightarrow> nat \<Rightarrow> dns_header option option" where
  "dns_header_parse buf data len =
     (if header_len \<le> len then do {
        b0 \<leftarrow> rd buf data;
        b1 \<leftarrow> rd buf (data + 1);
        b2 \<leftarrow> rd buf (data + 2);
        b3 \<leftarrow> rd buf (data + 3);
        qc \<leftarrow> read_int buf (data + 4) 0;
        ac \<leftarrow> read_int buf (data + 6) 0;
        Some (Some \<lparr>h_data = data, h_len = header_len,
                    h_id = push_bit 8 (ucast b0) OR ucast b1,
                    answerCount = ac, questionCount = qc,
                    responseCode = b3 AND 0x0F, qr = b2 AND 0x80,
                    opcode = drop_bit 3 (b2 AND 0x78)\<rparr>) }
      else Some None)"

text \<open>\<open>init\<close> fills six 16-bit words and stores them byte by byte.\<close>

fun store_words :: "buffer \<Rightarrow> nat \<Rightarrow> u16 list \<Rightarrow> buffer option" where
  "store_words buf p [] = Some buf"
| "store_words buf p (t # ts) = do {
     buf1 \<leftarrow> wr buf p (ucast (drop_bit 8 (t AND 0xFF00)));
     buf2 \<leftarrow> wr buf1 (p + 1) (ucast (t AND 0x00FF));
     store_words buf2 (p + 2) ts }"

definition header_flags :: "bool \<Rightarrow> u16" where
  "header_flags isAnswer = (if isAnswer then 0x8000 OR 0x0080 else 0x0100)"

definition dns_header_generate ::
  "buffer \<Rightarrow> nat \<Rightarrow> u16 \<Rightarrow> nat \<Rightarrow> nat \<Rightarrow> nat \<Rightarrow> bool \<Rightarrow> (buffer \<times> dns_header) option" where
  "dns_header_generate buf data ident hostCount additionalCount ansCount isAnswer = do {
     let tmpData = [ident, header_flags isAnswer, word_of_nat hostCount, word_of_nat ansCount,
                    0, word_of_nat additionalCount];
     buf' \<leftarrow> store_words buf data tmpData;
     Some (buf', \<lparr>h_data = data, h_len = 6 * 2, h_id = ident, answerCount = 0, questionCount = 0,
                  responseCode = 0, qr = 0, opcode = 0\<rparr>) }"

definition dns_header_generateAnswer :: "buffer \<Rightarrow> nat \<Rightarrow> u16 \<Rightarrow> nat \<Rightarrow> nat \<Rightarrow> (buffer \<times> dns_header) option" where
  "dns_header_generateAnswer buf data ident hostCount ansCount =
     dns_header_generate buf data ident hostCount 0 ansCount True"

definition dns_header_generateQuery :: "buffer \<Rightarrow> nat \<Rightarrow> nat \<Rightarrow> u16 \<Rightarrow> ((buffer \<times> dns_header) \<times> u16) option" where
  "dns_header_generateQuery buf data hostCount gen = do {
     let (ident, gen') = id16 gen;
     r \<leftarrow> dns_header_generate buf data ident hostCount 0 0 False;
     Some (r, gen') }"

definition dns_header_updateId :: "buffer \<Rightarrow> dns_header \<Rightarrow> u16 \<Rightarrow> (buffer \<times> dns_header) option" where
  "dns_header_updateId buf hdr ident = do {
     buf1 \<leftarrow> wr buf (h_data hdr) (ucast (drop_bit 8 ident));
     buf2 \<leftarrow> wr buf1 (h_data hdr + 1) (ucast (ident AND 0xFF));
     Some (buf2, hdr\<lparr>h_id := ident\<rparr>) }"

subsection \<open>Questions\<close>

record dns_query =
  q_data :: nat
  q_len :: nat
  q_valid :: bool
  q_domain :: "dns_domain option"
  queryTypeValue :: u16

definition type_A :: u16 where "type_A = 0x01"
definition type_CNAME :: u16 where "type_CNAME = 0x05"
definition type_AAAA :: u16 where "type_AAAA = 0x1c"

definition flags_size :: nat where "flags_size = 4"
definition default_flags :: "u8 list" where "default_flags = [0x00, 0x01, 0x00, 0x01]"

definition dns_query_parse :: "buffer \<Rightarrow> nat \<Rightarrow> nat \<Rightarrow> dns_query option" where
  "dns_query_parse buf data len = do {
     dnsDomain \<leftarrow> dns_domain_at buf data len 0 len;
     if \<not> d_valid dnsDomain
     then Some \<lparr>q_data = data, q_len = 0, q_valid = False, q_domain = None, queryTypeValue = type_A\<rparr>
     else do {
       typeValue \<leftarrow> read_int buf (data + d_len dnsDomain) 0;
       Some \<lparr>q_data = data, q_len = d_len dnsDomain + flags_size, q_valid = True,
             q_domain = Some dnsDomain, queryTypeValue = typeValue\<rparr> } }"

definition dns_query_generateDomain :: "buffer \<Rightarrow> nat \<Rightarrow> string \<Rightarrow> (buffer \<times> dns_query) option" where
  "dns_query_generateDomain buf data host = do {
     (buf1, dd) \<leftarrow> dns_domain_generate buf data host;
     buf2 \<leftarrow> copy_between default_flags 0 buf1 (data + d_len dd) flags_size;
     Some (buf2, \<lparr>q_data = data, q_len = d_len dd + flags_size, q_valid = True,
                  q_domain = Some dd, queryTypeValue = type_A\<rparr>) }"

subsection \<open>Question section\<close>

record dns_query_zone =
  z_data :: nat
  z_len :: nat
  z_valid :: bool
  querys :: "dns_query list"
  z_hosts :: "string list"

text \<open>
  The constructor's loop. Every question is parsed with the limit \<open>len\<close> of the whole section,
  not with what is left of it; \<open>resetSize\<close> is a \<open>uint32_t\<close> and wraps.
\<close>

function zone_loop ::
  "buffer \<Rightarrow> nat \<Rightarrow> nat \<Rightarrow> nat \<Rightarrow> nat \<Rightarrow> nat \<Rightarrow> dns_query list \<Rightarrow> (dns_query list \<times> nat \<times> bool) option" where
  "zone_loop buf data len sz resetSize realSize qs =
     (if 0 < resetSize \<and> length qs < sz then do {
        query \<leftarrow> dns_query_parse buf data len;
        if q_valid query
        then zone_loop buf (data + q_len query) len sz (minus_u32 resetSize (q_len query))
               (realSize + q_len query) (qs @ [query])
        else Some (qs, realSize, False) }
      else Some (qs, realSize, True))"
  by pat_completeness auto
termination
  by (relation "measure (\<lambda>(buf, data, len, sz, resetSize, realSize, qs). sz - length qs)") auto

declare zone_loop.simps [simp del]

definition dns_query_zone_parse :: "buffer \<Rightarrow> nat \<Rightarrow> nat \<Rightarrow> nat \<Rightarrow> dns_query_zone option" where
  "dns_query_zone_parse buf data len sz = do {
     (qs, realSize, ok) \<leftarrow> zone_loop buf data len sz len 0 [];
     Some \<lparr>z_data = data, z_len = realSize, z_valid = ok, querys = qs, z_hosts = []\<rparr> }"

fun zone_queries :: "buffer \<Rightarrow> nat \<Rightarrow> string list \<Rightarrow> (buffer \<times> dns_query list \<times> nat) option" where
  "zone_queries buf data [] = Some (buf, [], data)"
| "zone_queries buf data (host # hosts) = do {
     (buf1, q) \<leftarrow> dns_query_generateDomain buf data host;
     (buf2, qs, data') \<leftarrow> zone_queries buf1 (data + q_len q) hosts;
     Some (buf2, q # qs, data') }"

fun zone_copies :: "buffer \<Rightarrow> nat \<Rightarrow> dns_query list \<Rightarrow> buffer option" where
  "zone_copies buf dst [] = Some buf"
| "zone_copies buf dst (q # qs) = do {
     buf' \<leftarrow> copy_within buf (q_data q) dst (q_len q);
     zone_copies buf' (dst + q_len q) qs }"

text \<open>
  \<open>generate\<close> advances \<open>data\<close> past the questions it writes and builds the zone object there, so the
  questions are copied a second time behind themselves.
\<close>

definition dns_query_zone_generate :: "buffer \<Rightarrow> nat \<Rightarrow> string list \<Rightarrow> (buffer \<times> dns_query_zone) option" where
  "dns_query_zone_generate buf data hosts = do {
     (buf1, qs, data') \<leftarrow> zone_queries buf data hosts;
     let sz = sum_list (map q_len qs);
     buf2 \<leftarrow> zone_copies buf1 data' qs;
     Some (buf2, \<lparr>z_data = data', z_len = sz, z_valid = True, querys = qs, z_hosts = hosts\<rparr>) }"

definition dns_query_zone_copy :: "buffer \<Rightarrow> dns_query_zone \<Rightarrow> buffer \<Rightarrow> nat \<Rightarrow> (buffer \<times> dns_query_zone) option" where
  "dns_query_zone_copy src zone dst data = do {
     dst' \<leftarrow> copy_between src (z_data zone) dst data (z_len zone);
     Some (dst', \<lparr>z_data = data, z_len = z_len zone, z_valid = True, querys = [], z_hosts = []\<rparr>) }"

subsection \<open>Resource records\<close>

record dns_resource_zone =
  r_data :: nat
  r_len :: nat
  r_valid :: bool
  r_domain :: "dns_domain option"
  r_cname :: "dns_domain option"
  r_type :: u16
  r_resource :: u16
  liveTime :: u32
  r_length :: u16
  ipv4s :: "u32 list"

definition single_ip_len :: nat where
  "single_ip_len = 2 + 2 + 2 + 4 + 2 + 4"

definition max_response_len :: nat where
  "max_response_len = 512"

fun read_ips :: "buffer \<Rightarrow> nat \<Rightarrow> nat \<Rightarrow> u32 list option" where
  "read_ips buf p 0 = Some []"
| "read_ips buf p (Suc n) = do {
     ipv4 \<leftarrow> read_int buf p 0;
     ips \<leftarrow> read_ips buf (p + 4) n;
     Some (ipv4 # ips) }"

text \<open>The record as it is before the parse, and as \<open>mark_invalid\<close> leaves it.\<close>

definition resource_zone_init :: "nat \<Rightarrow> dns_resource_zone" where
  "resource_zone_init data = \<lparr>r_data = data, r_len = 0, r_valid = True, r_domain = None, r_cname = None,
     r_type = 0, r_resource = 0, liveTime = 0, r_length = 0, ipv4s = []\<rparr>"

definition dns_resource_zone_parse :: "buffer \<Rightarrow> nat \<Rightarrow> nat \<Rightarrow> nat \<Rightarrow> dns_resource_zone option" where
  "dns_resource_zone_parse buf original originalMax begin = do {
     dd \<leftarrow> dns_domain_new buf original originalMax begin;
     let rz = (resource_zone_init (original + begin))\<lparr>r_domain := Some dd\<rparr>;
     if \<not> d_valid dd then Some (rz\<lparr>r_valid := False\<rparr>)
     else do {
       let curBegin = original + begin + d_len dd;
       ty \<leftarrow> read_int buf curBegin 0;
       res \<leftarrow> read_int buf (curBegin + 2) 0;
       ttl \<leftarrow> read_int buf (curBegin + 4) 0;
       rdlen \<leftarrow> read_int buf (curBegin + 8) 0;
       let sz = d_len dd + 10 + unat rdlen;
       let curBegin = curBegin + 10;
       let rz = rz\<lparr>r_type := ty, r_resource := res, liveTime := ttl, r_length := rdlen\<rparr>;
       if ty = type_CNAME then do {
         cn \<leftarrow> dns_domain_at buf original originalMax (curBegin - original) (unat rdlen);
         if d_valid cn then Some (rz\<lparr>r_cname := Some cn, r_len := sz\<rparr>)
         else Some (rz\<lparr>r_cname := Some cn, r_valid := False\<rparr>) }
       else if unat rdlen mod 4 = 0 then do {
         ips \<leftarrow> read_ips buf curBegin (unat rdlen div 4);
         Some (rz\<lparr>ipv4s := ips, r_len := sz\<rparr>) }
       else Some (rz\<lparr>r_valid := False\<rparr>) } }"

definition dns_resource_zone_generate :: "buffer \<Rightarrow> nat \<Rightarrow> u32 \<Rightarrow> u32 \<Rightarrow> (buffer \<times> dns_resource_zone) option" where
  "dns_resource_zone_generate buf data ip expire = do {
     buf1 \<leftarrow> wr buf data 0xC0;
     buf2 \<leftarrow> wr buf1 (data + 1) (word_of_nat header_len);
     (buf3, p3) \<leftarrow> write_int buf2 (data + 2) type_A;
     (buf4, p4) \<leftarrow> write_int buf3 p3 (1 :: u16);
     (buf5, p5) \<leftarrow> write_int buf4 p4 expire;
     (buf6, p6) \<leftarrow> write_int buf5 p5 (4 :: u16);
     (buf7, p7) \<leftarrow> write_int buf6 p6 ip;
     Some (buf7, \<lparr>r_data = data, r_len = single_ip_len, r_valid = True, r_domain = None, r_cname = None,
                  r_type = type_A, r_resource = 1, liveTime = expire, r_length = 0, ipv4s = [ip]\<rparr>) }"

section \<open>Header lemmas\<close>

lemma be_bytes_2: "be_bytes 2 (t :: u16) = [ucast (drop_bit 8 t), ucast t]"
  by (simp add: numeral_2_eq_2)

lemma int_bytes_u16: "int_bytes (t :: u16) = [ucast (drop_bit 8 t), ucast t]"
  using be_bytes_2 [of t] by simp

lemma u16_halves:
  fixes t :: u16
  shows "ucast (drop_bit 8 (t AND 0xFF00)) = (ucast (drop_bit 8 t) :: u8)"
    and "ucast (t AND 0x00FF) = (ucast t :: u8)"
    and "push_bit 8 (ucast (ucast (drop_bit 8 t) :: u8)) OR ucast (ucast t :: u8) = t"
proof -
  have m: "(0xFF00 :: u16) = push_bit 8 255" by simp
  show "ucast (drop_bit 8 (t AND 0xFF00)) = (ucast (drop_bit 8 t) :: u8)"
    using masked_byte [of 8 t] unfolding m by (simp add: and.commute del: drop_bit_and)
  show "ucast (t AND 0x00FF) = (ucast t :: u8)"
    using masked_byte [of 0 t] by (simp add: and.commute)
  show "push_bit 8 (ucast (ucast (drop_bit 8 t) :: u8)) OR ucast (ucast t :: u8) = t"
    by (rule bit_word_eqI) (auto simp: bit_simps)
qed

lemma store_words_wr_n: "store_words buf p ts = wr_n buf p (concat (map int_bytes ts))"
proof (induction ts arbitrary: buf p)
  case Nil
  then show ?case by simp
next
  case (Cons t ts)
  have bs: "concat (map int_bytes (t # ts)) = [ucast (drop_bit 8 t), ucast t] @ concat (map int_bytes ts)"
    by (simp only: int_bytes_u16 list.map concat.simps)
  have "store_words buf p (t # ts) =
      do { buf1 \<leftarrow> wr buf p (ucast (drop_bit 8 t)); buf2 \<leftarrow> wr buf1 (p + 1) (ucast t);
           store_words buf2 (p + 2) ts }"
    by (simp only: store_words.simps u16_halves)
  then show ?case
    unfolding bs Cons.IH by (simp only: append.simps wr_n.simps Suc_eq_plus1 add.assoc one_add_one)
qed

definition header_bytes :: "u16 \<Rightarrow> nat \<Rightarrow> nat \<Rightarrow> nat \<Rightarrow> bool \<Rightarrow> u8 list" where
  "header_bytes ident hostCount additionalCount ansCount isAnswer =
     concat (map int_bytes [ident, header_flags isAnswer, word_of_nat hostCount, word_of_nat ansCount,
                            0, word_of_nat additionalCount])"

lemma length_header_bytes [simp]: "length (header_bytes i h a n b) = 12"
  by (simp add: header_bytes_def)

lemma dns_header_generate_wr_n:
  "dns_header_generate buf p ident hc ad ac ans =
     do { buf' \<leftarrow> wr_n buf p (header_bytes ident hc ad ac ans);
          Some (buf', \<lparr>h_data = p, h_len = 12, h_id = ident, answerCount = 0, questionCount = 0,
                       responseCode = 0, qr = 0, opcode = 0\<rparr>) }"
  by (simp only: dns_header_generate_def store_words_wr_n header_bytes_def Let_def) simp

definition parsed_header :: "nat \<Rightarrow> u16 \<Rightarrow> nat \<Rightarrow> nat \<Rightarrow> bool \<Rightarrow> dns_header" where
  "parsed_header p ident hc ac ans = \<lparr>h_data = p, h_len = 12, h_id = ident,
     answerCount = word_of_nat ac, questionCount = word_of_nat hc,
     responseCode = 0, qr = (if ans then 0x80 else 0), opcode = 0\<rparr>"

lemma dns_header_parse_header_bytes:
  assumes at: "bytes_at buf p (header_bytes ident hc ad ac ans)" and "12 \<le> len"
  shows "dns_header_parse buf p len = Some (Some (parsed_header p ident hc ac ans))"
proof -
  let ?f = "header_flags ans"
  have split: "header_bytes ident hc ad ac ans =
      [ucast (drop_bit 8 ident), ucast ident, ucast (drop_bit 8 ?f), ucast ?f]
      @ int_bytes (word_of_nat hc :: u16) @ int_bytes (word_of_nat ac :: u16)
      @ concat (map int_bytes [0 :: u16, word_of_nat ad])"
    by (simp only: header_bytes_def list.map concat.simps int_bytes_u16 append.simps)
  have pos: "Suc p = p + 1" "Suc (p + 1) = p + 2" "Suc (p + 2) = p + 3" "Suc (p + 3) = p + 4" by simp_all
  note rest = bytes_at_appendD [OF at [unfolded split], of 4]
  have hc: "bytes_at buf (p + 4) (int_bytes (word_of_nat hc :: u16))"
    using rest(2) bytes_at_appendD(1) by fastforce
  have "bytes_at buf (p + 4 + 2) (int_bytes (word_of_nat ac :: u16) @ concat (map int_bytes [0 :: u16, word_of_nat ad]))"
    by (rule bytes_at_appendD(2) [OF rest(2)]) simp_all
  from bytes_at_appendD(1) [OF this refl]
  have ac: "bytes_at buf (p + 6) (int_bytes (word_of_nat ac :: u16))" by (simp add: add.commute)
  have "bytes_at buf p [ucast (drop_bit 8 ident), ucast ident, ucast (drop_bit 8 ?f), ucast ?f]"
    by (rule rest(1)) simp
  then have "rd buf p = Some (ucast (drop_bit 8 ident))" "rd buf (p + 1) = Some (ucast ident)"
    "rd buf (p + 2) = Some (ucast (drop_bit 8 ?f))" "rd buf (p + 3) = Some (ucast ?f)"
    unfolding bytes_at_Cons pos by simp_all
  moreover have "ucast ?f AND 0x0F = (0 :: u8)" "ucast (drop_bit 8 ?f) AND 0x80 = (if ans then 0x80 else 0 :: u8)"
    "drop_bit 3 (ucast (drop_bit 8 ?f) AND 0x78) = (0 :: u8)"
    by (auto simp: header_flags_def)
  ultimately show ?thesis
    using assms(2) u16_wire.dec_enc [OF hc] u16_wire.dec_enc [OF ac] u16_halves(3) [of ident]
    by (simp add: dns_header_parse_def header_len_def parsed_header_def del: drop_bit_and)
qed

section \<open>Questions\<close>

text \<open>A question on the wire: name, type and class.\<close>

definition question_bytes :: "string \<times> u16 \<times> u16 \<Rightarrow> u8 list" where
  "question_bytes q = (case q of (host, ty, cls) \<Rightarrow>
     name_bytes (split_on (CHR ''.'') host) @ int_bytes ty @ int_bytes cls)"

definition parsed_query :: "nat \<Rightarrow> string \<Rightarrow> u16 \<Rightarrow> dns_query" where
  "parsed_query p host ty = \<lparr>q_data = p, q_len = length host + 6, q_valid = True,
     q_domain = Some \<lparr>d_data = p, d_len = length host + 2, d_valid = True, domain = host\<rparr>,
     queryTypeValue = ty\<rparr>"

lemma length_question_bytes [simp]: "length (question_bytes (host, ty, cls)) = length host + 6"
  by (simp add: question_bytes_def length_name_bytes_host)

lemma default_flags_int_bytes: "default_flags = int_bytes type_A @ int_bytes (1 :: u16)"
  unfolding int_bytes_u16 by (simp add: default_flags_def type_A_def)

lemma dns_query_parse_question:
  assumes at: "bytes_at buf p (question_bytes (host, ty, cls))" and wf: "wf_host host"
    and len: "length host + 2 \<le> len"
  shows "dns_query_parse buf p len = Some (parsed_query p host ty)"
proof -
  have "bytes_at buf (p + 0) (name_bytes (split_on (CHR ''.'') host))"
    and ty: "bytes_at buf (p + (length host + 2)) (int_bytes ty)"
    using at by (simp_all add: question_bytes_def mem_simps length_name_bytes_host)
  then have "parseRe buf p len 0 len [] 0 = Some (length host + 2, host)"
    using wf len by (intro parse_host) simp_all
  then show ?thesis
    using u16_wire.dec_enc [OF ty]
    by (simp add: dns_query_parse_def dns_domain_at_def dns_domain_parse_def parsed_query_def flags_size_def)
qed

lemma dns_query_generateDomain_wr_n:
  assumes "wf_host host"
  shows "dns_query_generateDomain buf p host =
     do { buf' \<leftarrow> wr_n buf p (question_bytes (host, type_A, 1)); Some (buf', parsed_query p host type_A) }"
proof -
  have copy: "copy_between default_flags 0 b q flags_size = wr_n b q default_flags" for b q
  proof -
    have "length default_flags = flags_size" "bytes_at default_flags 0 default_flags"
      by (simp_all add: bytes_at_def default_flags_def flags_size_def)
    then show ?thesis using copy_between_bytes_at [of default_flags 0 default_flags b q] by simp
  qed
  have q: "question_bytes (host, type_A, 1) = name_bytes (split_on (CHR ''.'') host) @ default_flags"
    by (simp add: question_bytes_def default_flags_int_bytes)
  show ?thesis
    using assms wf_host_first [OF assms] wf_host_no_nul [OF assms]
    unfolding q
    by (auto simp: dns_query_generateDomain_def dns_domain_generate_correct wf_host_def copy wr_n_append
        length_name_bytes_host parsed_query_def split: Option.bind_splits)
       (simp_all add: flags_size_def)
qed

section \<open>Question section\<close>

fun parsed_queries :: "nat \<Rightarrow> (string \<times> u16 \<times> u16) list \<Rightarrow> dns_query list" where
  "parsed_queries p [] = []"
| "parsed_queries p ((host, ty, cls) # qs) = parsed_query p host ty # parsed_queries (p + length host + 6) qs"

abbreviation questions_bytes :: "(string \<times> u16 \<times> u16) list \<Rightarrow> u8 list" where
  "questions_bytes qs \<equiv> concat (map question_bytes qs)"

abbreviation wf_questions :: "(string \<times> u16 \<times> u16) list \<Rightarrow> bool" where
  "wf_questions qs \<equiv> (\<forall>q \<in> set qs. wf_host (fst q))"

lemma length_parsed_queries [simp]: "length (parsed_queries p qs) = length qs"
  by (induction p qs rule: parsed_queries.induct) auto

lemma sum_parsed_queries: "sum_list (map q_len (parsed_queries p qs)) = length (questions_bytes qs)"
  by (induction p qs rule: parsed_queries.induct) (auto simp: parsed_query_def)

lemma zone_loop_questions:
  assumes "bytes_at buf p (questions_bytes qs)" and "wf_questions qs"
    and "length (questions_bytes qs) \<le> rest" and "rest \<le> len"
  shows "zone_loop buf p len (length acc + length qs) rest real acc =
           Some (acc @ parsed_queries p qs, real + length (questions_bytes qs), True)"
  using assms
proof (induction p qs arbitrary: rest real acc rule: parsed_queries.induct)
  case (1 p)
  then show ?case by (subst zone_loop.simps) simp
next
  case (2 p host ty cls qs)
  have "dns_query_parse buf p len = Some (parsed_query p host ty)"
    using "2.prems" by (intro dns_query_parse_question) (auto simp: mem_simps)
  moreover have "minus_u32 rest (length host + 6) = rest - (length host + 6)"
    using "2.prems" by (simp add: minus_u32_def)
  moreover have "zone_loop buf (p + length host + 6) len (length (acc @ [parsed_query p host ty]) + length qs)
      (rest - (length host + 6)) (real + (length host + 6)) (acc @ [parsed_query p host ty])
      = Some ((acc @ [parsed_query p host ty]) @ parsed_queries (p + length host + 6) qs,
              real + (length host + 6) + length (questions_bytes qs), True)"
    using "2.prems" by (intro "2.IH") (auto simp: mem_simps add.assoc)
  ultimately show ?case
    using "2.prems" by (subst zone_loop.simps) (simp add: parsed_query_def add.assoc)
qed

lemma dns_query_zone_parse_questions:
  assumes "bytes_at buf p (questions_bytes qs)" and "wf_questions qs"
    and "length (questions_bytes qs) \<le> len"
  shows "dns_query_zone_parse buf p len (length qs) =
           Some \<lparr>z_data = p, z_len = length (questions_bytes qs), z_valid = True,
                 querys = parsed_queries p qs, z_hosts = []\<rparr>"
  using zone_loop_questions [OF assms order_refl, of "[]" 0] by (simp add: dns_query_zone_parse_def)


lemma zone_queries_wr_n:
  assumes "\<forall>h \<in> set hosts. wf_host h"
  shows "zone_queries buf p hosts = (let qs = map (\<lambda>h. (h, type_A, 1)) hosts in
     do { buf' \<leftarrow> wr_n buf p (questions_bytes qs);
          Some (buf', parsed_queries p qs, p + length (questions_bytes qs)) })"
  using assms
proof (induction hosts arbitrary: buf p)
  case Nil
  then show ?case by simp
next
  case (Cons h hosts)
  then have "zone_queries b (p + length h + 6) hosts = (let qs = map (\<lambda>h. (h, type_A, 1)) hosts in
     do { buf' \<leftarrow> wr_n b (p + length h + 6) (questions_bytes qs);
          Some (buf', parsed_queries (p + length h + 6) qs, p + length h + 6 + length (questions_bytes qs)) })" for b
    by simp
  with Cons.prems show ?case
    by (simp add: dns_query_generateDomain_wr_n wr_n_append Let_def parsed_query_def add.assoc [symmetric]
        split: Option.bind_splits)
qed

lemma zone_copies_wr_n:
  assumes "bytes_at buf p (questions_bytes qs)" and "p + length (questions_bytes qs) \<le> dst"
  shows "zone_copies buf dst (parsed_queries p qs) = wr_n buf dst (questions_bytes qs)"
  using assms
proof (induction p qs arbitrary: buf dst rule: parsed_queries.induct)
  case (1 p)
  then show ?case by simp
next
  case (2 p host ty cls qs)
  let ?b = "question_bytes (host, ty, cls)"
  have b: "bytes_at buf p ?b" and rest: "bytes_at buf (p + length host + 6) (questions_bytes qs)"
    using "2.prems"(1) by (simp_all add: mem_simps add.assoc)
  have "copy_within buf p dst (length host + 6) = wr_n buf dst ?b"
    using copy_within_bytes_at [OF b, of dst] "2.prems"(2) by simp
  moreover have "zone_copies buf' (dst + (length host + 6)) (parsed_queries (p + length host + 6) qs)
      = wr_n buf' (dst + (length host + 6)) (questions_bytes qs)" if "wr_n buf dst ?b = Some buf'" for buf'
    using "2.prems"(2) wr_n_frame [OF that rest] by (intro "2.IH") simp_all
  ultimately show ?case
    by (simp add: parsed_query_def wr_n_append split: Option.bind_splits)
qed

text \<open>The questions a request carries: type A, class IN.\<close>

abbreviation host_questions :: "string list \<Rightarrow> (string \<times> u16 \<times> u16) list" where
  "host_questions hosts \<equiv> map (\<lambda>h. (h, type_A, 1)) hosts"

lemma dns_query_zone_generate_correct:
  assumes "\<forall>h \<in> set hosts. wf_host h" and "p + 2 * length (questions_bytes (host_questions hosts)) \<le> length buf"
  shows "\<exists>buf'. wr_n buf p (questions_bytes (host_questions hosts) @ questions_bytes (host_questions hosts)) = Some buf'
     \<and> dns_query_zone_generate buf p hosts =
         Some (buf', \<lparr>z_data = p + length (questions_bytes (host_questions hosts)),
                      z_len = length (questions_bytes (host_questions hosts)), z_valid = True,
                      querys = parsed_queries p (host_questions hosts), z_hosts = hosts\<rparr>)"
proof -
  let ?qs = "host_questions hosts"
  let ?bs = "questions_bytes ?qs"
  from assms(2) obtain b1 where b1: "wr_n buf p ?bs = Some b1"
    using wr_n_in_bounds [of p ?bs buf] by auto
  moreover have "p \<le> length buf" using assms(2) by linarith
  ultimately have at: "bytes_at b1 p ?bs" by (rule wr_n_bytes_at)
  have "length b1 = length buf" using b1 by (rule wr_n_length)
  then obtain b2 where b2: "wr_n b1 (p + length ?bs) ?bs = Some b2"
    using assms(2) wr_n_in_bounds [of "p + length ?bs" ?bs b1] by auto
  have "zone_copies b1 (p + length ?bs) (parsed_queries p ?qs) = Some b2"
    using zone_copies_wr_n [OF at order_refl] b2 by simp
  then show ?thesis
    using b1 b2 zone_queries_wr_n [OF assms(1), of buf p]
    by (simp add: dns_query_zone_generate_def wr_n_append sum_parsed_queries Let_def)
qed

section \<open>Resource records\<close>

definition resource_bytes :: "u32 \<Rightarrow> u32 \<Rightarrow> u8 list" where
  "resource_bytes ip expire = [0xC0, 12] @ int_bytes type_A @ int_bytes (1 :: u16) @ int_bytes expire
     @ int_bytes (4 :: u16) @ int_bytes ip"

lemma length_resource_bytes [simp]: "length (resource_bytes ip expire) = 16"
  by (simp add: resource_bytes_def)

lemma dns_resource_zone_generate_wr_n:
  "dns_resource_zone_generate buf p ip expire =
     do { buf' \<leftarrow> wr_n buf p (resource_bytes ip expire);
          Some (buf', \<lparr>r_data = p, r_len = 16, r_valid = True, r_domain = None, r_cname = None,
                  r_type = type_A, r_resource = 1, liveTime = expire, r_length = 0, ipv4s = [ip]\<rparr>) }"
  unfolding dns_resource_zone_generate_def resource_bytes_def write_u16 write_u32
  by (simp add: wr_n_append header_len_def single_ip_len_def numeral_2_eq_2 del: be_bytes.simps
      split: Option.bind_splits)

definition parsed_resource :: "nat \<Rightarrow> nat \<Rightarrow> string \<Rightarrow> u32 \<Rightarrow> u32 \<Rightarrow> dns_resource_zone" where
  "parsed_resource p b host ip expire = \<lparr>r_data = p + b, r_len = 16, r_valid = True,
     r_domain = Some \<lparr>d_data = p + b, d_len = 2, d_valid = True, domain = host\<rparr>, r_cname = None,
     r_type = type_A, r_resource = 1, liveTime = expire, r_length = 4, ipv4s = [ip]\<rparr>"

text \<open>
  A record that \<open>generate\<close> wrote behind a question reads back: its name is a pointer to the name
  at offset 12 of the message.
\<close>

lemma dns_resource_zone_parse_resource:
  assumes at: "bytes_at buf (p + b) (resource_bytes ip expire)" and wf: "wf_host host"
    and name: "bytes_at buf (p + 12) (name_bytes (split_on (CHR ''.'') host))"
    and b: "12 < b" "b < sz" and sz: "length host + 14 \<le> sz"
  shows "dns_resource_zone_parse buf p sz b = Some (parsed_resource p b host ip expire)"
proof -
  have head: "bytes_at buf (p + b) [0xC0, 12]"
    and rest: "bytes_at buf (p + b + 2) (int_bytes type_A @ int_bytes (1 :: u16) @ int_bytes expire
      @ int_bytes (4 :: u16) @ int_bytes ip)"
    using bytes_at_appendD [OF at [unfolded resource_bytes_def], of 2] by simp_all
  have ptr: "ptr_pos 0xC0 12 = 12" by (simp add: ptr_pos_def)
  have "parseRe buf p sz 12 (minus_u64 sz 12) [] (0 + 1) = Some (length host + 2, host)"
    using name wf sz by (intro parse_host) (simp_all add: minus_u64_def max_depth_def)
  then have "parseRe buf p sz b (minus_u64 sz b) [] 0 = Some (2, host)"
    using head b ptr
    by (intro parse_pointer [where high = "0xC0" and low = 12 and c = "length host + 2"])
       (simp_all add: mem_simps minus_u64_def)
  then have dom: "dns_domain_new buf p sz b = Some \<lparr>d_data = p + b, d_len = 2, d_valid = True, domain = host\<rparr>"
    by (simp add: dns_domain_new_def dns_domain_at_def dns_domain_parse_def)
  have ty: "read_int buf (p + b + 2) 0 = Some type_A"
    and cls: "read_int buf (p + b + 2 + 2) 0 = Some (1 :: u16)"
    and ttl: "read_int buf (p + b + 2 + 4) 0 = Some expire"
    and len: "read_int buf (p + b + 2 + 8) 0 = Some (4 :: u16)"
    and ips: "read_int buf (p + b + 2 + 10) 0 = Some ip"
    using rest
    by (auto simp: bytes_at_append add.assoc simp del: be_bytes.simps add_2_eq_Suc add_2_eq_Suc'
        intro!: u16_wire.dec_enc u32_wire.dec_enc)
  then show ?thesis
    using dom
    by (simp add: dns_resource_zone_parse_def resource_zone_init_def parsed_resource_def
        type_A_def type_CNAME_def)
qed

section \<open>Identifiers\<close>

lemma ids16_eq: "ids16 n gen = (map (\<lambda>i. gen + word_of_nat i) [0 ..< n], gen + word_of_nat n)"
proof (induction n arbitrary: gen)
  case 0
  then show ?case by simp
next
  case (Suc n)
  have "[0 ..< Suc n] = 0 # map Suc [0 ..< n]" by (simp add: map_Suc_upt upt_conv_Cons del: upt_Suc)
  then show ?case by (simp add: id16_def Suc o_def algebra_simps del: upt_Suc)
qed

section \<open>Properties\<close>

text \<open>
  The header of a message survives the wire: what \<open>dns_header::generate\<close> writes is read back
  by \<open>dns_header::parse\<close> with the same id, the counts as 16-bit numbers, the answer bit as asked
  for, and a zero opcode and response code.
\<close>

theorem dns_header_roundtrip:
  assumes "p + 12 \<le> length buf" and "12 \<le> len"
  shows "\<exists>buf' hdr. dns_header_generate buf p ident hostCount additionalCount ansCount isAnswer = Some (buf', hdr)
           \<and> dns_header_parse buf' p len = Some (Some
               \<lparr>h_data = p, h_len = 12, h_id = ident, answerCount = word_of_nat ansCount,
                questionCount = word_of_nat hostCount, responseCode = 0,
                qr = (if isAnswer then 0x80 else 0), opcode = 0\<rparr>)"
proof -
  let ?bs = "header_bytes ident hostCount additionalCount ansCount isAnswer"
  obtain buf' where wr: "wr_n buf p ?bs = Some buf'"
    using assms(1) wr_n_in_bounds [of p ?bs buf] by auto
  moreover have "p \<le> length buf" using assms(1) by linarith
  ultimately have "bytes_at buf' p ?bs" by (rule wr_n_bytes_at)
  from dns_header_parse_header_bytes [OF this assms(2)] wr show ?thesis
    by (simp add: dns_header_generate_wr_n parsed_header_def)
qed

theorem dns_header_roundtrip_witness:
  "\<exists>buf' hdr. dns_header_generate (replicate 14 0xFF) 1 0xBEEF 1 0 2 True = Some (buf', hdr)
     \<and> dns_header_parse buf' 1 13 = Some (Some
         \<lparr>h_data = 1, h_len = 12, h_id = 0xBEEF, answerCount = word_of_nat 2,
          questionCount = word_of_nat 1, responseCode = 0, qr = (if True then 0x80 else 0), opcode = 0\<rparr>)"
  by (rule dns_header_roundtrip) simp_all

text \<open>
  \<open>updateId\<close> changes the id of a message and nothing else: on a buffer that holds a full
  header, parsing it afterwards gives the old header with the new id. This is how one upstream
  answer is handed to clients that asked with other ids.
\<close>

theorem dns_header_updateId_parse:
  assumes "dns_header_parse buf p len = Some (Some hdr)"
  shows "\<exists>buf' hdr'. dns_header_updateId buf hdr ident = Some (buf', hdr') \<and> length buf' = length buf
           \<and> dns_header_parse buf' p len = Some (Some (hdr\<lparr>h_id := ident\<rparr>)) \<and> hdr' = hdr\<lparr>h_id := ident\<rparr>"
proof -
  from assms obtain b0 b1 b2 b3 qc ac where
    rd: "rd buf p = Some b0" "rd buf (p + 1) = Some b1" "rd buf (p + 2) = Some b2" "rd buf (p + 3) = Some b3"
      "read_int buf (p + 4) 0 = Some qc" "read_int buf (p + 6) 0 = Some ac" and len: "header_len \<le> len"
    and hdr: "hdr = \<lparr>h_data = p, h_len = header_len, h_id = push_bit 8 (ucast b0) OR ucast b1,
      answerCount = ac, questionCount = qc, responseCode = b3 AND 0x0F, qr = b2 AND 0x80,
      opcode = drop_bit 3 (b2 AND 0x78)\<rparr>"
    by (auto simp: dns_header_parse_def bind_eq_Some_conv split: if_splits)
  have "p + 1 < length buf" using rd(2) by (simp add: rd_def split: if_splits)
  then obtain buf' where wr: "wr_n buf p [ucast (drop_bit 8 ident), ucast ident] = Some buf'"
    using wr_n_in_bounds [of p "[ucast (drop_bit 8 ident), ucast ident]" buf] by auto
  have upd: "dns_header_updateId buf hdr ident = Some (buf', hdr\<lparr>h_id := ident\<rparr>)"
    using wr u16_halves(2) [of ident]
    by (auto simp: dns_header_updateId_def hdr bind_eq_Some_conv and.commute)
  have "bytes_at buf' p [ucast (drop_bit 8 ident), ucast ident]"
    by (rule wr_n_bytes_at [OF wr]) (use \<open>p + 1 < length buf\<close> in linarith)
  then have new: "rd buf' p = Some (ucast (drop_bit 8 ident))" "rd buf' (p + 1) = Some (ucast ident)"
    by (simp_all add: mem_simps)
  have same: "rd buf' i = rd buf i" if "p + 2 \<le> i" for i
    using wr_n_nth_other [OF wr, of i] wr_n_length [OF wr] that by (simp add: rd_def)
  have "read_loop buf' q n r = read_loop buf q n (r :: u16)" if "p + 2 \<le> q" for q n r
    using that by (induction n arbitrary: q r) (auto simp: same)
  then have "dns_header_parse buf' p len = Some (Some (hdr\<lparr>h_id := ident\<rparr>))"
    using rd len new u16_halves(3) [of ident]
    by (simp add: dns_header_parse_def hdr same read_int_def)
  with upd wr_n_length [OF wr] show ?thesis by simp
qed

theorem dns_header_updateId_parse_witness:
  "\<exists>buf' hdr'. dns_header_updateId (replicate 12 0x11)
       \<lparr>h_data = 0, h_len = 12, h_id = 0x1111, answerCount = 0x1111, questionCount = 0x1111,
        responseCode = 1, qr = 0, opcode = 2\<rparr> 0x2222 = Some (buf', hdr')
     \<and> length buf' = length (replicate 12 (0x11 :: u8))
     \<and> dns_header_parse buf' 0 12 = Some (Some
         (\<lparr>h_data = 0, h_len = 12, h_id = 0x1111, answerCount = 0x1111, questionCount = 0x1111,
          responseCode = 1, qr = 0, opcode = 2\<rparr>\<lparr>h_id := 0x2222\<rparr>))
     \<and> hdr' = \<lparr>h_data = 0, h_len = 12, h_id = 0x1111, answerCount = 0x1111, questionCount = 0x1111,
          responseCode = 1, qr = 0, opcode = 2\<rparr>\<lparr>h_id := 0x2222\<rparr>"
  by (rule dns_header_updateId_parse) code_simp

text \<open>
  Request ids do not repeat within any window of at most \<open>2 ^ 16\<close> requests, wherever the
  counter starts and although it wraps around.
\<close>

theorem ids16_distinct:
  assumes "n \<le> 2 ^ 16"
  shows "distinct (fst (ids16 n gen))"
proof -
  have "inj_on (\<lambda>i. gen + word_of_nat i) {0 ..< n}"
  proof (rule inj_onI)
    fix i j assume ij: "i \<in> {0 ..< n}" "j \<in> {0 ..< n}" "gen + word_of_nat i = gen + word_of_nat j"
    then have "unat (word_of_nat i :: u16) = unat (word_of_nat j :: u16)" by simp
    then have "i mod 2 ^ 16 = j mod 2 ^ 16" by (simp only: unat_of_nat take_bit_eq_mod) simp
    with ij assms show "i = j" by simp
  qed
  then show ?thesis by (simp add: ids16_eq distinct_map)
qed

theorem ids16_distinct_witness: "distinct (fst (ids16 5 0xFFFE))"
  by (rule ids16_distinct) simp

text \<open>
  The data of every record that is not a CNAME is taken for IPv4 addresses when its length is
  a multiple of four: a record of type AAAA yields the four words of its IPv6 address as four
  addresses.
\<close>

theorem dns_resource_zone_parse_aaaa:
  assumes "dns_domain_new buf p sz b = Some dd" and "d_valid dd"
    and "bytes_at buf (p + b + d_len dd)
           (int_bytes type_AAAA @ int_bytes (cls :: u16) @ int_bytes (ttl :: u32) @ int_bytes (16 :: u16)
            @ concat (map int_bytes [w1, w2, w3, w4]))"
  shows "\<exists>rz. dns_resource_zone_parse buf p sz b = Some rz \<and> r_valid rz \<and> ipv4s rz = [w1, w2, w3, w4]"
proof -
  let ?q = "p + b + d_len dd"
  have at: "bytes_at buf ?q (int_bytes type_AAAA)" "bytes_at buf (?q + 2) (int_bytes (cls :: u16))"
    "bytes_at buf (?q + 4) (int_bytes ttl)" "bytes_at buf (?q + 8) (int_bytes (16 :: u16))"
    "bytes_at buf (?q + 10) (concat (map int_bytes [w1, w2, w3, w4]))"
    using assms(3)
    by (auto simp: bytes_at_append add.assoc simp del: be_bytes.simps add_2_eq_Suc add_2_eq_Suc' concat.simps list.map)
  have "read_int buf (?q + 10 + i * 4) 0 = Some ([w1, w2, w3, w4] ! i)" if "i < 4" for i
    using u32_wire.dec_nth_concat [OF at(5)] that by simp
  from this [of 0] this [of 1] this [of 2] this [of 3]
  have "read_ips buf (?q + 10) 4 = Some [w1, w2, w3, w4]"
    by (simp add: add.assoc numeral_eq_Suc)
  then show ?thesis
    using assms(1,2) u16_wire.dec_enc [OF at(1)] u16_wire.dec_enc [OF at(2)] u32_wire.dec_enc [OF at(3)]
      u16_wire.dec_enc [OF at(4)]
    by (simp add: dns_resource_zone_parse_def resource_zone_init_def type_AAAA_def type_CNAME_def
        del: read_ips.simps)
qed

theorem dns_resource_zone_parse_aaaa_witness:
  "\<exists>rz. dns_resource_zone_parse ([1, 120, 0] @ [0, 28, 0, 1, 0, 0, 0, 60, 0, 16, 0x20, 1, 0xd, 0xb8,
     0, 0, 0, 0, 0, 0, 0, 0, 0, 0, 0, 1]) 0 29 0 = Some rz
     \<and> r_valid rz \<and> ipv4s rz = [0x20010db8, 0, 0, 1]"
proof (rule dns_resource_zone_parse_aaaa [where cls = 1 and ttl = 60])
  show "dns_domain_new ([1, 120, 0] @ [0, 28, 0, 1, 0, 0, 0, 60, 0, 16, 0x20, 1, 0xd, 0xb8,
     0, 0, 0, 0, 0, 0, 0, 0, 0, 0, 0, 1]) 0 29 0 = Some \<lparr>d_data = 0, d_len = 3, d_valid = True, domain = ''x''\<rparr>"
    by code_simp
  show "bytes_at ([1, 120, 0] @ [0, 28, 0, 1, 0, 0, 0, 60, 0, 16, 0x20, 1, 0xd, 0xb8,
     0, 0, 0, 0, 0, 0, 0, 0, 0, 0, 0, 1]) (0 + 0 + d_len \<lparr>d_data = 0, d_len = 3, d_valid = True, domain = ''x''\<rparr>)
     (int_bytes type_AAAA @ int_bytes (1 :: u16) @ int_bytes (60 :: u32) @ int_bytes (16 :: u16)
            @ concat (map int_bytes [0x20010db8 :: u32, 0, 0, 1]))"
    by code_simp
qed simp

end
