(* ===== verification/Pool.thy ===== *)
theory Pool
  imports St_Prelude
begin

text \<open>
  The memory pool of \<open>src/common/main/utils/pool.h\<close> and \<open>pool.cpp\<close>: five pools of fixed chunks and two
  counters of bytes, and \<open>basic_data::alloc\<close> of \<open>src/core/protocol/dns_message.cpp\<close>, which takes a
  chunk and clears the requested part of it. The pools of Boost themselves are represented by the
  sizes of the chunks that are out. \<open>None\<close> is the exception beyond 16 KiB.
\<close>

section \<open>Model\<close>

record pool =
  freeNum :: u64
  mallocNum :: u64
  live_chunks :: "nat list"

definition pool_new :: pool where
  "pool_new = \<lparr>freeNum = 0, mallocNum = 0, live_chunks = []\<rparr>"

definition free_size :: "pool \<Rightarrow> u64" where
  "free_size p = freeNum p"

definition malloc_size :: "pool \<Rightarrow> u64" where
  "malloc_size p = mallocNum p"

definition leak_size :: "pool \<Rightarrow> u64" where
  "leak_size p = mallocNum p - freeNum p"

text \<open>The cascade of sizes, the same in \<open>pmalloc\<close> and \<open>pfree\<close>.\<close>

definition pool_chunk :: "nat \<Rightarrow> nat option" where
  "pool_chunk sz =
     (if sz \<le> 8 then Some 8
      else if sz \<le> 1024 then Some 1024
      else if sz \<le> 2048 then Some 2048
      else if sz \<le> 4096 then Some 4096
      else if sz \<le> 1024 * 16 then Some (1024 * 16)
      else None)"

definition pmalloc :: "nat \<Rightarrow> pool \<Rightarrow> (nat \<times> pool) option" where
  "pmalloc sz p = (case pool_chunk sz of
     None \<Rightarrow> None
   | Some n \<Rightarrow> Some (n, p\<lparr>mallocNum := mallocNum p + word_of_nat n, live_chunks := n # live_chunks p\<rparr>))"

definition pfree :: "nat \<Rightarrow> pool \<Rightarrow> pool option" where
  "pfree sz p = (case pool_chunk sz of
     None \<Rightarrow> None
   | Some n \<Rightarrow> Some (p\<lparr>freeNum := freeNum p + word_of_nat n, live_chunks := remove1 n (live_chunks p)\<rparr>))"

text \<open>
  \<open>basic_data::alloc\<close>: the data are the bytes of a chunk, of which the first \<open>sz\<close> are set to zero;
  what the rest holds is not specified, and zero here too. No caller asks for more than 16 KiB,
  where the allocation throws; the empty buffer stands for that.
\<close>

definition alloc_data :: "nat \<Rightarrow> buffer" where
  "alloc_data sz = (case pool_chunk sz of Some n \<Rightarrow> replicate n 0 | None \<Rightarrow> [])"

section \<open>Lemmas\<close>

lemma pool_chunk_ge: "pool_chunk sz = Some n \<Longrightarrow> sz \<le> n \<and> n \<le> 16384"
  by (auto simp: pool_chunk_def split: if_splits)

lemma pool_chunk_idem: "pool_chunk sz = Some n \<Longrightarrow> pool_chunk n = Some n"
  by (auto simp: pool_chunk_def split: if_splits)

lemma alloc_data_numerals [simp]:
  "alloc_data 1024 = replicate 1024 0" "alloc_data 1026 = replicate 2048 0"
  "alloc_data 2048 = replicate 2048 0" "alloc_data 2 = replicate 8 0"
  by (simp_all add: alloc_data_def pool_chunk_def)

text \<open>
  A program that gives back what it got, with the size that \<open>pmalloc\<close> reported: \<open>True\<close> allocates a
  size, \<open>False\<close> frees a chunk that is out.
\<close>

inductive pool_step :: "pool \<Rightarrow> pool \<Rightarrow> bool" where
  malloc: "pmalloc sz p = Some (n, p') \<Longrightarrow> pool_step p p'"
| free: "n \<in> set (live_chunks p) \<Longrightarrow> pfree n p = Some p' \<Longrightarrow> pool_step p p'"

definition pool_inv :: "pool \<Rightarrow> bool" where
  "pool_inv p \<longleftrightarrow> leak_size p = word_of_nat (sum_list (live_chunks p))
     \<and> (\<forall>n \<in> set (live_chunks p). pool_chunk n = Some n)"

lemma sum_list_remove1_nat: "n \<in> set ns \<Longrightarrow> sum_list ns = n + sum_list (remove1 n ns)" for n :: nat
  by (induction ns) auto

lemma pool_inv_step: "pool_step p p' \<Longrightarrow> pool_inv p \<Longrightarrow> pool_inv p'"
proof (induction rule: pool_step.induct)
  case (malloc sz p n p')
  then have n: "pool_chunk sz = Some n" and p': "p' = p\<lparr>mallocNum := mallocNum p + word_of_nat n, live_chunks := n # live_chunks p\<rparr>"
    by (auto simp: pmalloc_def split: option.splits)
  have "leak_size p' = word_of_nat n + leak_size p" by (simp add: p' leak_size_def algebra_simps)
  with malloc.prems show ?case by (simp add: pool_inv_def p' pool_chunk_idem [OF n])
next
  case (free n p p')
  then have p': "p' = p\<lparr>freeNum := freeNum p + word_of_nat n, live_chunks := remove1 n (live_chunks p)\<rparr>"
    by (auto simp: pfree_def pool_inv_def)
  have "leak_size p = word_of_nat n + word_of_nat (sum_list (remove1 n (live_chunks p)))"
    using free.prems sum_list_remove1_nat [OF free.hyps(1)] by (simp add: pool_inv_def)
  then have "leak_size p' = word_of_nat (sum_list (remove1 n (live_chunks p)))"
    by (simp add: p' leak_size_def algebra_simps)
  moreover have "\<forall>k \<in> set (remove1 n (live_chunks p)). pool_chunk k = Some k"
    using free.prems set_remove1_subset by (fastforce simp: pool_inv_def)
  ultimately show ?case by (simp add: pool_inv_def p')
qed

interpretation pool_machine: state_machine pool_step pool_inv
  by unfold_locales (rule pool_inv_step)

section \<open>Properties\<close>

text \<open>
  C36. The accounting of the memory pool: in every run that frees chunks with the sizes it was given,
  \<open>leak_size\<close> is the number of bytes in chunks that are out, modulo \<open>2^64\<close>, although the counters
  count chunks and the callers ask for sizes; every chunk is at least as large as the size asked
  for, and freeing it finds its own pool.
\<close>

theorem leak_size_counts_live:
  assumes "pool_step\<^sup>*\<^sup>* pool_new p"
  shows "leak_size p = word_of_nat (sum_list (live_chunks p))
       \<and> (\<forall>sz n p'. pmalloc sz p = Some (n, p') \<longrightarrow> sz \<le> n \<and>
            (\<exists>p''. pfree n p' = Some p'' \<and> live_chunks p'' = live_chunks p \<and> leak_size p'' = leak_size p))"
proof -
  have "pool_inv pool_new" by (simp add: pool_inv_def pool_new_def leak_size_def)
  then have inv: "pool_inv p" by (rule pool_machine.reachable [OF assms])
  have "sz \<le> n \<and> (\<exists>p''. pfree n p' = Some p'' \<and> live_chunks p'' = live_chunks p \<and> leak_size p'' = leak_size p)"
    if "pmalloc sz p = Some (n, p')" for sz n p'
  proof -
    from that have n: "pool_chunk sz = Some n"
      and p': "p' = p\<lparr>mallocNum := mallocNum p + word_of_nat n, live_chunks := n # live_chunks p\<rparr>"
      by (auto simp: pmalloc_def split: option.splits)
    show ?thesis using pool_chunk_ge [OF n] pool_chunk_idem [OF n] by (simp add: pfree_def p' leak_size_def)
  qed
  with inv show ?thesis by (simp add: pool_inv_def)
qed

theorem leak_size_counts_live_witness:
  "\<exists>p. pmalloc 1026 pool_new = Some (2048, p) \<and> leak_size p = word_of_nat (sum_list (live_chunks p)) \<and> leak_size p = 2048"
proof -
  obtain p where p: "pmalloc 1026 pool_new = Some (2048, p)" "live_chunks p = [2048]"
    by (simp add: pmalloc_def pool_chunk_def pool_new_def)
  have "pool_step\<^sup>*\<^sup>* pool_new p" using pool_step.malloc [OF p(1)] by (rule r_into_rtranclp)
  from leak_size_counts_live [OF this] p show ?thesis by (intro exI [of _ p]) simp
qed

end
