(* ===== verification/Request.thy ===== *)
theory Request
  imports Dns_Message Pool
begin

unbundle bit_operations_syntax

text \<open>
  DNS requests, \<open>src/core/protocol/request.h\<close> and \<open>request.cpp\<close>: building a query for a list of
  hosts (UDP, and TCP with its length prefix), parsing what a client sent, and the EDNS record.
  A request owns its buffer, so the model keeps the buffer in the record. It comes from the
  memory pool, so it may be larger than asked for.
\<close>

section \<open>Model\<close>

record udp_request =
  rq_buf :: buffer
  rq_len :: nat
  rq_valid :: bool
  rq_header :: "dns_header option"
  rq_zone :: "dns_query_zone option"
  rq_hosts :: "string list"

definition udp_request_alloc :: "nat \<Rightarrow> udp_request" where
  "udp_request_alloc len = \<lparr>rq_buf = alloc_data len, rq_len = len, rq_valid = True,
     rq_header = None, rq_zone = None, rq_hosts = []\<rparr>"

definition udp_request_mark_invalid :: "udp_request \<Rightarrow> udp_request" where
  "udp_request_mark_invalid req = req\<lparr>rq_valid := False, rq_len := 0\<rparr>"

definition udp_request_init :: "udp_request \<Rightarrow> nat \<Rightarrow> string list \<Rightarrow> u16 \<Rightarrow> (udp_request \<times> u16) option" where
  "udp_request_init req data hosts gen = do {
     ((buf1, header), gen') \<leftarrow> dns_header_generateQuery (rq_buf req) data (length hosts) gen;
     (buf2, query_zone) \<leftarrow> dns_query_zone_generate buf1 (data + h_len header) hosts;
     Some (req\<lparr>rq_buf := buf2, rq_header := Some header, rq_zone := Some query_zone, rq_hosts := hosts,
               rq_len := h_len header + z_len query_zone\<rparr>, gen') }"

definition udp_request_new :: "string list \<Rightarrow> u16 \<Rightarrow> (udp_request \<times> u16) option" where
  "udp_request_new hosts gen = udp_request_init (udp_request_alloc 1024) 0 hosts gen"

definition size_header :: nat where
  "size_header = 2"

definition tcp_request_new :: "string list \<Rightarrow> u16 \<Rightarrow> (udp_request \<times> u16) option" where
  "tcp_request_new hosts gen = do {
     (req, gen') \<leftarrow> udp_request_init (udp_request_alloc (1024 + size_header)) 2 hosts gen;
     let dataLen = (word_of_nat (rq_len req) :: u16);
     buf \<leftarrow> copy_between (to_bytes dataLen) 0 (rq_buf req) 0 size_header;
     Some (req\<lparr>rq_buf := buf, rq_len := rq_len req + size_header\<rparr>, gen') }"

definition query_hosts :: "dns_query list \<Rightarrow> string list" where
  "query_hosts qs = filter (\<lambda>s. s \<noteq> []) (map (\<lambda>q. case q_domain q of Some d \<Rightarrow> domain d | None \<Rightarrow> []) qs)"

text \<open>\<open>parse\<close> returns the request and its validity. A zone without questions is printed first.\<close>

definition udp_request_parse :: "udp_request \<Rightarrow> nat \<Rightarrow> (udp_request \<times> bool) option" where
  "udp_request_parse req n = do {
     req' \<leftarrow>
       (if header_len < n then do {
          hdr \<leftarrow> dns_header_parse (rq_buf req) 0 header_len;
          case hdr of
            None \<Rightarrow> Some (udp_request_mark_invalid req)
          | Some header \<Rightarrow> do {
              let req1 = req\<lparr>rq_header := Some header\<rparr>;
              queryZone \<leftarrow> dns_query_zone_parse (rq_buf req) header_len (n - header_len)
                              (unat (questionCount header));
              if z_valid queryZone then
                (if querys queryZone = [] then do {
                   out \<leftarrow> print_hex (rq_buf req) 0 (rq_len req1);
                   Some (udp_request_mark_invalid req1) }
                 else Some (req1\<lparr>rq_zone := Some queryZone,
                                 rq_hosts := rq_hosts req1 @ query_hosts (querys queryZone)\<rparr>))
              else Some (udp_request_mark_invalid req1) } }
        else Some (udp_request_mark_invalid req));
     Some (req'\<lparr>rq_len := n\<rparr>, rq_valid req') }"

definition udp_request_get_host :: "udp_request \<Rightarrow> string" where
  "udp_request_get_host req = (if rq_hosts req = [] then [] else hd (rq_hosts req))"

text \<open>\<open>query_zone->querys[0]\<close>: \<open>None\<close> when the pointer is null or the vector is empty.\<close>

definition udp_request_get_query_type :: "udp_request \<Rightarrow> u16 option" where
  "udp_request_get_query_type req = do {
     zone \<leftarrow> rq_zone req;
     (case querys zone of [] \<Rightarrow> None | q # qs \<Rightarrow> Some (queryTypeValue q)) }"

definition edns_generate :: "u32 \<Rightarrow> u8 list" where
  "edns_generate ip =
     [0,
      0, 41,
      0x10, 0,
      0, 0, 0, 0,
      0, 12,
      0, 0x08,
      0, 8,
      0, 1,
      0, 0,
      ucast (drop_bit (8 * 3) ip AND 0xFF), ucast (drop_bit (8 * 2) ip AND 0xFF),
      ucast (drop_bit (8 * 1) ip AND 0xFF), ucast (ip AND 0xFF)]"

section \<open>What a built request holds\<close>

text \<open>The bytes of a query for \<open>hosts\<close> with id \<open>gen\<close>.\<close>

definition query_bytes :: "u16 \<Rightarrow> string list \<Rightarrow> u8 list" where
  "query_bytes gen hosts = header_bytes gen (length hosts) 0 0 False @ questions_bytes (host_questions hosts)"

definition query_fits :: "string list \<Rightarrow> bool" where
  "query_fits hosts \<longleftrightarrow> (\<forall>h \<in> set hosts. wf_host h)
     \<and> 12 + 2 * length (questions_bytes (host_questions hosts)) \<le> 1024"

lemma length_query_bytes: "length (query_bytes gen hosts) = 12 + length (questions_bytes (host_questions hosts))"
  by (simp add: query_bytes_def)

lemma udp_request_init_correct:
  assumes fits: "query_fits hosts" and len: "1024 + data \<le> length (rq_buf req)"
  shows "\<exists>buf zone. udp_request_init req data hosts gen =
           Some (req\<lparr>rq_buf := buf,
                     rq_header := Some \<lparr>h_data = data, h_len = 12, h_id = gen, answerCount = 0, questionCount = 0,
                       responseCode = 0, qr = 0, opcode = 0\<rparr>,
                     rq_zone := Some zone, rq_hosts := hosts, rq_len := length (query_bytes gen hosts)\<rparr>, gen + 1)
         \<and> bytes_at buf data (query_bytes gen hosts) \<and> length buf = length (rq_buf req)"
proof -
  let ?hb = "header_bytes gen (length hosts) 0 0 False"
  let ?qb = "questions_bytes (host_questions hosts)"
  have room: "data + 12 + 2 * length ?qb \<le> length (rq_buf req)"
    using fits len unfolding query_fits_def by linarith
  obtain b1 where b1: "wr_n (rq_buf req) data ?hb = Some b1"
    using wr_n_in_bounds [of data ?hb "rq_buf req"] len by auto
  have l1: "length b1 = length (rq_buf req)" by (rule wr_n_length [OF b1])
  have at1: "bytes_at b1 data ?hb" by (rule wr_n_bytes_at [OF b1]) (use len in linarith)
  obtain b2 zone where b2: "wr_n b1 (data + 12) (?qb @ ?qb) = Some b2"
    and zone: "dns_query_zone_generate b1 (data + 12) hosts = Some (b2, zone)" "z_len zone = length ?qb"
    using dns_query_zone_generate_correct [of hosts "data + 12" b1] fits room l1
    unfolding query_fits_def by auto
  have "bytes_at b2 data ?hb" by (rule wr_n_frame [OF b2 at1]) simp
  moreover have "bytes_at b2 (data + 12) (?qb @ ?qb)"
    by (rule wr_n_bytes_at [OF b2]) (use room l1 in linarith)
  ultimately have "bytes_at b2 data (query_bytes gen hosts)"
    by (simp add: query_bytes_def bytes_at_append)
  moreover have "length b2 = length (rq_buf req)" using wr_n_length [OF b2] l1 by simp
  ultimately show ?thesis
    using b1 zone
    by (intro exI [of _ b2] exI [of _ zone])
       (simp add: udp_request_init_def dns_header_generateQuery_def dns_header_generate_wr_n id16_def
        length_query_bytes)
qed

lemma udp_request_new_correct:
  assumes "query_fits hosts"
  shows "\<exists>u. udp_request_new hosts gen = Some (u, gen + 1) \<and> rq_len u = length (query_bytes gen hosts)
           \<and> bytes_at (rq_buf u) 0 (query_bytes gen hosts) \<and> map_option h_id (rq_header u) = Some gen"
  using udp_request_init_correct [OF assms, of 0 "udp_request_alloc 1024" gen]
  by (auto simp: udp_request_new_def udp_request_alloc_def)

lemma tcp_request_new_correct:
  assumes "query_fits hosts" and "pre = int_bytes (word_of_nat (length (query_bytes gen hosts)) :: u16)"
  shows "\<exists>t. tcp_request_new hosts gen = Some (t, gen + 1) \<and> rq_len t = length (query_bytes gen hosts) + 2
           \<and> bytes_at (rq_buf t) 0 (pre @ query_bytes gen hosts) \<and> map_option h_id (rq_header t) = Some gen"
proof -
  let ?q = "query_bytes gen hosts"
  obtain t where t: "udp_request_init (udp_request_alloc 1026) 2 hosts gen = Some (t, gen + 1)"
    "rq_len t = length ?q" "map_option h_id (rq_header t) = Some gen"
    and tat: "bytes_at (rq_buf t) 2 ?q" and tlen: "length (rq_buf t) = 2048"
    using udp_request_init_correct [OF assms(1), of 2 "udp_request_alloc 1026" gen]
    by (auto simp: udp_request_alloc_def)
  have len: "length pre = 2" by (simp add: assms(2))
  have pre: "to_bytes (word_of_nat (length ?q) :: u16) = pre"
    by (simp add: assms(2) to_bytes_def to_bytes_loop_be_bytes)
  obtain b where b: "wr_n (rq_buf t) 0 pre = Some b"
    using wr_n_in_bounds [of 0 pre "rq_buf t"] tlen len by auto
  have "copy_between pre 0 (rq_buf t) 0 2 = Some b"
    using copy_between_bytes_at [of pre 0 pre "rq_buf t" 0] b len by (simp add: bytes_at_def)
  with t pre have new: "tcp_request_new hosts gen = Some (t\<lparr>rq_buf := b, rq_len := length ?q + 2\<rparr>, gen + 1)"
    by (simp add: tcp_request_new_def size_header_def)
  have "bytes_at b 0 pre" by (rule wr_n_bytes_at [OF b]) simp
  moreover have "bytes_at b 2 ?q" by (rule wr_n_frame [OF b tat]) (simp add: len)
  ultimately have "bytes_at b 0 (pre @ ?q)" by (simp add: bytes_at_append len numeral_2_eq_2)
  with new t(3) show ?thesis by simp
qed

lemma bytes_at_take: "bytes_at buf 0 bs \<Longrightarrow> take (length bs) buf = bs"
  by (simp add: bytes_at_def)

lemma query_hosts_parsed: "\<forall>q \<in> set qs. fst q \<noteq> [] \<Longrightarrow> query_hosts (parsed_queries p qs) = map fst qs"
  by (induction p qs rule: parsed_queries.induct) (auto simp: query_hosts_def parsed_query_def)

lemma parsed_queries_Nil [simp]: "parsed_queries p qs = [] \<longleftrightarrow> qs = []"
  by (cases qs) auto

text \<open>A parse of any well-formed questions behind a header.\<close>

lemma udp_request_parse_questions:
  assumes at: "bytes_at (rq_buf req) 0 (header_bytes ident (length qs) ad ac ans @ questions_bytes qs)"
    and wf: "wf_questions qs" and qs: "qs \<noteq> []" "length qs < 2 ^ 16"
    and n: "n = 12 + length (questions_bytes qs)"
  shows "udp_request_parse req n = Some (req\<lparr>rq_header := Some (parsed_header 0 ident (length qs) ac ans),
           rq_zone := Some \<lparr>z_data = 12, z_len = length (questions_bytes qs), z_valid = True,
                            querys = parsed_queries 12 qs, z_hosts = []\<rparr>,
           rq_hosts := rq_hosts req @ map fst qs, rq_len := n\<rparr>, rq_valid req)"
proof -
  note at' = bytes_at_appendD [OF at length_header_bytes]
  have hdr: "dns_header_parse (rq_buf req) 0 header_len =
      Some (Some (parsed_header 0 ident (length qs) ac ans))"
    using at'(1) by (intro dns_header_parse_header_bytes) (simp_all add: header_len_def)
  have count: "unat (questionCount (parsed_header 0 ident (length qs) ac ans)) = length qs"
    using qs(2) by (simp add: parsed_header_def unat_of_nat take_bit_nat_eq_self)
  have zone: "dns_query_zone_parse (rq_buf req) 12 (length (questions_bytes qs)) (length qs) =
      Some \<lparr>z_data = 12, z_len = length (questions_bytes qs), z_valid = True,
            querys = parsed_queries 12 qs, z_hosts = []\<rparr>"
    using at'(2) wf by (intro dns_query_zone_parse_questions) simp_all
  have "question_bytes (hd qs) \<noteq> []"
    using length_question_bytes [of "fst (hd qs)" "fst (snd (hd qs))" "snd (snd (hd qs))"] by fastforce
  with qs(1) have "0 < length (questions_bytes qs)" by (cases qs) auto
  moreover have "query_hosts (parsed_queries 12 qs) = map fst qs"
    using wf wf_host_first by (intro query_hosts_parsed) blast
  ultimately show ?thesis
    using hdr count zone qs(1) by (simp add: udp_request_parse_def n header_len_def)
qed

text \<open>
  After a parse the question section exists exactly when the request is valid. So every
  access to the query type of a request whose parse failed dereferences a null pointer.
\<close>

lemma udp_request_parse_query_type:
  assumes "udp_request_parse req n = Some (r, ok)" and "rq_valid req" and "rq_zone req = None"
  shows "udp_request_get_query_type r = None \<longleftrightarrow> \<not> ok"
proof (cases "header_len < n")
  case False
  with assms show ?thesis
    by (auto simp: udp_request_parse_def udp_request_get_query_type_def udp_request_mark_invalid_def)
next
  case True
  then obtain hdr where hdr: "dns_header_parse (rq_buf req) 0 header_len = Some hdr"
    using assms(1) by (auto simp: udp_request_parse_def bind_eq_Some_conv)
  show ?thesis
  proof (cases hdr)
    case None
    with assms True hdr show ?thesis
      by (auto simp: udp_request_parse_def udp_request_get_query_type_def udp_request_mark_invalid_def)
  next
    case (Some h)
    with assms(1) True hdr obtain z where
      z: "dns_query_zone_parse (rq_buf req) header_len (n - header_len) (unat (questionCount h)) = Some z"
      by (auto simp: udp_request_parse_def Let_def bind_eq_Some_conv)
    note parse = assms(1) [unfolded udp_request_parse_def]
    show ?thesis
    proof (cases "z_valid z \<and> querys z \<noteq> []")
      case True
      with parse \<open>header_len < n\<close> hdr Some z assms(2) show ?thesis
        by (auto simp: udp_request_get_query_type_def neq_Nil_conv)
    next
      case False
      with parse \<open>header_len < n\<close> hdr Some z assms(3) show ?thesis
        by (cases "z_valid z") (auto simp: udp_request_get_query_type_def udp_request_mark_invalid_def bind_eq_Some_conv)
    qed
  qed
qed

section \<open>Overflow of the request buffer\<close>

lemma sub_lens_length:
  "length (fst (sub_lens s i b tot acc)) + snd (sub_lens s i b tot acc) = length acc + tot + length s + 1"
  by (induction s arbitrary: i b tot acc) auto

lemma emit_chars_length: "emit_chars host js buf p = Some (buf', q) \<Longrightarrow> length buf' = length buf"
  by (induction js arbitrary: buf p) (auto simp: bind_eq_Some_conv dest: wr_length)

lemma emit_labels_length: "emit_labels host ls buf p = Some (buf', q) \<Longrightarrow> length buf' = length buf"
proof (induction host ls buf p rule: emit_labels.induct)
  case (1 host buf p)
  then show ?case by simp
next
  case (2 host a b ls buf p)
  then show ?case
    by (fastforce simp: bind_eq_Some_conv Let_def dest: wr_length emit_chars_length)
qed

lemma copy_between_length: "copy_between src sp dst dp n = Some dst' \<Longrightarrow> length dst' = length dst"
  by (induction n arbitrary: sp dst dp) (auto simp: bind_eq_Some_conv dest: wr_length)

lemma copy_within_out_of_bounds: "0 < n \<Longrightarrow> length buf < dst + n \<Longrightarrow> copy_within buf src dst n = None"
proof (induction n arbitrary: buf src dst)
  case 0
  then show ?case by simp
next
  case (Suc n)
  then show ?case
    by (cases "n = 0") (auto simp: wr_def split: Option.bind_splits)
qed

lemma dns_query_generateDomain_len:
  assumes "dns_query_generateDomain buf p host = Some (buf', q)" and "CHR 0x00 \<notin> set host"
  shows "q_len q = length host + 6 \<and> length buf' = length buf"
proof -
  obtain subs tot where sl: "sub_lens (c_str host) 0 0 0 [] = (subs, tot)" by fastforce
  then have "length subs + tot = length host + 1"
    using sub_lens_length [of "c_str host" 0 0 0 "[]"] assms(2) by (simp add: c_str_id)
  with assms(1) sl show ?thesis
    by (auto simp: dns_query_generateDomain_def dns_domain_generate_def flags_size_def bind_eq_Some_conv
        dest!: emit_labels_length wr_length copy_between_length)
qed

section \<open>Properties\<close>

text \<open>What a server socket reads into a fresh request object: the datagram, then old bytes.\<close>

definition received :: "u8 list \<Rightarrow> u8 list \<Rightarrow> udp_request" where
  "received msg rest = (udp_request_alloc 1024)\<lparr>rq_buf := msg @ rest\<rparr>"

text \<open>
  C12. Building and parsing of requests agree: a query built for a list of well-formed hosts that
  fits the buffer is parsed as a valid request for the same hosts in the same order, with the id
  taken from the generator and query type A; the generator moves on by one.
\<close>

theorem udp_request_roundtrip:
  assumes "query_fits hosts" and "hosts \<noteq> []"
  shows "\<exists>req r. udp_request_new hosts gen = Some (req, gen + 1)
           \<and> udp_request_parse (received (take (rq_len req) (rq_buf req)) rest) (rq_len req) = Some (r, True)
           \<and> rq_hosts r = hosts \<and> map_option h_id (rq_header r) = Some gen
           \<and> udp_request_get_host r = hd hosts \<and> udp_request_get_query_type r = Some type_A"
proof -
  obtain buf zone where new: "udp_request_new hosts gen =
      Some ((udp_request_alloc 1024)\<lparr>rq_buf := buf,
              rq_header := Some \<lparr>h_data = 0, h_len = 12, h_id = gen, answerCount = 0, questionCount = 0,
                       responseCode = 0, qr = 0, opcode = 0\<rparr>,
              rq_zone := Some zone, rq_hosts := hosts, rq_len := length (query_bytes gen hosts)\<rparr>, gen + 1)"
    and at: "bytes_at buf 0 (query_bytes gen hosts)"
    using udp_request_init_correct [OF assms(1), of 0 "udp_request_alloc 1024" gen]
    by (auto simp: udp_request_new_def udp_request_alloc_def)
  let ?qs = "host_questions hosts"
  let ?srv = "received (query_bytes gen hosts) rest"
  have "length hosts \<le> length (questions_bytes ?qs)" by (induction hosts) auto
  then have small: "length ?qs < 2 ^ 16" using assms(1) unfolding query_fits_def by simp
  have "udp_request_parse ?srv (length (query_bytes gen hosts)) =
      Some (?srv\<lparr>rq_header := Some (parsed_header 0 gen (length ?qs) 0 False),
           rq_zone := Some \<lparr>z_data = 12, z_len = length (questions_bytes ?qs), z_valid = True,
                            querys = parsed_queries 12 ?qs, z_hosts = []\<rparr>,
           rq_hosts := rq_hosts ?srv @ map fst ?qs, rq_len := length (query_bytes gen hosts)\<rparr>, rq_valid ?srv)"
    using assms small
    by (intro udp_request_parse_questions [where ad = 0])
       (auto simp: received_def query_bytes_def query_fits_def bytes_at_def)
  with new bytes_at_take [OF at] assms(2) show ?thesis
    by (cases hosts)
       (simp_all add: received_def udp_request_alloc_def parsed_header_def udp_request_get_host_def
        udp_request_get_query_type_def parsed_query_def o_def)
qed

theorem udp_request_roundtrip_witness:
  "\<exists>req r. udp_request_new [''www.baidu.com'', ''qq.com''] 0xFFFF = Some (req, 0xFFFF + 1)
     \<and> udp_request_parse (received (take (rq_len req) (rq_buf req)) [0xFF]) (rq_len req) = Some (r, True)
     \<and> rq_hosts r = [''www.baidu.com'', ''qq.com''] \<and> map_option h_id (rq_header r) = Some 0xFFFF
     \<and> udp_request_get_host r = hd [''www.baidu.com'', ''qq.com'']
     \<and> udp_request_get_query_type r = Some type_A"
  by (rule udp_request_roundtrip) (simp_all add: query_fits_def wf_host_def wf_label_def)

text \<open>
  A TCP request is the UDP request for the same hosts and id behind two bytes that hold its
  length in network order.
\<close>

theorem tcp_request_prefix:
  assumes "query_fits hosts"
  shows "\<exists>t u. tcp_request_new hosts gen = Some (t, gen + 1) \<and> udp_request_new hosts gen = Some (u, gen + 1)
           \<and> rq_len t = rq_len u + 2
           \<and> take (rq_len t) (rq_buf t) = int_bytes (word_of_nat (rq_len u) :: u16) @ take (rq_len u) (rq_buf u)
           \<and> read_int (rq_buf t) 0 0 = Some (word_of_nat (rq_len u) :: u16)"
proof -
  let ?q = "query_bytes gen hosts"
  let ?pre = "int_bytes (word_of_nat (length ?q) :: u16)"
  obtain u where u: "udp_request_new hosts gen = Some (u, gen + 1)" "rq_len u = length ?q" "bytes_at (rq_buf u) 0 ?q"
    using udp_request_new_correct [OF assms] by blast
  obtain t where t: "tcp_request_new hosts gen = Some (t, gen + 1)" "rq_len t = length ?q + 2"
    "bytes_at (rq_buf t) 0 (?pre @ ?q)"
    using tcp_request_new_correct [OF assms] by blast
  have "take (length ?q + 2) (rq_buf t) = ?pre @ ?q" using bytes_at_take [OF t(3)] by simp
  moreover have "bytes_at (rq_buf t) 0 ?pre" using t(3) by (simp add: bytes_at_append del: be_bytes.simps)
  ultimately show ?thesis
    using t u bytes_at_take [OF u(3)] u16_wire.dec_enc [of "rq_buf t" 0] by simp
qed

theorem tcp_request_prefix_witness:
  "\<exists>t u. tcp_request_new [''qq.com''] 7 = Some (t, 7 + 1) \<and> udp_request_new [''qq.com''] 7 = Some (u, 7 + 1)
     \<and> rq_len t = rq_len u + 2
     \<and> take (rq_len t) (rq_buf t) = int_bytes (word_of_nat (rq_len u) :: u16) @ take (rq_len u) (rq_buf u)
     \<and> read_int (rq_buf t) 0 0 = Some (word_of_nat (rq_len u) :: u16)"
  by (rule tcp_request_prefix) (simp add: query_fits_def wf_host_def wf_label_def)

text \<open>
  A host of more than 500 characters overruns the 1024 bytes of the request: the question
  section writes every question twice, and the second copy does not fit. Names of that length
  can arrive in a client's datagram.
\<close>

theorem udp_request_new_long_host_overflow:
  assumes "CHR 0x00 \<notin> set host" and "500 < length host"
  shows "udp_request_new [host] gen = None"
proof (rule ccontr)
  assume "udp_request_new [host] gen \<noteq> None"
  then obtain b1 hdr b2 q where h: "dns_header_generate (replicate 1024 0) 0 gen 1 0 0 False = Some (b1, hdr)"
    and q: "dns_query_generateDomain b1 (h_len hdr) host = Some (b2, q)"
    and c: "copy_within b2 (q_data q) (h_len hdr + q_len q) (q_len q) \<noteq> None"
    by (auto simp: udp_request_new_def udp_request_init_def udp_request_alloc_def dns_header_generateQuery_def
        dns_query_zone_generate_def id16_def Let_def split: Option.bind_splits)
  have "length b1 = 1024" and "h_len hdr = 12"
    using h by (auto simp: dns_header_generate_wr_n bind_eq_Some_conv dest!: wr_n_length)
  with dns_query_generateDomain_len [OF q assms(1)] assms(2) c show False
    using copy_within_out_of_bounds [of "q_len q" b2 "h_len hdr + q_len q" "q_data q"] by simp
qed

theorem udp_request_new_long_host_overflow_witness:
  "udp_request_new [replicate 501 (CHR ''a'')] 1 = None"
  by (rule udp_request_new_long_host_overflow) simp_all

text \<open>
  A datagram whose header announces no question is printed before it is refused, and printing
  a byte with a nibble 15 reads past the table of hexadecimal digits.
\<close>

theorem udp_request_no_question_prints_outside_table:
  assumes "dns_header_parse (rq_buf req) 0 header_len = Some (Some header)" and "questionCount header = 0"
    and "header_len < n" and "i < rq_len req" and "rd (rq_buf req) i = Some b" and "b AND 0x0F = 0x0F"
  shows "udp_request_parse req n = None"
proof -
  have "unat (0x0F :: u8) = 15" by simp
  then have "print_hex_byte b = None" using assms(6) by (simp add: print_hex_byte_def hex_chars_def Let_def)
  then have "print_hex_loop (rq_buf req) 0 k m = None" if "k \<le> i" "i < k + m" for k m
    using that assms(5)
  proof (induction m arbitrary: k)
    case 0
    then show ?case by simp
  next
    case (Suc m)
    then show ?case by (cases "k = i") (auto split: Option.bind_splits)
  qed
  from this [of 0 "rq_len req"] assms(4) have "print_hex (rq_buf req) 0 (rq_len req) = None"
    by (simp add: print_hex_def)
  moreover have "dns_query_zone_parse (rq_buf req) header_len (n - header_len) 0 =
      Some \<lparr>z_data = header_len, z_len = 0, z_valid = True, querys = [], z_hosts = []\<rparr>"
    by (simp add: dns_query_zone_parse_def zone_loop.simps)
  ultimately show ?thesis
    using assms by (simp add: udp_request_parse_def)
qed

theorem udp_request_no_question_prints_outside_table_witness:
  "udp_request_parse ((received ([0, 15, 0, 0, 0, 0, 0, 0, 0, 0, 0, 0, 0]) [])\<lparr>rq_len := 13\<rparr>) 13 = None"
proof (rule udp_request_no_question_prints_outside_table)
  show "dns_header_parse (rq_buf ((received ([0, 15, 0, 0, 0, 0, 0, 0, 0, 0, 0, 0, 0]) [])\<lparr>rq_len := 13\<rparr>)) 0 header_len
    = Some (Some \<lparr>h_data = 0, h_len = 12, h_id = 15, answerCount = 0, questionCount = 0,
                  responseCode = 0, qr = 0, opcode = 0\<rparr>)"
    by code_simp
  show "rd (rq_buf ((received ([0, 15, 0, 0, 0, 0, 0, 0, 0, 0, 0, 0, 0]) [])\<lparr>rq_len := 13\<rparr>)) 1 = Some 15"
    by (simp add: received_def rd_def)
qed (simp_all add: header_len_def)

end
