(* ===== verification/Response.thy ===== *)
theory Response
  imports Request
begin

unbundle bit_operations_syntax

text \<open>
  DNS responses, \<open>src/core/protocol/response.h\<close> and \<open>response.cpp\<close>: the parser that the client
  side runs on upstream answers (UDP, and TCP with its length prefix), and the constructor that
  answers a request from a record. A UDP response owns its buffer; the one inside a TCP response
  points into the TCP buffer, so the record keeps the offset of its first byte.
\<close>

section \<open>Model\<close>

record udp_response =
  rs_buf :: buffer
  rs_data :: nat
  rs_len :: nat
  rs_valid :: bool
  rs_header :: "dns_header option"
  rs_zone :: "dns_query_zone option"
  answerZones :: "dns_resource_zone list"
  rs_ips :: "u32 list"

definition udp_response_at :: "buffer \<Rightarrow> nat \<Rightarrow> nat \<Rightarrow> udp_response" where
  "udp_response_at buf data len = \<lparr>rs_buf = buf, rs_data = data, rs_len = len, rs_valid = True,
     rs_header = None, rs_zone = None, answerZones = [], rs_ips = []\<rparr>"

definition udp_response_alloc :: "nat \<Rightarrow> udp_response" where
  "udp_response_alloc len = udp_response_at (alloc_data len) 0 len"

definition udp_response_mark_invalid :: "udp_response \<Rightarrow> udp_response" where
  "udp_response_mark_invalid resp = resp\<lparr>rs_valid := False, rs_len := 0\<rparr>"

definition udp_response_fist_ip :: "udp_response \<Rightarrow> u32" where
  "udp_response_fist_ip resp = (if rs_ips resp \<noteq> [] then hd (rs_ips resp) else 0)"

subsection \<open>Parsing\<close>

text \<open>
  The inner loop over the announced answers. The last argument counts the answers still to come;
  with the response it returns what is left unparsed and the size of the answers.
\<close>

fun answer_loop :: "nat \<Rightarrow> udp_response \<Rightarrow> nat \<Rightarrow> nat \<Rightarrow> nat \<Rightarrow> (udp_response \<times> nat \<times> nat) option" where
  "answer_loop max_readable resp rest azs 0 = Some (resp, rest, azs)"
| "answer_loop max_readable resp rest azs (Suc k) = do {
     answer \<leftarrow> dns_resource_zone_parse (rs_buf resp) (rs_data resp) max_readable (minus_u64 max_readable rest);
     if r_valid answer
     then answer_loop max_readable
            (resp\<lparr>answerZones := answerZones resp @ [answer], rs_ips := rs_ips resp @ ipv4s answer\<rparr>)
            (minus_u64 rest (r_len answer)) (azs + r_len answer) k
     else Some (udp_response_mark_invalid resp, rest, azs) }"

lemma answer_loop_count:
  "answer_loop mr resp rest azs k = Some (resp', rest', azs') \<Longrightarrow>
     rs_valid resp' \<Longrightarrow> length (answerZones resp') = length (answerZones resp) + k"
  by (induction mr resp rest azs k rule: answer_loop.induct)
     (auto simp: bind_eq_Some_conv udp_response_mark_invalid_def split: if_splits)

lemma answer_loop_keeps:
  "answer_loop mr resp rest azs k = Some (resp', rest', azs') \<Longrightarrow>
     rs_header resp' = rs_header resp \<and> rs_zone resp' = rs_zone resp \<and> rs_buf resp' = rs_buf resp
     \<and> rs_data resp' = rs_data resp"
  by (induction mr resp rest azs k rule: answer_loop.induct)
     (auto simp: bind_eq_Some_conv udp_response_mark_invalid_def split: if_splits)

text \<open>
  The outer \<open>while\<close> loop: it parses the header in its first round, the question section in the
  second, all answers in the third, and ends in the fourth, or earlier when a part is invalid
  or the response code is an error.
\<close>

function parse_loop :: "nat \<Rightarrow> udp_response \<Rightarrow> nat \<Rightarrow> nat \<Rightarrow> nat \<Rightarrow> udp_response option" where
  "parse_loop max_readable resp dataZone rest azs =
     (if rs_valid resp then
        (case rs_header resp of
           None \<Rightarrow> do {
             parseHeader \<leftarrow> dns_header_parse (rs_buf resp) dataZone rest;
             (case parseHeader of
                None \<Rightarrow> Some (udp_response_mark_invalid resp)
              | Some h \<Rightarrow> parse_loop max_readable (resp\<lparr>rs_header := Some h\<rparr>) (dataZone + h_len h)
                            (minus_u64 rest (h_len h)) azs) }
         | Some h \<Rightarrow>
             (if responseCode h = 0 then
                (case rs_zone resp of
                   None \<Rightarrow> do {
                     zone \<leftarrow> dns_query_zone_parse (rs_buf resp) dataZone rest (unat (questionCount h));
                     if \<not> z_valid zone then Some (udp_response_mark_invalid resp)
                     else parse_loop max_readable (resp\<lparr>rs_zone := Some zone\<rparr>) (dataZone + z_len zone)
                            (minus_u64 rest (z_len zone)) azs }
                 | Some zone \<Rightarrow>
                     (if length (answerZones resp) < unat (answerCount h) then do {
                        (resp', rest', azs') \<leftarrow> answer_loop max_readable resp (minus_u64 rest azs) azs
                            (unat (answerCount h) - length (answerZones resp));
                        parse_loop max_readable resp' (dataZone + azs + (azs' - azs)) rest' azs' }
                      else Some resp))
              else Some resp))
      else Some resp)"
  by pat_completeness auto
termination
  by (relation "measure (\<lambda>(mr, resp, dz, rest, azs).
        if \<not> rs_valid resp then 0
        else case rs_header resp of None \<Rightarrow> 4
             | Some h \<Rightarrow> (case rs_zone resp of None \<Rightarrow> 3
                 | Some z \<Rightarrow> (if length (answerZones resp) < unat (answerCount h) then 2 else 1)))")
     (auto simp: answer_loop_count answer_loop_keeps split: option.splits)

declare parse_loop.simps [simp del]

definition udp_response_parse :: "udp_response \<Rightarrow> nat \<Rightarrow> udp_response option" where
  "udp_response_parse resp0 max_readable = do {
     let resp = resp0\<lparr>rs_valid := True\<rparr>;
     resp' \<leftarrow> (if header_len < max_readable
               then parse_loop max_readable resp (rs_data resp) max_readable 0
               else Some (udp_response_mark_invalid resp));
     Some (resp'\<lparr>rs_len := max_readable\<rparr>) }"

record tcp_response =
  t_buf :: buffer
  t_len :: nat
  t_valid :: bool
  data_size :: u16
  t_response :: "udp_response option"

definition tcp_response_alloc :: "nat \<Rightarrow> tcp_response" where
  "tcp_response_alloc len = \<lparr>t_buf = alloc_data len, t_len = len, t_valid = True, data_size = 0, t_response = None\<rparr>"

definition tcp_response_mark_invalid :: "tcp_response \<Rightarrow> tcp_response" where
  "tcp_response_mark_invalid t = t\<lparr>t_valid := False, t_len := 0\<rparr>"

definition tcp_response_parse :: "tcp_response \<Rightarrow> nat \<Rightarrow> tcp_response option" where
  "tcp_response_parse t maxReadable = do {
     t' \<leftarrow> (if 2 < maxReadable then do {
              sz \<leftarrow> read_int (t_buf t) 0 (data_size t);
              let t1 = t\<lparr>data_size := sz\<rparr>;
              if unat sz = maxReadable - 2 then do {
                resp \<leftarrow> udp_response_parse (udp_response_at (t_buf t) 2 (unat sz)) (unat sz);
                if rs_valid resp then Some (t1\<lparr>t_response := Some resp\<rparr>)
                else Some (tcp_response_mark_invalid t1) }
              else Some (tcp_response_mark_invalid t1) }
            else Some (tcp_response_mark_invalid t));
     Some (t'\<lparr>t_len := maxReadable\<rparr>) }"

subsection \<open>Answering a request\<close>

definition max_answer_ips :: nat where
  "max_answer_ips = 5"

text \<open>
  The loop that appends one record per address and stops when the next would reach 512 bytes.
\<close>

fun append_answers :: "u32 \<Rightarrow> udp_response \<Rightarrow> nat \<Rightarrow> nat \<Rightarrow> u32 list \<Rightarrow> (udp_response \<times> nat) option" where
  "append_answers expire resp cur finalLen [] = Some (resp, finalLen)"
| "append_answers expire resp cur finalLen (ip # ips) =
     (if max_response_len \<le> finalLen + single_ip_len then Some (resp, finalLen)
      else do {
        (buf, rz) \<leftarrow> dns_resource_zone_generate (rs_buf resp) cur ip expire;
        append_answers expire
          (resp\<lparr>rs_buf := buf, answerZones := answerZones resp @ [rz], rs_ips := rs_ips resp @ [ip]\<rparr>)
          (cur + r_len rz) (finalLen + r_len rz) ips })"

definition udp_response_new :: "udp_request \<Rightarrow> u32 list \<Rightarrow> u32 \<Rightarrow> udp_response option" where
  "udp_response_new request record_ips expire = do {
     let resp = udp_response_alloc 1024;
     let ips = (if max_answer_ips \<le> length record_ips then take max_answer_ips record_ips else record_ips);
     rh \<leftarrow> rq_header request;
     (buf1, header) \<leftarrow> dns_header_generateAnswer (rs_buf resp) 0 (h_id rh)
        (case rq_zone request of Some zone \<Rightarrow> length (querys zone) | None \<Rightarrow> 0) (length ips);
     let resp1 = resp\<lparr>rs_buf := buf1, rs_header := Some header\<rparr>;
     (resp2, cur, finalLen) \<leftarrow>
       (case rq_zone request of
          Some rzone \<Rightarrow> do {
            (buf2, zone) \<leftarrow> dns_query_zone_copy (rq_buf request) rzone buf1 (h_len header);
            Some (resp1\<lparr>rs_buf := buf2, rs_zone := Some zone\<rparr>, h_len header + z_len zone, h_len header + z_len zone) }
        | None \<Rightarrow> Some (resp1, h_len header, h_len header));
     (resp3, finalLen') \<leftarrow>
       (if ips \<noteq> [] then append_answers expire resp2 cur finalLen ips else Some (resp2, finalLen));
     Some (resp3\<lparr>rs_len := finalLen'\<rparr>) }"

section \<open>Parsing invariants\<close>

text \<open>The addresses of a response are those of its answers, in order.\<close>

definition answers_ok :: "udp_response \<Rightarrow> bool" where
  "answers_ok resp \<longleftrightarrow> rs_ips resp = concat (map ipv4s (answerZones resp)) \<and> (\<forall>a \<in> set (answerZones resp). r_valid a)"

lemma answer_loop_ok:
  "answer_loop mr resp rest azs k = Some (resp', rest', azs') \<Longrightarrow> answers_ok resp \<Longrightarrow> answers_ok resp'"
  by (induction mr resp rest azs k rule: answer_loop.induct)
     (auto simp: bind_eq_Some_conv udp_response_mark_invalid_def answers_ok_def split: if_splits)

text \<open>What the end of the outer loop guarantees when it starts with no answers.\<close>

definition parse_done :: "udp_response \<Rightarrow> bool" where
  "parse_done resp \<longleftrightarrow> answers_ok resp \<and>
     (rs_valid resp \<longrightarrow> (\<exists>h. rs_header resp = Some h \<and>
        (if responseCode h = 0 then rs_zone resp \<noteq> None \<and> length (answerZones resp) = unat (answerCount h)
         else answerZones resp = [])))"

definition no_answers :: "udp_response \<Rightarrow> bool" where
  "no_answers resp \<longleftrightarrow> answerZones resp = [] \<and> rs_ips resp = []"

text \<open>The rounds of the outer loop, one equation each.\<close>

lemma parse_loop_stop:
  assumes "\<not> rs_valid resp \<or> (\<exists>h. rs_header resp = Some h \<and> responseCode h \<noteq> 0)"
  shows "parse_loop mr resp dz rest azs = Some resp"
  using assms by (subst parse_loop.simps) auto

lemma parse_loop_header:
  assumes "rs_valid resp" and "rs_header resp = None"
  shows "parse_loop mr resp dz rest azs = do {
     ph \<leftarrow> dns_header_parse (rs_buf resp) dz rest;
     (case ph of None \<Rightarrow> Some (udp_response_mark_invalid resp)
      | Some h \<Rightarrow> parse_loop mr (resp\<lparr>rs_header := Some h\<rparr>) (dz + h_len h) (minus_u64 rest (h_len h)) azs) }"
  using assms by (subst parse_loop.simps) simp

lemma parse_loop_zone:
  assumes "rs_valid resp" and "rs_header resp = Some h" and "responseCode h = 0" and "rs_zone resp = None"
  shows "parse_loop mr resp dz rest azs = do {
     zone \<leftarrow> dns_query_zone_parse (rs_buf resp) dz rest (unat (questionCount h));
     if \<not> z_valid zone then Some (udp_response_mark_invalid resp)
     else parse_loop mr (resp\<lparr>rs_zone := Some zone\<rparr>) (dz + z_len zone) (minus_u64 rest (z_len zone)) azs }"
  using assms by (subst parse_loop.simps) simp

lemma parse_loop_answers:
  assumes "rs_valid resp" and "rs_header resp = Some h" and "responseCode h = 0" and "rs_zone resp = Some zone"
  shows "parse_loop mr resp dz rest 0 =
     map_option fst (answer_loop mr resp rest 0 (unat (answerCount h) - length (answerZones resp)))"
proof (cases "length (answerZones resp) < unat (answerCount h)")
  case False
  with assms show ?thesis by (subst parse_loop.simps) simp
next
  case True
  have stop: "parse_loop mr resp' dz' rest' azs' = Some resp'"
    if "answer_loop mr resp rest 0 (unat (answerCount h) - length (answerZones resp)) = Some (resp', rest', azs')"
    for resp' dz' rest' azs'
  proof (cases "rs_valid resp'")
    case False
    then show ?thesis by (simp add: parse_loop_stop)
  next
    case valid: True
    then have "length (answerZones resp') = unat (answerCount h)"
      using answer_loop_count [OF that] True by simp
    with valid answer_loop_keeps [OF that] assms show ?thesis by (subst parse_loop.simps) simp
  qed
  have "minus_u64 rest 0 = rest" by (simp add: minus_u64_def)
  with assms True show ?thesis
    by (subst parse_loop.simps)
       (cases "answer_loop mr resp rest 0 (unat (answerCount h) - length (answerZones resp))"; auto simp: stop)
qed

lemma parse_done_invalid: "no_answers resp \<Longrightarrow> parse_done (udp_response_mark_invalid resp)"
  by (simp add: parse_done_def udp_response_mark_invalid_def answers_ok_def no_answers_def)

lemma parse_done_stop:
  "no_answers resp \<Longrightarrow> \<not> rs_valid resp \<or> (\<exists>h. rs_header resp = Some h \<and> responseCode h \<noteq> 0) \<Longrightarrow> parse_done resp"
  by (auto simp: parse_done_def answers_ok_def no_answers_def)

lemma parse_loop_answers_done:
  assumes "parse_loop mr resp dz rest 0 = Some resp'" and "no_answers resp" and "rs_valid resp"
    and "rs_header resp = Some h" and "rs_zone resp = Some zone"
  shows "parse_done resp'"
proof (cases "responseCode h = 0")
  case False
  with assms show ?thesis by (auto simp: parse_loop_stop intro: parse_done_stop)
next
  case True
  with assms obtain rest' azs' where
    al: "answer_loop mr resp rest 0 (unat (answerCount h) - length (answerZones resp)) = Some (resp', rest', azs')"
    by (auto simp: parse_loop_answers)
  show ?thesis
    using answer_loop_ok [OF al] answer_loop_count [OF al] answer_loop_keeps [OF al] assms(2,4,5) True
    by (auto simp: parse_done_def no_answers_def answers_ok_def)
qed

lemma parse_loop_zone_done:
  assumes "parse_loop mr resp dz rest 0 = Some resp'" and "no_answers resp" and "rs_valid resp"
    and "rs_header resp = Some h"
  shows "parse_done resp'"
proof (cases "responseCode h = 0 \<and> rs_zone resp = None")
  case False
  with assms show ?thesis
    by (cases "responseCode h = 0") (auto simp: parse_loop_stop intro: parse_loop_answers_done parse_done_stop)
next
  case True
  with assms obtain zone where
    zone: "dns_query_zone_parse (rs_buf resp) dz rest (unat (questionCount h)) = Some zone"
    by (auto simp: parse_loop_zone bind_eq_Some_conv)
  show ?thesis
  proof (cases "z_valid zone")
    case False
    with assms True zone show ?thesis by (auto simp: parse_loop_zone parse_done_invalid)
  next
    case valid: True
    with assms True zone show ?thesis
      by (intro parse_loop_answers_done [where resp = "resp\<lparr>rs_zone := Some zone\<rparr>"])
         (simp_all add: parse_loop_zone no_answers_def)
  qed
qed

lemma parse_loop_done:
  assumes "parse_loop mr resp dz rest 0 = Some resp'" and "no_answers resp"
  shows "parse_done resp'"
proof (cases "rs_valid resp \<and> rs_header resp = None")
  case False
  with assms show ?thesis
    by (cases "rs_valid resp") (auto simp: parse_loop_stop intro: parse_loop_zone_done parse_done_stop)
next
  case True
  with assms obtain ph where ph: "dns_header_parse (rs_buf resp) dz rest = Some ph"
    by (auto simp: parse_loop_header bind_eq_Some_conv)
  show ?thesis
  proof (cases ph)
    case None
    with assms True ph show ?thesis by (auto simp: parse_loop_header parse_done_invalid)
  next
    case (Some h)
    with assms True ph show ?thesis
      by (intro parse_loop_zone_done [where resp = "resp\<lparr>rs_header := Some h\<rparr>"])
         (simp_all add: parse_loop_header no_answers_def)
  qed
qed

lemma udp_response_parse_done:
  assumes "udp_response_parse (udp_response_at buf p len) mr = Some r" and "rs_valid r"
  shows "parse_done r"
proof -
  from assms obtain r' where r: "r = r'\<lparr>rs_len := mr\<rparr>"
    and loop: "parse_loop mr (udp_response_at buf p len) p mr 0 = Some r'"
    by (auto simp: udp_response_parse_def udp_response_at_def udp_response_mark_invalid_def bind_eq_Some_conv Let_def
        split: if_splits)
  have "parse_done r'"
    by (rule parse_loop_done [OF loop]) (simp add: no_answers_def udp_response_at_def)
  with r show ?thesis by (auto simp: parse_done_def answers_ok_def)
qed

section \<open>Answers on the wire\<close>

abbreviation answers_bytes :: "u32 \<Rightarrow> u32 list \<Rightarrow> u8 list" where
  "answers_bytes expire ips \<equiv> concat (map (\<lambda>ip. resource_bytes ip expire) ips)"

lemma length_answers_bytes [simp]: "length (answers_bytes expire ips) = 16 * length ips"
  by (induction ips) auto

fun parsed_answers :: "nat \<Rightarrow> nat \<Rightarrow> string \<Rightarrow> u32 \<Rightarrow> u32 list \<Rightarrow> dns_resource_zone list" where
  "parsed_answers p b host expire [] = []"
| "parsed_answers p b host expire (ip # ips) = parsed_resource p b host ip expire # parsed_answers p (b + 16) host expire ips"

lemma minus_u64_minus: "c \<le> m \<Longrightarrow> minus_u64 m (m - c) = c" "c \<le> m \<Longrightarrow> minus_u64 m c = m - c"
  by (simp_all add: minus_u64_def)

lemma answer_loop_answers:
  assumes "bytes_at (rs_buf resp) (rs_data resp + b) (answers_bytes expire ips)"
    and "bytes_at (rs_buf resp) (rs_data resp + 12) (name_bytes (split_on (CHR ''.'') host))"
    and "wf_host host" and "length host + 14 \<le> b" and "b + 16 * length ips \<le> mr"
  shows "\<exists>rest azs'. answer_loop mr resp (mr - b) azs (length ips) =
     Some (resp\<lparr>answerZones := answerZones resp @ parsed_answers (rs_data resp) b host expire ips,
                rs_ips := rs_ips resp @ ips\<rparr>, rest, azs')"
  using assms
proof (induction ips arbitrary: resp b azs)
  case Nil
  then show ?case by simp
next
  case (Cons ip ips)
  let ?rz = "parsed_resource (rs_data resp) b host ip expire"
  let ?resp = "resp\<lparr>answerZones := answerZones resp @ [?rz], rs_ips := rs_ips resp @ [ip]\<rparr>"
  have at: "bytes_at (rs_buf resp) (rs_data resp + b) (resource_bytes ip expire)"
    "bytes_at (rs_buf resp) (rs_data resp + (b + 16)) (answers_bytes expire ips)"
    using Cons.prems(1) by (simp_all add: mem_simps add.assoc)
  have "dns_resource_zone_parse (rs_buf resp) (rs_data resp) mr b = Some ?rz"
    using at(1) Cons.prems(2-5) by (intro dns_resource_zone_parse_resource) simp_all
  moreover obtain rest azs' where "answer_loop mr ?resp (mr - (b + 16)) (azs + 16) (length ips) =
      Some (?resp\<lparr>answerZones := answerZones ?resp @ parsed_answers (rs_data ?resp) (b + 16) host expire ips,
                 rs_ips := rs_ips ?resp @ ips\<rparr>, rest, azs')"
    using Cons.IH [of ?resp "b + 16" "azs + 16"] at(2) Cons.prems(2-5) by auto
  ultimately show ?case
    using Cons.prems(5) by (simp add: minus_u64_minus parsed_resource_def)
qed

text \<open>
  A message with well-formed questions and answers parses completely. Pointers in the answers
  refer to the first question.
\<close>

lemma parse_message:
  assumes at: "bytes_at (rs_buf resp) (rs_data resp)
                 (header_bytes ident (length qs) ad (length ips) ans @ questions_bytes qs @ answers_bytes expire ips)"
    and fresh: "rs_header resp = None" "rs_zone resp = None" "answerZones resp = []" "rs_ips resp = []"
    and wf: "wf_questions qs" "qs \<noteq> []" "length qs < 2 ^ 16" "length ips < 2 ^ 16"
    and mr: "mr = 12 + length (questions_bytes qs) + 16 * length ips"
  shows "\<exists>r. udp_response_parse resp mr = Some r \<and> rs_valid r \<and> rs_ips r = ips \<and> rs_len r = mr
           \<and> length (answerZones r) = length ips \<and> (\<forall>a \<in> set (answerZones r). liveTime a = expire)
           \<and> rs_header r = Some (parsed_header (rs_data resp) ident (length qs) (length ips) ans)"
proof -
  let ?h = "parsed_header (rs_data resp) ident (length qs) (length ips) ans"
  let ?z = "\<lparr>z_data = rs_data resp + 12, z_len = length (questions_bytes qs), z_valid = True,
             querys = parsed_queries (rs_data resp + 12) qs, z_hosts = []\<rparr>"
  let ?r2 = "resp\<lparr>rs_valid := True, rs_header := Some ?h, rs_zone := Some ?z\<rparr>"
  note at1 = bytes_at_appendD [OF at length_header_bytes]
  note at2 = bytes_at_appendD [OF at1(2) refl]
  obtain host ty cls qs' where qs: "qs = (host, ty, cls) # qs'" using wf(2) by (cases qs) auto
  have name: "bytes_at (rs_buf resp) (rs_data resp + 12) (name_bytes (split_on (CHR ''.'') host))"
    using at2(1) by (simp add: qs question_bytes_def mem_simps)
  have wfh: "wf_host host" using wf(1) qs by simp
  have hdr: "dns_header_parse (rs_buf resp) (rs_data resp) mr = Some (Some ?h)"
    using at1(1) mr by (intro dns_header_parse_header_bytes) simp_all
  have zone: "dns_query_zone_parse (rs_buf resp) (rs_data resp + 12) (mr - 12) (length qs) = Some ?z"
    using at2(1) wf(1) mr by (intro dns_query_zone_parse_questions) simp_all
  have counts: "unat (questionCount ?h) = length qs" "unat (answerCount ?h) = length ips"
    using wf(3,4) by (simp_all add: parsed_header_def unat_of_nat take_bit_nat_eq_self)
  have "length host + 14 \<le> 12 + length (questions_bytes qs)" by (simp add: qs)
  then obtain rest azs' where al: "answer_loop mr ?r2 (mr - (12 + length (questions_bytes qs))) 0 (length ips) =
      Some (?r2\<lparr>answerZones := answerZones ?r2 @ parsed_answers (rs_data ?r2) (12 + length (questions_bytes qs)) host expire ips,
                rs_ips := rs_ips ?r2 @ ips\<rparr>, rest, azs')"
    using answer_loop_answers [of ?r2 "12 + length (questions_bytes qs)" expire ips host mr 0] at2(2) name wfh mr
    by (auto simp: add.assoc)
  have rc: "responseCode ?h = 0" "h_len ?h = 12" by (simp_all add: parsed_header_def)
  have "parse_loop mr (resp\<lparr>rs_valid := True\<rparr>) (rs_data resp) mr 0 =
      Some (?r2\<lparr>answerZones := parsed_answers (rs_data resp) (12 + length (questions_bytes qs)) host expire ips,
                rs_ips := ips\<rparr>)"
    using fresh hdr zone counts al rc mr
    by (simp add: parse_loop_header parse_loop_zone [where h = ?h] parse_loop_answers [where h = ?h] minus_u64_minus)
  moreover have "length (parsed_answers p b host expire is) = length is"
    "\<forall>a \<in> set (parsed_answers p b host expire is). liveTime a = expire" for p b "is"
    by (induction "is" arbitrary: b) (auto simp: parsed_resource_def)
  moreover have "header_len < mr" by (simp add: mr header_len_def qs)
  ultimately show ?thesis by (simp add: udp_response_parse_def)
qed

section \<open>Answers the server writes\<close>

text \<open>How many of \<open>n\<close> addresses fit behind \<open>len\<close> bytes.\<close>

definition fitting :: "nat \<Rightarrow> nat \<Rightarrow> nat" where
  "fitting len n = min n ((511 - len) div 16)"

lemma fitting_0 [simp]: "fitting len 0 = 0"
  by (simp add: fitting_def)

lemma fitting_Suc: "fitting len (Suc n) = (if 512 \<le> len + 16 then 0 else Suc (fitting (len + 16) n))"
proof (cases "512 \<le> len + 16")
  case True
  then show ?thesis by (simp add: fitting_def)
next
  case False
  then have "(511 - len) div 16 = ((511 - (len + 16)) + 16) div 16" by (intro arg_cong2 [where f = "(div)"]) linarith+
  also have "\<dots> = Suc ((511 - (len + 16)) div 16)" by (rule div_add_self2 [THEN trans]) simp_all
  finally have "(511 - len) div 16 = Suc ((511 - (len + 16)) div 16)" .
  with False show ?thesis by (simp add: fitting_def)
qed

lemma append_answers_correct:
  assumes "len + 16 * length ips \<le> length (rs_buf resp)"
  shows "\<exists>buf zs. append_answers expire resp len len ips =
           Some (resp\<lparr>rs_buf := buf, answerZones := answerZones resp @ zs,
                      rs_ips := rs_ips resp @ take (fitting len (length ips)) ips\<rparr>,
                 len + 16 * fitting len (length ips))
         \<and> wr_n (rs_buf resp) len (answers_bytes expire (take (fitting len (length ips)) ips)) = Some buf"
  using assms
proof (induction ips arbitrary: resp len)
  case Nil
  then show ?case by (intro exI [of _ "rs_buf resp"] exI [of _ "[]"]) simp
next
  case (Cons ip ips)
  show ?case
  proof (cases "512 \<le> len + 16")
    case True
    then show ?thesis
      by (intro exI [of _ "rs_buf resp"] exI [of _ "[]"])
         (simp add: fitting_Suc max_response_len_def single_ip_len_def)
  next
    case False
    obtain b where b: "wr_n (rs_buf resp) len (resource_bytes ip expire) = Some b"
      using wr_n_in_bounds [of len "resource_bytes ip expire" "rs_buf resp"] Cons.prems by auto
    then obtain rz where g: "dns_resource_zone_generate (rs_buf resp) len ip expire = Some (b, rz)" and rl: "r_len rz = 16"
      by (simp add: dns_resource_zone_generate_wr_n)
    let ?resp = "resp\<lparr>rs_buf := b, answerZones := answerZones resp @ [rz], rs_ips := rs_ips resp @ [ip]\<rparr>"
    obtain buf zs where IH: "append_answers expire ?resp (len + 16) (len + 16) ips =
           Some (?resp\<lparr>rs_buf := buf, answerZones := answerZones ?resp @ zs,
                      rs_ips := rs_ips ?resp @ take (fitting (len + 16) (length ips)) ips\<rparr>,
                 len + 16 + 16 * fitting (len + 16) (length ips))"
      and wr: "wr_n b (len + 16) (answers_bytes expire (take (fitting (len + 16) (length ips)) ips)) = Some buf"
      using Cons.IH [of "len + 16" ?resp] Cons.prems wr_n_length [OF b] by auto
    have "append_answers expire resp len len (ip # ips) = append_answers expire ?resp (len + 16) (len + 16) ips"
      using False g rl by (simp add: max_response_len_def single_ip_len_def)
    with IH wr b False show ?thesis
      by (intro exI [of _ buf] exI [of _ "rz # zs"]) (simp add: fitting_Suc wr_n_append)
  qed
qed

text \<open>
  A request whose header and question section are those of a parsed message: the questions stand
  in the request's buffer.
\<close>

definition asks :: "udp_request \<Rightarrow> u16 \<Rightarrow> (string \<times> u16 \<times> u16) list \<Rightarrow> bool" where
  "asks req ident qs \<longleftrightarrow> (\<exists>h z. rq_header req = Some h \<and> h_id h = ident \<and> rq_zone req = Some z
     \<and> length (querys z) = length qs \<and> z_len z = length (questions_bytes qs)
     \<and> bytes_at (rq_buf req) (z_data z) (questions_bytes qs))"

text \<open>The response with its header and question section written, before the answers.\<close>

definition answer_base :: "buffer \<Rightarrow> u16 \<Rightarrow> nat \<Rightarrow> udp_response" where
  "answer_base buf ident qlen = (udp_response_alloc 1024)\<lparr>rs_buf := buf,
     rs_header := Some \<lparr>h_data = 0, h_len = 12, h_id = ident, answerCount = 0, questionCount = 0,
                        responseCode = 0, qr = 0, opcode = 0\<rparr>,
     rs_zone := Some \<lparr>z_data = 12, z_len = qlen, z_valid = True, querys = [], z_hosts = []\<rparr>\<rparr>"

lemma answer_base_sel [simp]:
  "rs_buf (answer_base buf ident qlen) = buf" "answerZones (answer_base buf ident qlen) = []"
  "rs_ips (answer_base buf ident qlen) = []" "rs_data (answer_base buf ident qlen) = 0"
  by (simp_all add: answer_base_def udp_response_alloc_def udp_response_at_def)

lemma udp_response_new_base:
  assumes asks: "asks req ident qs" and room: "12 + length (questions_bytes qs) \<le> 1024"
  shows "\<exists>buf. length buf = 1024
     \<and> bytes_at buf 0 (header_bytes ident (length qs) 0 (min 5 (length ips)) True @ questions_bytes qs)
     \<and> udp_response_new req ips expire = map_option (\<lambda>(r, l). r\<lparr>rs_len := l\<rparr>)
         (append_answers expire (answer_base buf ident (length (questions_bytes qs)))
            (12 + length (questions_bytes qs)) (12 + length (questions_bytes qs)) (take 5 ips))"
proof -
  obtain h z where req: "rq_header req = Some h" "h_id h = ident" "rq_zone req = Some z"
    "length (querys z) = length qs" "z_len z = length (questions_bytes qs)"
    and src: "bytes_at (rq_buf req) (z_data z) (questions_bytes qs)"
    using asks by (auto simp: asks_def)
  let ?n = "min 5 (length ips)"
  let ?hb = "header_bytes ident (length qs) 0 ?n True"
  let ?qb = "questions_bytes qs"
  obtain b1 where b1: "wr_n (replicate 1024 0) 0 ?hb = Some b1"
    using wr_n_in_bounds [of 0 ?hb "replicate 1024 0"] by auto
  then have l1: "length b1 = 1024" and h1: "bytes_at b1 0 ?hb"
    using wr_n_length [OF b1] wr_n_bytes_at [OF b1] by simp_all
  obtain b2 where b2: "wr_n b1 12 ?qb = Some b2"
    using wr_n_in_bounds [of 12 ?qb b1] l1 room by auto
  let ?r = "answer_base b2 ident (length ?qb)"
  have "bytes_at b2 0 (?hb @ ?qb)"
    using wr_n_frame [OF b2 h1] wr_n_bytes_at [OF b2] l1 by (simp add: bytes_at_append)
  moreover have "dns_header_generateAnswer (replicate 1024 0) 0 ident (length qs) ?n = Some (b1, the (rs_header ?r))"
    using b1 by (simp add: dns_header_generateAnswer_def dns_header_generate_wr_n answer_base_def)
  moreover have "dns_query_zone_copy (rq_buf req) z b1 12 = Some (b2, the (rs_zone ?r))"
    using copy_between_bytes_at [OF src, of b1 12] b2 req(5) by (simp add: dns_query_zone_copy_def answer_base_def)
  moreover have "(if max_answer_ips \<le> length ips then take max_answer_ips ips else ips) = take 5 ips"
    by (simp add: max_answer_ips_def)
  moreover have "length (take 5 ips) = ?n" by simp
  ultimately show ?thesis
    using req wr_n_length [OF b2] l1 unfolding udp_response_new_def
    by (intro exI [of _ b2], cases "take 5 ips = []")
       (auto simp: answer_base_def udp_response_alloc_def udp_response_at_def Let_def split: Option.bind_splits)
qed

lemma udp_response_new_correct:
  assumes "asks req ident qs" and "12 + length (questions_bytes qs) + 80 \<le> 1024"
    and "len = 12 + length (questions_bytes qs)" and "n = min 5 (length ips)" and "k = fitting len n"
  shows "\<exists>r. udp_response_new req ips expire = Some r
     \<and> rs_len r = len + 16 * k \<and> rs_ips r = take k ips \<and> length (rs_buf r) = 1024 \<and> rs_data r = 0
     \<and> bytes_at (rs_buf r) 0 (header_bytes ident (length qs) 0 n True @ questions_bytes qs
           @ answers_bytes expire (take k ips))"
proof -
  obtain b where b: "length b = 1024" "bytes_at b 0 (header_bytes ident (length qs) 0 n True @ questions_bytes qs)"
    and new: "udp_response_new req ips expire = map_option (\<lambda>(r, l). r\<lparr>rs_len := l\<rparr>)
         (append_answers expire (answer_base b ident (length (questions_bytes qs))) len len (take 5 ips))"
    using udp_response_new_base [of req ident qs ips expire] assms by auto
  have take: "take k (take 5 ips) = take k ips" using assms(4,5) by (simp add: fitting_def)
  have k: "fitting len (length (take 5 ips)) = k" using assms(4,5) by (simp add: min.commute)
  have "len + 16 * length (take 5 ips) \<le> length (rs_buf (answer_base b ident (length (questions_bytes qs))))"
    using assms(2,3) b(1) by simp
  from append_answers_correct [OF this, of expire] obtain buf zs where
    app: "append_answers expire (answer_base b ident (length (questions_bytes qs))) len len (take 5 ips) =
      Some ((answer_base b ident (length (questions_bytes qs)))\<lparr>rs_buf := buf, answerZones := zs,
              rs_ips := take k ips\<rparr>, len + 16 * k)"
    and wr: "wr_n b len (answers_bytes expire (take k ips)) = Some buf"
    unfolding k take by auto
  have "bytes_at buf 0 ((header_bytes ident (length qs) 0 n True @ questions_bytes qs) @ answers_bytes expire (take k ips))"
    using wr_n_frame [OF wr b(2)] wr_n_bytes_at [OF wr] b(1) assms(2,3) by (simp add: bytes_at_append)
  with new app wr_n_length [OF wr] b(1) show ?thesis by simp
qed

section \<open>From a datagram to its answer\<close>

lemma received_parse:
  assumes "wf_questions qs" and "qs \<noteq> []" and "length (questions_bytes qs) < 2 ^ 16"
    and "msg = header_bytes ident (length qs) 0 0 False @ questions_bytes qs"
  shows "\<exists>req. udp_request_parse (received msg rest) (length msg) = Some (req, True) \<and> asks req ident qs
           \<and> udp_request_get_host req = fst (hd qs) \<and> udp_request_get_query_type req = Some (fst (snd (hd qs)))"
proof -
  let ?L = "length (questions_bytes qs)"
  have "length qs \<le> ?L" by (induction qs) auto
  then have small: "length qs < 2 ^ 16" using assms(3) by simp
  have at: "bytes_at (rq_buf (received msg rest)) 0 msg" by (simp add: received_def bytes_at_def)
  define req where "req = (received msg rest)\<lparr>rq_header := Some (parsed_header 0 ident (length qs) 0 False),
           rq_zone := Some \<lparr>z_data = 12, z_len = ?L, z_valid = True, querys = parsed_queries 12 qs, z_hosts = []\<rparr>,
           rq_hosts := rq_hosts (received msg rest) @ map fst qs, rq_len := length msg\<rparr>"
  have parse: "udp_request_parse (received msg rest) (length msg) = Some (req, True)"
    using udp_request_parse_questions [OF at [unfolded assms(4)] assms(1,2) small, of "length msg"] assms(4)
    by (simp add: req_def) (simp add: received_def udp_request_alloc_def)
  have "bytes_at (msg @ rest) 12 (questions_bytes qs)"
    unfolding assms(4) by (simp add: bytes_at_def)
  then have "asks req ident qs"
    by (simp add: asks_def req_def received_def parsed_header_def)
  moreover obtain host ty cls qs' where qs: "qs = (host, ty, cls) # qs'" using assms(2) by (cases qs) auto
  have "rq_hosts req = map fst qs" by (simp add: req_def received_def udp_request_alloc_def)
  then have "udp_request_get_host req = fst (hd qs)" by (simp add: udp_request_get_host_def qs)
  moreover have "udp_request_get_query_type req = Some (fst (snd (hd qs)))"
    by (simp add: req_def udp_request_get_query_type_def qs parsed_query_def)
  ultimately show ?thesis using parse by blast
qed

lemma asks_answered:
  assumes "asks req ident qs" and "wf_questions qs" and "qs \<noteq> []"
    and "12 + length (questions_bytes qs) + 16 * min 5 (length ips) < 512"
  shows "\<exists>resp. udp_response_new req ips expire = Some resp \<and> rs_len resp < 512 \<and> rs_data resp = 0
           \<and> rs_len resp \<le> length (rs_buf resp)
           \<and> (\<forall>rest n. \<exists>r. udp_response_parse (udp_response_at (take (rs_len resp) (rs_buf resp) @ rest) 0 n) (rs_len resp) = Some r
                \<and> rs_valid r \<and> rs_ips r = take 5 ips \<and> map_option h_id (rs_header r) = Some ident
                \<and> (\<forall>a \<in> set (answerZones r). liveTime a = expire))"
proof -
  let ?L = "length (questions_bytes qs)"
  have "length qs \<le> ?L" by (induction qs) auto
  then have small: "length qs < 2 ^ 16" using assms(4) by simp
  have k: "fitting (12 + ?L) (min 5 (length ips)) = min 5 (length ips)"
    using assms(4) by (simp add: fitting_def)
  have take5: "take (min 5 (length ips)) ips = take 5 ips" "length (take 5 ips) = min 5 (length ips)"
    by (simp_all add: min_def)
  obtain resp where new: "udp_response_new req ips expire = Some resp" and data: "rs_data resp = 0"
    and len: "rs_len resp = 12 + ?L + 16 * min 5 (length ips)" and buf: "length (rs_buf resp) = 1024"
    and bytes: "bytes_at (rs_buf resp) 0 (header_bytes ident (length qs) 0 (length (take 5 ips)) True
           @ questions_bytes qs @ answers_bytes expire (take 5 ips))"
    using udp_response_new_correct [OF assms(1) _ refl refl refl, of ips expire] assms(4) k take5 by auto
  have small5: "min (length ips) 5 < 65536" by simp
  let ?bs = "header_bytes ident (length qs) 0 (length (take 5 ips)) True
           @ questions_bytes qs @ answers_bytes expire (take 5 ips)"
  have msg2: "take (rs_len resp) (rs_buf resp) = ?bs"
    using bytes_at_take [OF bytes] len by (simp add: min.commute add.assoc)
  have "\<exists>r. udp_response_parse (udp_response_at (?bs @ rest) 0 n) (rs_len resp) = Some r
      \<and> rs_valid r \<and> rs_ips r = take 5 ips \<and> map_option h_id (rs_header r) = Some ident
      \<and> (\<forall>a \<in> set (answerZones r). liveTime a = expire)" for rest n
    using parse_message [of "udp_response_at (?bs @ rest) 0 n" ident qs 0 "take 5 ips" True expire "rs_len resp"]
      assms(2,3) small len small5
    by (auto simp: udp_response_at_def bytes_at_def min.commute parsed_header_def)
  with new data len buf assms(4) msg2 show ?thesis by (intro exI [of _ resp]) simp
qed

section \<open>Properties\<close>

text \<open>
  C11. From a client's question to the client's reading of the answer: a datagram with well-formed
  questions is accepted, the response built for it from any record is at most 511 bytes long, and
  parsing that response gives the client's id and the first five addresses of the record in order, with the given expiry.
  The condition says that five records fit in 512 bytes.
\<close>

theorem udp_response_roundtrip:
  assumes "wf_questions qs" and "qs \<noteq> []" and "12 + length (questions_bytes qs) + 16 * min 5 (length ips) < 512"
    and "msg = header_bytes ident (length qs) 0 0 False @ questions_bytes qs"
  shows "\<exists>req resp r. udp_request_parse (received msg rest) (length msg) = Some (req, True)
           \<and> udp_response_new req ips expire = Some resp \<and> rs_len resp < 512
           \<and> udp_response_parse (udp_response_at (take (rs_len resp) (rs_buf resp) @ rest') 0 n) (rs_len resp) = Some r
           \<and> rs_valid r \<and> rs_ips r = take 5 ips \<and> map_option h_id (rs_header r) = Some ident
           \<and> (\<forall>a \<in> set (answerZones r). liveTime a = expire)"
proof -
  have "length (questions_bytes qs) < 2 ^ 16" using assms(3) by simp
  from received_parse [OF assms(1,2) this assms(4), of rest] obtain req where
    req: "udp_request_parse (received msg rest) (length msg) = Some (req, True)" "asks req ident qs" by blast
  from asks_answered [OF req(2) assms(1-3), of expire] req(1) show ?thesis by blast
qed

theorem udp_response_roundtrip_witness:
  "\<exists>req resp r. udp_request_parse (received (header_bytes 7 1 0 0 False @ questions_bytes [(''a.cn'', 1, 1)]) [9])
        (length (header_bytes 7 1 0 0 False @ questions_bytes [(''a.cn'', 1, 1)])) = Some (req, True)
     \<and> udp_response_new req [1, 2, 3, 4, 5, 6] 60 = Some resp \<and> rs_len resp < 512
     \<and> udp_response_parse (udp_response_at (take (rs_len resp) (rs_buf resp) @ []) 0 1024) (rs_len resp) = Some r
     \<and> rs_valid r \<and> rs_ips r = take 5 [1, 2, 3, 4, 5, 6] \<and> map_option h_id (rs_header r) = Some 7
     \<and> (\<forall>a \<in> set (answerZones r). liveTime a = 60)"
  by (rule udp_response_roundtrip [where qs = "[(''a.cn'', 1, 1)]"]) (simp_all add: wf_host_def wf_label_def)

text \<open>
  The length of a response: for a request with questions of at most 932 bytes, it carries as
  many of the first five addresses as fit below 512 bytes, and its length is exact. It exceeds 511
  bytes only when the header and the questions alone do.
\<close>

theorem udp_response_new_length:
  assumes "asks req ident qs" and "length (questions_bytes qs) \<le> 932"
  shows "\<exists>r k. udp_response_new req ips expire = Some r \<and> rs_ips r = take k ips
           \<and> k = min (min 5 (length ips)) ((499 - length (questions_bytes qs)) div 16)
           \<and> rs_len r = 12 + length (questions_bytes qs) + 16 * k
           \<and> rs_len r \<le> max 511 (12 + length (questions_bytes qs))"
proof -
  let ?L = "length (questions_bytes qs)"
  let ?k = "fitting (12 + ?L) (min 5 (length ips))"
  have "16 * ?k \<le> 499 - ?L"
    using div_times_less_eq_dividend [of "499 - ?L" 16] by (auto simp: fitting_def min_def)
  moreover have "?k = min (min 5 (length ips)) ((499 - ?L) div 16)" by (simp add: fitting_def)
  moreover obtain r where "udp_response_new req ips expire = Some r" "rs_len r = 12 + ?L + 16 * ?k" "rs_ips r = take ?k ips"
    using udp_response_new_correct [OF assms(1) _ refl refl refl, of ips expire] assms(2) by auto
  ultimately show ?thesis
    by (intro exI [of _ r] exI [of _ ?k]) linarith
qed

text \<open>The request in the witnesses: the object a datagram with the questions \<open>qs\<close> parses to.\<close>

definition request_asking :: "u16 \<Rightarrow> (string \<times> u16 \<times> u16) list \<Rightarrow> udp_request" where
  "request_asking ident qs = (received (header_bytes ident (length qs) 0 0 False @ questions_bytes qs) [])\<lparr>
     rq_header := Some (parsed_header 0 ident (length qs) 0 False),
     rq_zone := Some \<lparr>z_data = 12, z_len = length (questions_bytes qs), z_valid = True,
                      querys = parsed_queries 12 qs, z_hosts = []\<rparr>,
     rq_hosts := map fst qs, rq_len := 12 + length (questions_bytes qs)\<rparr>"

lemma request_asking_asks: "asks (request_asking ident qs) ident qs"
  by (simp add: asks_def request_asking_def received_def parsed_header_def bytes_at_def)

theorem udp_response_new_length_witness:
  "\<exists>r k. udp_response_new (request_asking 7 [(''a.cn'', 1, 1)]) [1, 2] 60 = Some r \<and> rs_ips r = take k [1, 2]
     \<and> k = min (min 5 (length [1 :: u32, 2])) ((499 - length (questions_bytes [(''a.cn'', 1, 1)])) div 16)
     \<and> rs_len r = 12 + length (questions_bytes [(''a.cn'', 1, 1)]) + 16 * k
     \<and> rs_len r \<le> max 511 (12 + length (questions_bytes [(''a.cn'', 1, 1)]))"
  by (rule udp_response_new_length [OF request_asking_asks]) simp

text \<open>
  When the questions leave no room for an answer the header still announces the addresses of
  the record: the response holds none, and its answer count is not zero.
\<close>

theorem udp_response_new_count_mismatch:
  assumes "asks req ident qs" and "484 \<le> length (questions_bytes qs)" and "length (questions_bytes qs) \<le> 932"
    and "ips \<noteq> []"
  shows "\<exists>r h. udp_response_new req ips expire = Some r \<and> rs_ips r = []
           \<and> dns_header_parse (rs_buf r) 0 (rs_len r) = Some (Some h) \<and> unat (answerCount h) = min 5 (length ips)
           \<and> answerCount h \<noteq> 0"
proof -
  let ?n = "min 5 (length ips)"
  have k: "fitting (12 + length (questions_bytes qs)) ?n = 0" using assms(2) by (simp add: fitting_def)
  obtain r where r: "udp_response_new req ips expire = Some r" "rs_ips r = []"
    "rs_len r = 12 + length (questions_bytes qs)"
    "bytes_at (rs_buf r) 0 (header_bytes ident (length qs) 0 ?n True @ questions_bytes qs @ answers_bytes expire [])"
    using udp_response_new_correct [OF assms(1) _ refl refl refl, of ips expire] assms(3) k by auto
  have "dns_header_parse (rs_buf r) 0 (rs_len r) = Some (Some (parsed_header 0 ident (length qs) ?n True))"
    using bytes_at_appendD(1) [OF r(4) refl] r(3) by (intro dns_header_parse_header_bytes) simp_all
  moreover have "unat (word_of_nat ?n :: u16) = ?n" by (simp add: unat_of_nat take_bit_nat_eq_self)
  moreover from this assms(4) have "(word_of_nat ?n :: u16) \<noteq> 0" by (auto simp: min_def split: if_splits)
  ultimately show ?thesis using r(1,2) by (simp add: parsed_header_def)
qed

theorem udp_response_new_count_mismatch_witness:
  "\<exists>r h. udp_response_new (request_asking 7 (replicate 40 (''abc.com'', 1, 1))) [1, 2] 60 = Some r \<and> rs_ips r = []
     \<and> dns_header_parse (rs_buf r) 0 (rs_len r) = Some (Some h) \<and> unat (answerCount h) = min 5 (length [1 :: u32, 2])
     \<and> answerCount h \<noteq> 0"
  by (rule udp_response_new_count_mismatch [OF request_asking_asks]) (simp_all add: length_concat sum_list_replicate)

text \<open>
  What a successful parse of an upstream answer means: with a zero response code the question
  section is present, exactly the announced number of answers was read, every one of them is
  valid, and the addresses are those of the answers in order; with an error code the response is
  valid and carries no address.
\<close>

theorem udp_response_parse_answers:
  assumes "udp_response_parse (udp_response_at buf p len) mr = Some r" and "rs_valid r"
  shows "\<exists>h. rs_header r = Some h \<and> rs_ips r = concat (map ipv4s (answerZones r))
           \<and> (\<forall>a \<in> set (answerZones r). r_valid a)
           \<and> (if responseCode h = 0 then rs_zone r \<noteq> None \<and> length (answerZones r) = unat (answerCount h)
              else rs_ips r = [])"
  using udp_response_parse_done [OF assms] assms(2) by (auto simp: parse_done_def answers_ok_def)

theorem udp_response_parse_answers_witness:
  "\<exists>r. udp_response_parse (udp_response_at (header_bytes 7 0 0 0 True @ [0]) 0 13) 13 = Some r
     \<and> (\<exists>h. rs_header r = Some h \<and> rs_ips r = concat (map ipv4s (answerZones r))
           \<and> (\<forall>a \<in> set (answerZones r). r_valid a)
           \<and> (if responseCode h = 0 then rs_zone r \<noteq> None \<and> length (answerZones r) = unat (answerCount h)
              else rs_ips r = []))"
proof -
  have "(case udp_response_parse (udp_response_at (header_bytes 7 0 0 0 True @ [0]) 0 13) 13 of
      Some r \<Rightarrow> rs_valid r | None \<Rightarrow> False)" by code_simp
  then obtain r where r: "udp_response_parse (udp_response_at (header_bytes 7 0 0 0 True @ [0]) 0 13) 13 = Some r"
    "rs_valid r" by (auto split: option.splits)
  from udp_response_parse_answers [OF this] r(1) show ?thesis by (intro exI [of _ r]) simp
qed

text \<open>
  A TCP answer is accepted exactly when its two-byte prefix is the number of bytes received
  behind it and those bytes are a valid UDP answer; the response handed on is that answer.
\<close>

theorem tcp_response_parse_iff:
  assumes "tcp_response_parse t n = Some t'" and "t_valid t" and "data_size t = 0"
  shows "t_valid t' \<longleftrightarrow> (\<exists>r. 2 < n \<and> read_int (t_buf t) 0 (0 :: u16) = Some (word_of_nat (n - 2)) \<and> n - 2 < 2 ^ 16
           \<and> udp_response_parse (udp_response_at (t_buf t) 2 (n - 2)) (n - 2) = Some r \<and> rs_valid r
           \<and> t_response t' = Some r)"
proof (cases "2 < n")
  case False
  with assms show ?thesis by (auto simp: tcp_response_parse_def tcp_response_mark_invalid_def)
next
  case n: True
  with assms obtain sz where sz: "read_int (t_buf t) 0 (0 :: u16) = Some sz"
    by (auto simp: tcp_response_parse_def bind_eq_Some_conv)
  have bound: "unat sz < 2 ^ 16" using unsigned_less [of sz] by simp
  have eq: "sz = word_of_nat (n - 2) \<and> n - 2 < 2 ^ 16 \<longleftrightarrow> unat sz = n - 2"
  proof
    show "unat sz = n - 2" if "sz = word_of_nat (n - 2) \<and> n - 2 < 2 ^ 16"
      using that by (simp add: unat_of_nat take_bit_nat_eq_self)
    have "word_of_nat (unat sz) = sz" by simp
    then show "sz = word_of_nat (n - 2) \<and> n - 2 < 2 ^ 16" if "unat sz = n - 2"
      using bound that by metis
  qed
  show ?thesis
  proof (cases "unat sz = n - 2")
    case False
    with assms n sz eq show ?thesis by (auto simp: tcp_response_parse_def tcp_response_mark_invalid_def Let_def)
  next
    case True
    then obtain r where r: "udp_response_parse (udp_response_at (t_buf t) 2 (n - 2)) (n - 2) = Some r"
      using assms n sz by (auto simp: tcp_response_parse_def bind_eq_Some_conv Let_def)
    show ?thesis
      using assms n sz True r eq
      by (cases "rs_valid r") (auto simp: tcp_response_parse_def tcp_response_mark_invalid_def Let_def)
  qed
qed

theorem tcp_response_parse_iff_witness:
  "\<exists>t'. tcp_response_parse ((tcp_response_alloc 15)\<lparr>t_buf := [0, 13] @ header_bytes 7 0 0 0 True @ [0]\<rparr>) 15 = Some t'
     \<and> (t_valid t' \<longleftrightarrow> (\<exists>r. 2 < (15 :: nat)
           \<and> read_int (t_buf ((tcp_response_alloc 15)\<lparr>t_buf := [0, 13] @ header_bytes 7 0 0 0 True @ [0]\<rparr>)) 0 (0 :: u16)
               = Some (word_of_nat (15 - 2)) \<and> 15 - 2 < (2 :: nat) ^ 16
           \<and> udp_response_parse (udp_response_at (t_buf ((tcp_response_alloc 15)\<lparr>t_buf :=
               [0, 13] @ header_bytes 7 0 0 0 True @ [0]\<rparr>)) 2 (15 - 2)) (15 - 2) = Some r \<and> rs_valid r
           \<and> t_response t' = Some r))"
proof -
  let ?t = "(tcp_response_alloc 15)\<lparr>t_buf := [0, 13] @ header_bytes 7 0 0 0 True @ [0]\<rparr>"
  have "tcp_response_parse ?t 15 \<noteq> None" by code_simp
  then obtain t' where t': "tcp_response_parse ?t 15 = Some t'" by auto
  from tcp_response_parse_iff [OF t'] t' show ?thesis
    by (intro exI [of _ t']) (simp add: tcp_response_alloc_def)
qed

end
