(* ===== verification/Area_Ip.thy ===== *)
theory Area_Ip
  imports Ipv4
begin

unbundle bit_operations_syntax

text \<open>
  The area database, \<open>src/common/main/utils/area_ip.h\<close> and \<open>area_ip.cpp\<close>: address ranges per
  area, the cache of areas learnt from the net, and the manager with its background tasks.

  The manager's state is a record that is passed through every operation. The tasks it posts to
  its \<open>io_context\<close> and the timers it starts are lists in that record. The time is an argument
  \<open>now\<close> in milliseconds. An \<open>unordered_map\<close> or \<open>unordered_set\<close> has no fixed iteration order, so
  the operations that iterate take the order as an argument. The HTTP client and the JSON parser
  are parameters. A C++ exception and undefined behaviour are values of \<open>cpp_fault\<close>.
\<close>

section \<open>Model\<close>

datatype cpp_fault = Thrown std_exn | Undefined_Behaviour

definition tab :: string where
  "tab = [CHR 0x09]"

definition to_lower :: "char \<Rightarrow> char" where
  "to_lower c = (let n = (of_char c :: nat) in if 65 \<le> n \<and> n \<le> 90 then char_of (n + 32) else c)"

text \<open>\<open>stoul\<close> gives a 64-bit number; a minus sign negates modulo \<open>2 ^ 64\<close>.\<close>

definition stoul :: "string \<Rightarrow> std_exn + nat" where
  "stoul s =
     (let s1 = dropWhile is_space s;
          neg = (s1 \<noteq> [] \<and> hd s1 = CHR ''-'');
          s2 = (if s1 \<noteq> [] \<and> (hd s1 = CHR ''-'' \<or> hd s1 = CHR ''+'') then tl s1 else s1);
          ds = takeWhile is_digit s2;
          v = digits_value ds
      in if ds = [] then Inl Invalid_Argument
         else if 2 ^ 64 \<le> v then Inl Out_Of_Range
         else Inr (if neg then (2 ^ 64 - v) mod 2 ^ 64 else v))"

text \<open>\<open>atoi\<close> gives 0 without digits; a value outside \<open>int\<close> is undefined behaviour.\<close>

definition atoi :: "string \<Rightarrow> cpp_fault + int" where
  "atoi s =
     (let s1 = dropWhile is_space s;
          neg = (s1 \<noteq> [] \<and> hd s1 = CHR ''-'');
          s2 = (if s1 \<noteq> [] \<and> (hd s1 = CHR ''-'' \<or> hd s1 = CHR ''+'') then tl s1 else s1);
          n = int (digits_value (takeWhile is_digit s2));
          v = (if neg then - n else n)
      in if v < - (2 ^ 31) \<or> 2 ^ 31 \<le> v then Inl Undefined_Behaviour else Inr v)"

subsection \<open>Ranges\<close>

record area_ip_range =
  ar_start :: u32
  ar_end :: u32
  ar_area :: string

definition area_ip_range_serialize :: "area_ip_range \<Rightarrow> string" where
  "area_ip_range_serialize r =
     to_string (unat (ar_start r)) @ tab @ to_string (unat (ar_end r)) @ tab @ ar_area r"

definition area_ip_range_is_valid :: "area_ip_range \<Rightarrow> bool" where
  "area_ip_range_is_valid r \<longleftrightarrow> length (ar_area r) = 2 \<and> ar_start r \<le> ar_end r \<and> ar_start r \<noteq> 0"

text \<open>An exception of \<open>stoul\<close> is caught; what was assigned before it stays.\<close>

definition area_ip_range_parse :: "string \<Rightarrow> area_ip_range option" where
  "area_ip_range_parse str = do {
     strs \<leftarrow> split str tab;
     let result = \<lparr>ar_start = 0, ar_end = 0, ar_area = []\<rparr>;
     Some (if length strs = 3 then
             (case stoul (strs ! 0) of
                Inl e \<Rightarrow> result
              | Inr s \<Rightarrow>
                  (let result = result\<lparr>ar_start := word_of_nat s\<rparr> in
                   case stoul (strs ! 1) of
                     Inl e \<Rightarrow> result
                   | Inr t \<Rightarrow> result\<lparr>ar_end := word_of_nat t, ar_area := strs ! 2\<rparr>))
           else result) }"

text \<open>
  A range in prefix notation. Without a slash \<open>index\<close> is \<open>npos\<close>, and \<open>index + 1\<close> wraps to 0. The
  shift \<open>1 << (32 - n)\<close> is defined for counts 0 to 31.
\<close>

definition area_ip_range_cidr :: "string \<Rightarrow> string \<Rightarrow> cpp_fault + area_ip_range" where
  "area_ip_range_cidr rangeStr area =
     (let index = str_find rangeStr ''/'' 0 in
      case str_to_ip (substr rangeStr 0 index) of
        Inl e \<Rightarrow> Inl (Thrown e)
      | Inr start \<Rightarrow>
          (case atoi (substr rangeStr (case index of None \<Rightarrow> 0 | Some i \<Rightarrow> Suc i) (Some (length rangeStr))) of
             Inl e \<Rightarrow> Inl e
           | Inr n \<Rightarrow>
               (if 0 \<le> 32 - n \<and> 32 - n < 32
                then (let ipNum = push_bit (nat (32 - n)) (1 :: u32)
                      in Inr \<lparr>ar_start = start, ar_end = start + ipNum - 1, ar_area = area\<rparr>)
                else Inl Undefined_Behaviour)))"

subsection \<open>Area codes\<close>

definition area_to_code :: "string \<Rightarrow> u16" where
  "area_to_code areaCode =
     (if length areaCode = 2 \<and> 65 \<le> (of_char (areaCode ! 0) :: nat) \<and> 65 \<le> (of_char (areaCode ! 1) :: nat)
         \<and> (of_char (areaCode ! 1) :: nat) \<le> 90 \<and> (of_char (areaCode ! 0) :: nat) \<le> 90
      then (let firstCode = of_char (areaCode ! 0) - 65; secondCode = of_char (areaCode ! 1) - 65
            in word_of_nat (firstCode * 26 + secondCode))
      else 0)"

definition code_to_area :: "u16 \<Rightarrow> string" where
  "code_to_area mark =
     (if unat mark \<le> 26 * 26 - 1
      then [char_of (65 + unat mark div 26), char_of (65 + unat mark mod 26)]
      else [])"

definition get_area_code :: "string \<Rightarrow> string" where
  "get_area_code areaReg =
     map to_upper (if areaReg \<noteq> [] \<and> hd areaReg = CHR ''!'' then substr areaReg 1 (Some (length areaReg - 1)) else areaReg)"

definition is_match_areas :: "string list \<Rightarrow> string \<Rightarrow> bool" where
  "is_match_areas areas area = list_ex (\<lambda>areaReg.
     let matchNot = (areaReg \<noteq> [] \<and> hd areaReg = CHR ''!''); area_code = get_area_code areaReg
     in (\<not> matchNot \<and> area = area_code) \<or> (matchNot \<and> area \<noteq> area_code)) areas"

subsection \<open>The manager\<close>

record area_ip_net_interface =
  if_url :: string
  area_json_path :: string

text \<open>What the manager's thread has to run: the posted closures.\<close>

datatype area_task = Load_Area_Ips string | Load_Ip_Info u32 | Do_Load_Ip_Info u32

record area_manager =
  default_caches :: "string \<rightharpoonup> area_ip_range list"
  net_caches :: "u32 \<rightharpoonup> string"
  am_ips :: "u32 list"
  last_load_ip_info_time :: nat
  last_load_area_ips_time :: nat
  interfaces :: "area_ip_net_interface list"
  files :: "string \<rightharpoonup> string"
  ctx_tasks :: "area_task list"
  delay_timers :: "(nat \<times> u32) list"

definition ip_net_area_file :: string where
  "ip_net_area_file = ''/etc/area-ips/IP_NET_AREA''"

definition create_area_file :: "string \<Rightarrow> area_manager \<Rightarrow> area_manager" where
  "create_area_file path m = (if files m path = None then m\<lparr>files := (files m)(path \<mapsto> [])\<rparr> else m)"

definition post_task :: "area_task \<Rightarrow> area_manager \<Rightarrow> area_manager" where
  "post_task t m = m\<lparr>ctx_tasks := ctx_tasks m @ [t]\<rparr>"

definition has_load_area_ips :: "area_manager \<Rightarrow> string \<Rightarrow> bool" where
  "has_load_area_ips m areaCode \<longleftrightarrow> default_caches m areaCode \<noteq> None"

definition async_load_area_ips :: "nat \<Rightarrow> string \<Rightarrow> area_manager \<Rightarrow> area_manager" where
  "async_load_area_ips now area_code m =
     (if \<not> has_load_area_ips m area_code \<and> 1000 < minus_u64 now (last_load_area_ips_time m)
      then post_task (Load_Area_Ips area_code) (m\<lparr>last_load_area_ips_time := now\<rparr>)
      else m)"

definition async_load_ip_info_from_net :: "u32 \<Rightarrow> area_manager \<Rightarrow> area_manager" where
  "async_load_ip_info_from_net ip m = post_task (Load_Ip_Info ip) m"

definition is_area_ip_in :: "string \<Rightarrow> u32 \<Rightarrow> (string \<rightharpoonup> area_ip_range list) \<Rightarrow> bool" where
  "is_area_ip_in areaCode ip caches = (case caches areaCode of
     None \<Rightarrow> False
   | Some ranges \<Rightarrow> list_ex (\<lambda>it. ip \<le> ar_end it \<and> ar_start it \<le> ip) ranges)"

definition get_area_default :: "string list \<Rightarrow> u32 \<Rightarrow> (string \<rightharpoonup> area_ip_range list) \<Rightarrow> string" where
  "get_area_default order ip caches =
     (if 0 < ip then (case find (\<lambda>area. is_area_ip_in area ip caches) order of Some area \<Rightarrow> area | None \<Rightarrow> []) else [])"

definition get_area_net :: "u32 \<Rightarrow> (u32 \<rightharpoonup> string) \<Rightarrow> string" where
  "get_area_net ip caches = (case caches ip of Some area \<Rightarrow> area | None \<Rightarrow> [])"

definition get_area :: "string list \<Rightarrow> u32 \<Rightarrow> bool \<Rightarrow> area_manager \<Rightarrow> string \<times> area_manager" where
  "get_area order ip async_load_net m =
     (let (area, m') =
        (if ip \<noteq> 0 then
           (let area = get_area_net ip (net_caches m) in
            if area = [] then
              (let area = get_area_default order ip (default_caches m)
               in (area, if area \<noteq> ''LAN'' \<and> async_load_net then async_load_ip_info_from_net ip m else m))
            else (area, m))
         else ([], m))
      in (if area = [] then ''default'' else area, m'))"

definition is_area_ip :: "nat \<Rightarrow> string list \<Rightarrow> string list \<Rightarrow> u32 \<Rightarrow> area_manager \<Rightarrow> bool \<times> area_manager" where
  "is_area_ip now order areas ip m =
     (if areas = [] then (True, m)
      else
        (let m1 = foldl (\<lambda>m area_reg. async_load_area_ips now (get_area_code area_reg) m) m areas;
             (ip_area, m2) = get_area order ip True m1
         in if ip_area = ''default'' then (False, m2) else (is_match_areas areas ip_area, m2)))"

text \<open>The overloads for one area, and for one area and the text of an address.\<close>

definition is_area_ip_reg :: "nat \<Rightarrow> string list \<Rightarrow> string \<Rightarrow> u32 \<Rightarrow> area_manager \<Rightarrow> bool \<times> area_manager" where
  "is_area_ip_reg now order area_reg ip m = is_area_ip now order [area_reg] ip m"

definition is_area_ip_str :: "nat \<Rightarrow> string list \<Rightarrow> string \<Rightarrow> string \<Rightarrow> area_manager \<Rightarrow> std_exn + (bool \<times> area_manager)" where
  "is_area_ip_str now order areaReg ip m = (case str_to_ip ip of
     Inl e \<Rightarrow> Inl e
   | Inr addr \<Rightarrow> Inr (is_area_ip_reg now order areaReg addr m))"

subsection \<open>Loading ranges\<close>

type_synonym http_get = "string \<Rightarrow> string \<Rightarrow> nat \<times> string"

definition download_area_ips :: "http_get \<Rightarrow> string \<Rightarrow> area_manager \<Rightarrow> string \<times> area_manager" where
  "download_area_ips http area_code m =
     (let areaCodeLow = map to_lower area_code; filePath = ''/etc/area-ips/'' @ area_code
      in if files m filePath = None then
           (let result = http ''https://raw.githubusercontent.com''
                           (''/herrbischoff/country-ip-blocks/master/ipv4/'' @ areaCodeLow @ ''.cidr'')
            in if fst result = 200 \<and> snd result \<noteq> []
               then (filePath, m\<lparr>files := (files m)(filePath \<mapsto> snd result)\<rparr>)
               else ([], m))
         else (filePath, m))"

text \<open>The lines of a file of ranges: the ranges read and the fault that ended the loop, if any.\<close>

fun load_ranges :: "string \<Rightarrow> string list \<Rightarrow> area_ip_range list \<Rightarrow> area_ip_range list \<times> cpp_fault option" where
  "load_ranges areaCode [] ranges = (ranges, None)"
| "load_ranges areaCode (line # ls) ranges =
     (if line \<noteq> [] then
        (case area_ip_range_cidr line areaCode of
           Inl e \<Rightarrow> (ranges, Some e)
         | Inr r \<Rightarrow> load_ranges areaCode ls (ranges @ [r]))
      else load_ranges areaCode ls ranges)"

definition load_area_ips :: "http_get \<Rightarrow> string \<Rightarrow> area_manager \<Rightarrow> (cpp_fault + bool) \<times> area_manager" where
  "load_area_ips http area_code m =
     (let areaCode = get_area_code area_code in
      if has_load_area_ips m areaCode then (Inr True, m)
      else
        (let (path, m1) = download_area_ips http areaCode m in
         if path = [] then (Inr False, m1)
         else
           (let (ranges, fault) = load_ranges areaCode (getlines (the (files m1 path))) [];
                m2 = m1\<lparr>default_caches := (default_caches m1)(areaCode \<mapsto> ranges)\<rparr>
            in case fault of
                 Some e \<Rightarrow> (Inl e, m2)
               | None \<Rightarrow>
                   (if ranges = []
                    then (Inr True, m2\<lparr>default_caches := (default_caches m2)(areaCode := None),
                                       files := (files m2)(path := None)\<rparr>)
                    else (Inr True, m2)))))"

subsection \<open>Learning an area from the net\<close>

text \<open>
  The property trees of Boost: reading JSON text, the children of a node, the child at a key, the
  value at a key with a default (as a string and as an \<open>int\<close>), and the node's own value.
\<close>

record 'p ptree_ops =
  pt_read_json :: "string \<Rightarrow> 'p option"
  pt_children :: "'p \<Rightarrow> (string \<times> 'p) list"
  pt_get_child :: "'p \<Rightarrow> string \<Rightarrow> 'p option"
  pt_get :: "'p \<Rightarrow> string \<Rightarrow> string \<Rightarrow> string"
  pt_get_int :: "'p \<Rightarrow> string \<Rightarrow> int \<Rightarrow> int"
  pt_value :: "'p \<Rightarrow> string"

text \<open>\<open>url.find_first_of("://")\<close>: the first character that is a colon or a slash.\<close>

definition find_scheme_end :: "string \<Rightarrow> nat option" where
  "find_scheme_end url = find (\<lambda>i. url ! i = CHR '':'' \<or> url ! i = CHR ''/'') [0 ..< length url]"

text \<open>Host and path of a request: \<open>splits[1]\<close> must exist and must contain the placeholder.\<close>

definition ip_info_request :: "u32 \<Rightarrow> string \<Rightarrow> (cpp_fault + string \<times> string) option" where
  "ip_info_request ip url = do {
     splits \<leftarrow> split_from url ''/'' (case find_scheme_end url of None \<Rightarrow> 2 | Some i \<Rightarrow> i + 3) 1;
     Some (if length splits < 2 then Inl Undefined_Behaviour
           else (case str_find (splits ! 1) ''{IP}'' 0 of
               None \<Rightarrow> Inl (Thrown Out_Of_Range)
             | Some i \<Rightarrow> Inr (splits ! 0, ''/'' @ take i (splits ! 1) @ ip_to_str ip @ drop (i + 4) (splits ! 1)))) }"

text \<open>The walk along \<open>area_json_path\<close>: a missing inner child leaves the tree where it is.\<close>

fun json_area :: "'p ptree_ops \<Rightarrow> 'p \<Rightarrow> string list \<Rightarrow> string" where
  "json_area ops tree [] = []"
| "json_area ops tree [p] = pt_get ops tree p []"
| "json_area ops tree (p # ps) = json_area ops (case pt_get_child ops tree p of Some c \<Rightarrow> c | None \<Rightarrow> tree) ps"

definition load_ip_info_from ::
  "http_get \<Rightarrow> 'p ptree_ops \<Rightarrow> u32 \<Rightarrow> area_ip_net_interface \<Rightarrow> (cpp_fault + string) option" where
  "load_ip_info_from http ops ip interface = do {
     req \<leftarrow> ip_info_request ip (if_url interface);
     paths \<leftarrow> split (area_json_path interface) ''.'';
     Some (case req of
         Inl e \<Rightarrow> Inl e
       | Inr (host, uri) \<Rightarrow>
           (let result = http host uri;
                area = (if fst result = 200 \<and> snd result \<noteq> []
                        then (case pt_read_json ops (snd result) of None \<Rightarrow> [] | Some tree \<Rightarrow> json_area ops tree paths)
                        else [])
            in Inr (map to_upper area))) }"

text \<open>The interfaces in the order the shuffle left them; the first that names an area wins.\<close>

fun load_ip_info :: "http_get \<Rightarrow> 'p ptree_ops \<Rightarrow> u32 \<Rightarrow> area_ip_net_interface list \<Rightarrow> (cpp_fault + string) option" where
  "load_ip_info http ops ip [] = Some (Inr [])"
| "load_ip_info http ops ip (i # is) = do {
     r \<leftarrow> load_ip_info_from http ops ip i;
     (case r of
        Inl e \<Rightarrow> Some (Inl e)
      | Inr area \<Rightarrow> if area \<noteq> [] then Some (Inr area) else load_ip_info http ops ip is) }"

definition net_qps :: nat where
  "net_qps = 3"

text \<open>
  The closures. \<open>start_load_ip_info\<close> is what \<open>async_load_ip_info_from_net\<close> posts: it reserves the
  address in \<open>ips\<close> and starts a timer that spaces the queries. \<open>do_load_ip_info\<close> asks the net and
  releases the address; \<open>learnt\<close> is what \<open>load_ip_info\<close> returned.
\<close>

definition start_load_ip_info :: "nat \<Rightarrow> u32 \<Rightarrow> area_manager \<Rightarrow> area_manager" where
  "start_load_ip_info now ip m =
     (if ip \<in> set (am_ips m) then m
      else
        (let m1 = m\<lparr>am_ips := ip # am_ips m\<rparr>;
             m2 = (if last_load_ip_info_time m1 \<le> now
                   then m1\<lparr>last_load_ip_info_time := now + 1000 div net_qps\<rparr>
                   else m1\<lparr>last_load_ip_info_time := last_load_ip_info_time m1 + 1000 div net_qps\<rparr>)
         in if now < last_load_ip_info_time m2
            then m2\<lparr>delay_timers := delay_timers m2 @ [(last_load_ip_info_time m2, ip)]\<rparr>
            else post_task (Do_Load_Ip_Info ip) m2))"

definition do_load_ip_info :: "nat \<Rightarrow> u32 \<Rightarrow> string \<Rightarrow> area_manager \<Rightarrow> area_manager" where
  "do_load_ip_info now ip learnt m =
     (let m1 = (if get_area_net ip (net_caches m) = [] then
                  (if learnt \<noteq> []
                   then async_load_area_ips now learnt (m\<lparr>net_caches := (net_caches m)(ip \<mapsto> learnt)\<rparr>)
                   else m)
                else m)
      in m1\<lparr>am_ips := removeAll ip (am_ips m1)\<rparr>)"

subsection \<open>Synchronising the file of learnt areas\<close>

fun insert_new :: "'a \<Rightarrow> 'a list \<Rightarrow> 'a list" where
  "insert_new x xs = (if x \<in> set xs then xs else xs @ [x])"

text \<open>
  The loop over the merged records: what is written, and the new cache. A record without a tab
  makes the code read past the end of the vector.
\<close>

fun sync_records :: "string list \<Rightarrow> string \<Rightarrow> (u32 \<rightharpoonup> string) \<Rightarrow> (cpp_fault + string \<times> (u32 \<rightharpoonup> string)) option" where
  "sync_records [] out caches = Some (Inr (out, caches))"
| "sync_records (it # its) out caches = do {
     splits \<leftarrow> split it tab;
     if splits = [] then Some (Inl Undefined_Behaviour)
     else (case str_to_ip (splits ! 0) of
         Inl e \<Rightarrow> Some (Inl (Thrown e))
       | Inr uip \<Rightarrow>
           (if length splits < 2 then Some (Inl Undefined_Behaviour)
            else if length splits = 2 \<and> uip \<noteq> 9 \<and> splits ! 1 \<noteq> []
            then sync_records its (out @ it @ [CHR 0x0A]) (caches(uip \<mapsto> splits ! 1))
            else sync_records its out caches)) }"

text \<open>
  \<open>net\<close> lists the cached pairs and \<open>order\<close> the merged records in iteration order. The merged file
  replaces the old one unless that was written after the merge began.
\<close>

definition sync_net_area_ip ::
  "(u32 \<times> string) list \<Rightarrow> (string list \<Rightarrow> string list) \<Rightarrow> nat \<Rightarrow> nat \<Rightarrow> area_manager
     \<Rightarrow> ((cpp_fault + unit) \<times> area_manager) option" where
  "sync_net_area_ip net order last_write_time tmp_crate_time m =
     (case files m ip_net_area_file of
        None \<Rightarrow> Some (Inr (), create_area_file ip_net_area_file m)
      | Some content \<Rightarrow>
          (let ori = foldl (\<lambda>acc line. if line \<noteq> [] then insert_new line acc else acc) [] (getlines content);
               merged = foldl (\<lambda>acc (ip, area). insert_new (ip_to_str ip @ tab @ area) acc) ori net
           in if length ori \<noteq> length merged then do {
                r \<leftarrow> sync_records (order merged) [] Map.empty;
                Some (case r of
                    Inl e \<Rightarrow> (Inl e, m)
                  | Inr (out, caches) \<Rightarrow>
                      (let m1 = m\<lparr>net_caches := caches\<rparr>
                       in (Inr (), if last_write_time < tmp_crate_time
                                   then m1\<lparr>files := (files m1)(ip_net_area_file \<mapsto> out)\<rparr> else m1))) }
              else Some (Inr (), m)))"

definition area_ip_config_load :: "'p ptree_ops \<Rightarrow> 'p \<Rightarrow> area_ip_net_interface list \<Rightarrow> area_ip_net_interface list" where
  "area_ip_config_load ops interfaces_node ifs =
     (let nodes = pt_children ops interfaces_node in
      if nodes \<noteq> [] then
        filter (\<lambda>i. if_url i \<noteq> [] \<and> area_json_path i \<noteq> [])
          (map (\<lambda>(k, node). \<lparr>if_url = pt_get ops node ''url'' [], area_json_path = pt_get ops node ''area_json_path'' []\<rparr>) nodes)
      else ifs)"

text \<open>Without an \<open>interfaces\<close> child the load throws (\<open>None\<close>); text that is no JSON is only logged.\<close>

definition area_ip_config_load_tree :: "'p ptree_ops \<Rightarrow> 'p \<Rightarrow> area_ip_net_interface list \<Rightarrow> area_ip_net_interface list option" where
  "area_ip_config_load_tree ops tree ifs = map_option (\<lambda>node. area_ip_config_load ops node ifs) (pt_get_child ops tree ''interfaces'')"

definition area_ip_config_load_json :: "'p ptree_ops \<Rightarrow> string \<Rightarrow> area_ip_net_interface list \<Rightarrow> area_ip_net_interface list option" where
  "area_ip_config_load_json ops json ifs = (case pt_read_json ops json of
     None \<Rightarrow> Some ifs
   | Some tree \<Rightarrow> area_ip_config_load_tree ops tree ifs)"

text \<open>The default configuration as JSON, with the quotes as \<open>0x22\<close>; white space does not count.\<close>

definition quoted :: "string \<Rightarrow> string" where
  "quoted s = [CHR 0x22] @ s @ [CHR 0x22]"

definition default_interfaces_json :: string where
  "default_interfaces_json = ''{'' @ quoted ''interfaces'' @ '':[{'' @ quoted ''url'' @ '':'' @
     quoted ''http://ip.taobao.com/outGetIpInfo?ip={IP}&accessKey=alibaba-inc'' @ '','' @
     quoted ''area_json_path'' @ '':'' @ quoted ''data.country_id'' @ ''},{'' @ quoted ''url'' @ '':'' @
     quoted ''http://ip-api.com/json/{IP}?lang=zh-CN'' @ '','' @
     quoted ''area_json_path'' @ '':'' @ quoted ''countryCode'' @ ''}]}''"

definition area_ip_config_new :: "'p ptree_ops \<Rightarrow> area_ip_net_interface list option" where
  "area_ip_config_new ops = area_ip_config_load_json ops default_interfaces_json []"

definition manager_config :: "area_ip_net_interface list \<Rightarrow> area_manager \<Rightarrow> area_manager" where
  "manager_config conf m = m\<lparr>interfaces := conf\<rparr>"

subsection \<open>The constructor\<close>

text \<open>
  Four private ranges, the file of learnt areas, and the first synchronisation. Nothing is learnt yet, so
  the synchronisation merges nothing and uses neither the order nor the times.
\<close>

definition lan_ranges :: "string list" where
  "lan_ranges = [''192.168.0.0/16'', ''10.0.0.0/8'', ''172.16.0.0/16'', ''0.0.0.0/8'']"

definition area_manager_init ::
  "nat \<Rightarrow> area_ip_net_interface list \<Rightarrow> (string \<rightharpoonup> string) \<Rightarrow> cpp_fault + area_manager" where
  "area_manager_init now ifs fs =
     (case load_ranges ''LAN'' lan_ranges [] of
        (ranges, Some e) \<Rightarrow> Inl e
      | (ranges, None) \<Rightarrow>
          (let m = create_area_file ip_net_area_file
                 \<lparr>default_caches = [''LAN'' \<mapsto> ranges], net_caches = Map.empty, am_ips = [],
                  last_load_ip_info_time = now, last_load_area_ips_time = now, interfaces = ifs, files = fs,
                  ctx_tasks = [], delay_timers = []\<rparr>
           in case sync_net_area_ip [] (\<lambda>xs. xs) now now m of
                Some (Inr _, m1) \<Rightarrow> Inr m1
              | Some (Inl e, m1) \<Rightarrow> Inl e
              | None \<Rightarrow> Inl Undefined_Behaviour))"

subsection \<open>Steps\<close>

text \<open>
  The steps of the manager: a call of a client, which may post a query, the thread runs the first
  task, a timer that is due posts its continuation, and the file of learnt areas is synchronised. The
  HTTP client and the answers are arbitrary.
\<close>

inductive area_step :: "area_manager \<Rightarrow> area_manager \<Rightarrow> bool" where
  call_get_area: "(area, m') = get_area order ip async m \<Longrightarrow> area_step m m'"
| call_is_area_ip: "(b, m') = is_area_ip now order areas ip m \<Longrightarrow> area_step m m'"
| call_load_ip: "area_step m (async_load_ip_info_from_net ip m)"
| call_load_area: "(r, m') = load_area_ips http code m \<Longrightarrow> area_step m m'"
| sync_file: "sync_net_area_ip net order last_write_time tmp_crate_time m = Some (r, m') \<Longrightarrow> area_step m m'"
| run_load_area: "ctx_tasks m = Load_Area_Ips code # ts \<Longrightarrow>
    (r, m') = load_area_ips http code (m\<lparr>ctx_tasks := ts\<rparr>) \<Longrightarrow> area_step m m'"
| run_load_ip: "ctx_tasks m = Load_Ip_Info ip # ts \<Longrightarrow>
    area_step m (start_load_ip_info now ip (m\<lparr>ctx_tasks := ts\<rparr>))"
| fire_timer: "delay_timers m = ts1 @ (t, ip) # ts2 \<Longrightarrow> t \<le> now \<Longrightarrow>
    area_step m (post_task (Do_Load_Ip_Info ip) (m\<lparr>delay_timers := ts1 @ ts2\<rparr>))"
| run_do_load: "ctx_tasks m = Do_Load_Ip_Info ip # ts \<Longrightarrow>
    area_step m (do_load_ip_info now ip learnt (m\<lparr>ctx_tasks := ts\<rparr>))"

section \<open>Ranges\<close>

lemma str_find_first:
  assumes "c \<notin> set xs"
  shows "str_find (xs @ c # ys) [c] 0 = Some (length xs)"
  using str_find_char_Some [OF assms, of "xs @ c # ys" "[]" ys] by simp

lemma atoi_to_string: "n < 2 ^ 31 \<Longrightarrow> atoi (to_string n) = Inr (int n)"
  using stoi_to_string_append [of n "[]"] hd_to_string_digit [of n]
  by (auto simp: atoi_def stoi_def Let_def split: if_splits)

lemma area_ip_range_cidr_prefix:
  assumes "1 \<le> n" and "n \<le> 32"
  shows "area_ip_range_cidr (ip_to_str base @ ''/'' @ to_string n) area =
           Inr \<lparr>ar_start = base, ar_end = base + push_bit (32 - n) 1 - 1, ar_area = area\<rparr>"
proof -
  have "CHR ''/'' \<notin> set (ip_to_str base)"
    using ip_to_str_chars [of "CHR ''/''" base] by (auto simp: is_digit_def)
  from str_find_first [OF this, of "to_string n"]
  have "str_find (ip_to_str base @ ''/'' @ to_string n) ''/'' 0 = Some (length (ip_to_str base))" by simp
  moreover have "atoi (to_string n) = Inr (int n)" using assms by (intro atoi_to_string) simp
  moreover have "nat (32 - int n) = 32 - n" using assms by linarith
  ultimately show ?thesis
    using assms by (simp add: area_ip_range_cidr_def substr_def dotted_roundtrip)
qed

text \<open>An aligned range holds the addresses that agree with it on the prefix.\<close>

lemma aligned_range:
  fixes base ip :: u32
  assumes "k < 32" and "take_bit k base = 0"
  shows "base \<le> ip \<and> ip \<le> base + push_bit k 1 - 1 \<longleftrightarrow> drop_bit k ip = drop_bit k base"
proof -
  define q where "q = unat base div 2 ^ k"
  have "unat base mod 2 ^ k = 0"
    using arg_cong [OF assms(2), of unat] by (simp add: unsigned_take_bit_eq flip: take_bit_eq_mod)
  then have base: "unat base = q * 2 ^ k" by (simp add: q_def mod_eq_0_iff_dvd)
  have "unat base < 2 ^ 32" using unsigned_less [of base] by simp
  then have "q * 2 ^ k < 2 ^ (32 - k) * 2 ^ k" using base assms(1) by (simp flip: power_add)
  then have "q < 2 ^ (32 - k)" by simp
  then have "(q + 1) * 2 ^ k \<le> 2 ^ (32 - k) * 2 ^ k" by (intro mult_right_mono) simp_all
  then have top: "q * 2 ^ k + 2 ^ k \<le> 2 ^ 32" using assms(1) by (simp flip: power_add)
  have pos: "(0 :: nat) < 2 ^ k" by simp
  have "(word_of_nat (2 ^ k - 1) :: u32) = 2 ^ k - 1" by (simp add: of_nat_diff)
  then have "base + push_bit k 1 - 1 = word_of_nat (unat base + (2 ^ k - 1))"
    unfolding of_nat_add by (simp add: push_bit_eq_mult)
  then have "unat (base + push_bit k 1 - 1) = q * 2 ^ k + (2 ^ k - 1)"
    using top base by (simp only: unat_of_nat) (simp add: take_bit_nat_eq_self)
  then have "base \<le> ip \<and> ip \<le> base + push_bit k 1 - 1 \<longleftrightarrow> q * 2 ^ k \<le> unat ip \<and> unat ip < q * 2 ^ k + 2 ^ k"
    using base pos by (simp only: word_le_nat_alt) linarith
  also have "\<dots> \<longleftrightarrow> unat ip div 2 ^ k = q"
  proof
    assume "q * 2 ^ k \<le> unat ip \<and> unat ip < q * 2 ^ k + 2 ^ k"
    then show "unat ip div 2 ^ k = q" by (intro div_nat_eqI) (simp_all add: mult.commute)
  next
    assume "unat ip div 2 ^ k = q"
    then have "unat ip = q * 2 ^ k + unat ip mod 2 ^ k" using div_mult_mod_eq [of "unat ip" "2 ^ k"] by simp
    moreover have "unat ip mod 2 ^ k < 2 ^ k" by simp
    ultimately show "q * 2 ^ k \<le> unat ip \<and> unat ip < q * 2 ^ k + 2 ^ k" by linarith
  qed
  also have "\<dots> \<longleftrightarrow> drop_bit k ip = drop_bit k base"
  proof -
    have "unat w < 2 ^ 32" for w :: u32 using unsigned_less [of w] by simp
    then have "take_bit 32 (unat w) = unat w" for w :: u32 by (simp add: take_bit_nat_eq_self)
    then show ?thesis by (simp add: q_def word_unat_eq_iff unsigned_drop_bit_eq flip: drop_bit_eq_div)
  qed
  finally show ?thesis .
qed

section \<open>Looking up areas\<close>

lemma async_load_area_ips_caches [simp]:
  "default_caches (async_load_area_ips now c m) = default_caches m"
  "net_caches (async_load_area_ips now c m) = net_caches m"
  by (simp_all add: async_load_area_ips_def post_task_def)

lemma foldl_async_caches:
  "default_caches (foldl (\<lambda>m r. async_load_area_ips now (f r) m) m rs) = default_caches m
   \<and> net_caches (foldl (\<lambda>m r. async_load_area_ips now (f r) m) m rs) = net_caches m"
  by (induction rs arbitrary: m) auto

lemma fst_get_area_cong:
  "default_caches m = default_caches m' \<Longrightarrow> net_caches m = net_caches m' \<Longrightarrow>
     fst (get_area order ip async m) = fst (get_area order ip async m')"
  by (simp add: get_area_def Let_def)

lemma find_in_domain:
  assumes "set order = dom caches"
  shows "(case find (\<lambda>c. is_area_ip_in c ip caches) order of
            Some c \<Rightarrow> is_area_ip_in c ip caches | None \<Rightarrow> \<not> (\<exists>c. is_area_ip_in c ip caches))"
proof -
  have "c \<in> set order" if "is_area_ip_in c ip caches" for c
    using that assms by (auto simp: is_area_ip_in_def split: option.splits)
  then show ?thesis by (auto simp: find_None_iff find_Some_iff split: option.splits)
qed

section \<open>Pending queries\<close>

definition pending_loads :: "area_manager \<Rightarrow> u32 list" where
  "pending_loads m = map snd (delay_timers m)
     @ concat (map (\<lambda>t. case t of Do_Load_Ip_Info ip \<Rightarrow> [ip] | _ \<Rightarrow> []) (ctx_tasks m))"

definition loads_inv :: "area_manager \<Rightarrow> bool" where
  "loads_inv m \<longleftrightarrow> distinct (pending_loads m) \<and> set (pending_loads m) = set (am_ips m)"

lemma pending_post: "pending_loads (post_task t m) =
    pending_loads m @ (case t of Do_Load_Ip_Info ip \<Rightarrow> [ip] | _ \<Rightarrow> [])"
  by (simp add: pending_loads_def post_task_def split: area_task.splits)

lemma pending_async [simp]:
  "pending_loads (async_load_area_ips now c m) = pending_loads m"
  "am_ips (async_load_area_ips now c m) = am_ips m"
  by (auto simp: async_load_area_ips_def pending_post) (simp_all add: pending_loads_def post_task_def)

lemma pending_get_area:
  "(a, m') = get_area order ip async m \<Longrightarrow> pending_loads m' = pending_loads m \<and> am_ips m' = am_ips m"
  by (auto simp: get_area_def Let_def async_load_ip_info_from_net_def pending_post post_task_def pending_loads_def
      split: if_splits)

lemma pending_is_area_ip:
  assumes "(b, m') = is_area_ip now order areas ip m"
  shows "pending_loads m' = pending_loads m \<and> am_ips m' = am_ips m"
proof -
  have fold: "pending_loads (foldl (\<lambda>m r. async_load_area_ips now (get_area_code r) m) m rs) = pending_loads m
      \<and> am_ips (foldl (\<lambda>m r. async_load_area_ips now (get_area_code r) m) m rs) = am_ips m" for rs
    by (induction rs arbitrary: m) auto
  obtain a m2 where ga: "(a, m2) = get_area order ip True
      (foldl (\<lambda>m r. async_load_area_ips now (get_area_code r) m) m areas)"
    by (metis surj_pair)
  from assms pending_get_area [OF ga] fold show ?thesis
    by (auto simp: is_area_ip_def Let_def ga [symmetric] split: if_splits)
qed

lemma pending_load_area_ips:
  "(r, m') = load_area_ips http code m \<Longrightarrow> pending_loads m' = pending_loads m \<and> am_ips m' = am_ips m"
  by (auto simp: load_area_ips_def download_area_ips_def Let_def pending_loads_def
      split: if_splits prod.splits option.splits)

lemma pending_sync_net_area_ip:
  assumes "sync_net_area_ip net order lw tc m = Some (r, m')"
  shows "pending_loads m' = pending_loads m \<and> am_ips m' = am_ips m"
proof -
  note insert_new.simps [simp del]
  have "delay_timers m' = delay_timers m \<and> ctx_tasks m' = ctx_tasks m \<and> am_ips m' = am_ips m"
  proof (cases "files m ip_net_area_file")
    case None
    with assms show ?thesis by (auto simp: sync_net_area_ip_def create_area_file_def split: if_splits)
  next
    case (Some content)
    define ori where "ori = foldl (\<lambda>acc line. if line \<noteq> [] then insert_new line acc else acc) [] (getlines content)"
    define merged where "merged = foldl (\<lambda>acc (ip, area). insert_new (ip_to_str ip @ tab @ area) acc) ori net"
    show ?thesis
    proof (cases "length ori = length merged")
      case True
      with assms Some show ?thesis by (simp add: sync_net_area_ip_def Let_def ori_def merged_def)
    next
      case False
      with assms Some obtain res where "sync_records (order merged) [] Map.empty = Some res"
        and "(case res of Inl e \<Rightarrow> (Inl e, m)
              | Inr (out, caches) \<Rightarrow>
                  (let m1 = m\<lparr>net_caches := caches\<rparr>
                   in (Inr (), if lw < tc then m1\<lparr>files := (files m1)(ip_net_area_file \<mapsto> out)\<rparr> else m1))) = (r, m')"
        by (auto simp: sync_net_area_ip_def Let_def ori_def [symmetric] merged_def [symmetric] bind_eq_Some_conv)
      then show ?thesis by (auto simp: Let_def split: sum.splits prod.splits if_splits)
    qed
  qed
  then show ?thesis by (simp add: pending_loads_def)
qed

lemma loads_inv_step: "area_step m m' \<Longrightarrow> loads_inv m \<Longrightarrow> loads_inv m'"
proof (induction rule: area_step.induct)
  case (call_get_area area m' order ip async m)
  then show ?case using pending_get_area by (fastforce simp: loads_inv_def)
next
  case (call_is_area_ip b m' now order areas ip m)
  then show ?case using pending_is_area_ip by (fastforce simp: loads_inv_def)
next
  case (call_load_ip m ip)
  then show ?case by (simp add: loads_inv_def async_load_ip_info_from_net_def pending_post) (simp add: post_task_def)
next
  case (call_load_area r m' http code m)
  then show ?case using pending_load_area_ips by (fastforce simp: loads_inv_def)
next
  case (sync_file net order lw tc m r m')
  then show ?case using pending_sync_net_area_ip by (fastforce simp: loads_inv_def)
next
  case (run_load_area m code ts r m' http)
  then show ?case using pending_load_area_ips by (fastforce simp: loads_inv_def pending_loads_def)
next
  case (run_load_ip m ip ts now)
  let ?m = "m\<lparr>ctx_tasks := ts\<rparr>"
  let ?d = "concat (map (\<lambda>t. case t of Do_Load_Ip_Info ip \<Rightarrow> [ip] | _ \<Rightarrow> []) ts)"
  have inv: "distinct (map snd (delay_timers m) @ ?d)" "set (map snd (delay_timers m) @ ?d) = set (am_ips m)"
    using run_load_ip by (simp_all add: loads_inv_def pending_loads_def)
  show ?case
  proof (cases "ip \<in> set (am_ips m)")
    case True
    with inv show ?thesis by (simp add: start_load_ip_info_def loads_inv_def pending_loads_def)
  next
    case False
    then have "ip \<notin> set (map snd (delay_timers m) @ ?d)" using inv(2) by simp
    moreover have "pending_loads (start_load_ip_info now ip ?m) = map snd (delay_timers m) @ ip # ?d"
      "am_ips (start_load_ip_info now ip ?m) = ip # am_ips m"
      using False by (simp_all add: start_load_ip_info_def Let_def pending_loads_def net_qps_def)
    ultimately show ?thesis using inv by (auto simp: loads_inv_def)
  qed
next
  case (fire_timer m ts1 t ip ts2 now)
  then show ?case by (auto simp: loads_inv_def pending_post) (auto simp: pending_loads_def post_task_def)
next
  case (run_do_load m ip ts now learnt)
  let ?m = "m\<lparr>ctx_tasks := ts\<rparr>"
  let ?d = "concat (map (\<lambda>t. case t of Do_Load_Ip_Info ip \<Rightarrow> [ip] | _ \<Rightarrow> []) ts)"
  have inv: "distinct (map snd (delay_timers m) @ ip # ?d)"
    "set (map snd (delay_timers m) @ ip # ?d) = set (am_ips m)"
    using run_do_load by (simp_all add: loads_inv_def pending_loads_def)
  have "pending_loads (do_load_ip_info now ip learnt ?m) = map snd (delay_timers m) @ ?d"
    "am_ips (do_load_ip_info now ip learnt ?m) = removeAll ip (am_ips m)"
    using pending_async [of now learnt "?m\<lparr>net_caches := (net_caches ?m)(ip \<mapsto> learnt)\<rparr>"]
    by (simp_all add: do_load_ip_info_def Let_def pending_loads_def)
  moreover have "set (map snd (delay_timers m) @ ?d) = set (am_ips m) - {ip}"
    using inv(1) unfolding inv(2) [symmetric] by auto
  ultimately show ?case using inv(1) by (simp add: loads_inv_def)
qed

text \<open>The first synchronisation finds nothing to merge.\<close>

lemma sync_net_area_ip_nothing:
  "files m ip_net_area_file \<noteq> None \<Longrightarrow> sync_net_area_ip [] order lwt tct m = Some (Inr (), m)"
  by (auto simp: sync_net_area_ip_def Let_def)

lemma create_area_file_exists: "files (create_area_file path m) path \<noteq> None"
  by (simp add: create_area_file_def)

lemma area_manager_init_eq: "area_manager_init now ifs fs =
    (case load_ranges ''LAN'' lan_ranges [] of
       (ranges, Some e) \<Rightarrow> Inl e
     | (ranges, None) \<Rightarrow> Inr (create_area_file ip_net_area_file
         \<lparr>default_caches = [''LAN'' \<mapsto> ranges], net_caches = Map.empty, am_ips = [],
          last_load_ip_info_time = now, last_load_area_ips_time = now, interfaces = ifs, files = fs,
          ctx_tasks = [], delay_timers = []\<rparr>))"
  by (simp add: area_manager_init_def Let_def sync_net_area_ip_nothing [OF create_area_file_exists]
      split: prod.split option.split)

lemma loads_inv_init: "area_manager_init now ifs fs = Inr m0 \<Longrightarrow> loads_inv m0"
  by (auto simp: area_manager_init_eq loads_inv_def pending_loads_def create_area_file_def
      split: prod.splits option.splits if_splits)

interpretation area_machine: state_machine area_step loads_inv
  by unfold_locales (rule loads_inv_step)

section \<open>Properties\<close>

text \<open>
  Two-letter area codes and their numbers correspond: every number below 676 comes back from
  its code, and every code of two capital letters comes back from its number.
\<close>

theorem area_code_bijection:
  "(unat mark < 676 \<longrightarrow> area_to_code (code_to_area mark) = mark)
   \<and> (a \<in> set [65 ..< 91] \<and> b \<in> set [65 ..< 91] \<longrightarrow>
        code_to_area (area_to_code [char_of a, char_of b]) = [char_of a, char_of (b :: nat)])"
proof (intro conjI impI)
  assume m: "unat mark < 676"
  have d: "unat mark div 26 \<le> 25" using m by linarith
  have "unat mark mod 26 \<le> 25" using mod_less_divisor [of 26 "unat mark"] by linarith
  moreover have "unat mark div 26 * 26 + unat mark mod 26 = unat mark" by simp
  ultimately show "area_to_code (code_to_area mark) = mark"
    using m by (simp add: area_to_code_def code_to_area_def Let_def d del: of_nat_add of_nat_mult)
next
  assume ab: "a \<in> set [65 ..< 91] \<and> b \<in> set [65 ..< 91]"
  define x y where x_y_def: "x = a - 65" "y = b - 65"
  have "65 \<le> a" "a < 91" "65 \<le> b" "b < 91" using ab by (simp_all only: set_upt atLeastLessThan_iff)
  then have xy: "a = 65 + x" "b = 65 + y" "x < 26" "y < 26" unfolding x_y_def by linarith+
  then have lt: "x * 26 + y < 676" by linarith
  have "area_to_code [char_of a, char_of b] = word_of_nat (x * 26 + y)"
    using xy by (simp add: area_to_code_def Let_def)
  moreover have "unat (word_of_nat (x * 26 + y) :: u16) = x * 26 + y"
    using lt by (simp only: unat_of_nat) (simp add: take_bit_nat_eq_self)
  moreover have "(x * 26 + y) div 26 = x" "(x * 26 + y) mod 26 = y" using xy by auto
  ultimately show "code_to_area (area_to_code [char_of a, char_of b]) = [char_of a, char_of b]"
    using xy lt by (simp add: code_to_area_def)
qed

theorem area_code_bijection_witness:
  "area_to_code (code_to_area 61) = 61
   \<and> code_to_area (area_to_code [char_of (67 :: nat), char_of (78 :: nat)]) = [char_of (67 :: nat), char_of (78 :: nat)]"
  using area_code_bijection [of 61 67 78] by simp

text \<open>
  C26. A line \<open>a.b.c.d/n\<close> of an area file, with \<open>n\<close> from 1 to 32 and no bit set behind the prefix,
  is read as the set of addresses whose first \<open>n\<close> bits are those of the line.
\<close>

theorem area_ip_range_cidr_members:
  assumes "1 \<le> n" and "n \<le> 32" and "take_bit (32 - n) base = 0"
  shows "\<exists>r. area_ip_range_cidr (ip_to_str base @ ''/'' @ to_string n) area = Inr r \<and> ar_area r = area
           \<and> (is_area_ip_in area ip [area \<mapsto> [r]] \<longleftrightarrow> drop_bit (32 - n) ip = drop_bit (32 - n) base)"
  using area_ip_range_cidr_prefix [OF assms(1,2), of base area] aligned_range [of "32 - n" base ip] assms
  by (auto simp: is_area_ip_in_def)

theorem area_ip_range_cidr_members_witness:
  "\<exists>r. area_ip_range_cidr (ip_to_str 0x0A000000 @ ''/'' @ to_string 8) ''LAN'' = Inr r \<and> ar_area r = ''LAN''
     \<and> (is_area_ip_in ''LAN'' 0x0A010203 [''LAN'' \<mapsto> [r]]
          \<longleftrightarrow> drop_bit (32 - 8) (0x0A010203 :: u32) = drop_bit (32 - 8) 0x0A000000)"
  by (rule area_ip_range_cidr_members) simp_all

text \<open>
  C24. The area of an address: what the net cache says, or else an area with a range that contains
  the address if there is one, or else \<open>default\<close>. This holds for every iteration order of the map;
  the order only matters when ranges of two areas overlap.
\<close>

theorem get_area_correct:
  assumes "set order = dom (default_caches m)" and "[] \<notin> dom (default_caches m)"
  shows "(let a = fst (get_area order ip async m); n = get_area_net ip (net_caches m) in
           if ip = 0 then a = ''default''
           else if n \<noteq> [] then a = n
           else if \<exists>c. is_area_ip_in c ip (default_caches m) then is_area_ip_in a ip (default_caches m)
           else a = ''default'')"
proof -
  have ne: "\<not> is_area_ip_in [] ip (default_caches m)"
    using assms(2) by (auto simp: is_area_ip_in_def split: option.splits)
  show ?thesis
    using find_in_domain [OF assms(1), of ip] ne
    by (auto simp: get_area_def get_area_default_def Let_def word_gt_0 split: option.splits)
qed

theorem get_area_correct_witness:
  "(let m = \<lparr>default_caches = [''CN'' \<mapsto> [\<lparr>ar_start = 5, ar_end = 9, ar_area = ''CN''\<rparr>]], net_caches = Map.empty,
             am_ips = [], last_load_ip_info_time = 0, last_load_area_ips_time = 0, interfaces = [], files = Map.empty,
             ctx_tasks = [], delay_timers = []\<rparr>; a = fst (get_area [''CN''] 7 False m); n = get_area_net 7 (net_caches m) in
     if (7 :: u32) = 0 then a = ''default''
     else if n \<noteq> [] then a = n
     else if \<exists>c. is_area_ip_in c 7 (default_caches m) then is_area_ip_in a 7 (default_caches m)
     else a = ''default'')"
  unfolding Let_def by (rule get_area_correct [unfolded Let_def]) (auto split: if_splits)

text \<open>
  C25. Whether an address suits a server: always when the server names no area; otherwise exactly
  when the address has a known area and some entry of the list accepts it, a plain entry by
  equality of the upper-cased code and an entry with \<open>!\<close> by inequality.
\<close>

theorem is_area_ip_correct:
  "fst (is_area_ip now order areas ip m) \<longleftrightarrow>
     areas = [] \<or> (let a = fst (get_area order ip True m) in a \<noteq> ''default'' \<and>
       (\<exists>reg \<in> set areas. if reg \<noteq> [] \<and> hd reg = CHR ''!''
          then a \<noteq> map to_upper (tl reg) else a = map to_upper reg))"
proof (cases "areas = []")
  case True
  then show ?thesis by (simp add: is_area_ip_def)
next
  case False
  let ?m1 = "foldl (\<lambda>m r. async_load_area_ips now (get_area_code r) m) m areas"
  let ?a = "fst (get_area order ip True m)"
  obtain a m2 where ga: "get_area order ip True ?m1 = (a, m2)" by fastforce
  have a: "a = ?a"
    using fst_get_area_cong [of ?m1 m order ip True] ga foldl_async_caches [of now get_area_code m areas] by simp
  have "is_match_areas areas ?a \<longleftrightarrow> (\<exists>reg \<in> set areas. if reg \<noteq> [] \<and> hd reg = CHR ''!''
          then ?a \<noteq> map to_upper (tl reg) else ?a = map to_upper reg)"
    unfolding is_match_areas_def list_ex_iff
    by (rule bex_cong) (auto simp: get_area_code_def substr_def drop_Suc Let_def)
  then show ?thesis using False ga a by (simp add: is_area_ip_def Let_def)
qed

text \<open>A start without files.\<close>

lemma sample_area_init:
  "\<exists>m0. area_manager_init 1000 [] Map.empty = Inr m0 \<and> ctx_tasks m0 = [] \<and> delay_timers m0 = [] \<and> am_ips m0 = []
     \<and> last_load_ip_info_time m0 = 1000"
proof -
  have "load_ranges ''LAN'' lan_ranges [] =
      ([\<lparr>ar_start = 0xC0A80000, ar_end = 0xC0A8FFFF, ar_area = ''LAN''\<rparr>,
        \<lparr>ar_start = 0x0A000000, ar_end = 0x0AFFFFFF, ar_area = ''LAN''\<rparr>,
        \<lparr>ar_start = 0xAC100000, ar_end = 0xAC10FFFF, ar_area = ''LAN''\<rparr>,
        \<lparr>ar_start = 0, ar_end = 0x00FFFFFF, ar_area = ''LAN''\<rparr>], None)" by code_simp
  then show ?thesis by (simp add: area_manager_init_eq) (simp add: create_area_file_def)
qed

text \<open>
  C27. For every run of the manager from its initial state: an address is reserved in \<open>ips\<close>
  exactly while one query for it is waiting for its timer or its turn. So no address is ever
  queried twice at the same time, and no reservation is lost.
\<close>

theorem pending_loads_reserved:
  assumes "area_manager_init now ifs fs = Inr m0" and "area_step\<^sup>*\<^sup>* m0 m"
  shows "distinct (pending_loads m) \<and> set (pending_loads m) = set (am_ips m)"
  using area_machine.reachable [OF assms(2) loads_inv_init [OF assms(1)]] by (simp add: loads_inv_def)

theorem pending_loads_reserved_witness:
  "\<exists>m0 m. area_manager_init 1000 [] Map.empty = Inr m0 \<and> ctx_tasks m = [] \<and> delay_timers m = [(1333, 7)]
     \<and> distinct (pending_loads m) \<and> set (pending_loads m) = set (am_ips m)"
proof -
  from sample_area_init obtain m0 where m0: "area_manager_init 1000 [] Map.empty = Inr m0"
    and tasks: "ctx_tasks m0 = []" "delay_timers m0 = []" "am_ips m0 = []" "last_load_ip_info_time m0 = 1000" by blast
  define m1 where "m1 = post_task (Load_Ip_Info 7) m0"
  define m2 where "m2 = start_load_ip_info 1000 7 (m1\<lparr>ctx_tasks := []\<rparr>)"
  have "area_step m0 m1"
  proof (rule area_step.call_get_area)
    show "(''default'', m1) = get_area [] 7 True m0"
      using m0 by (auto simp: m1_def get_area_def get_area_net_def get_area_default_def async_load_ip_info_from_net_def
          area_manager_init_eq create_area_file_def split: prod.splits option.splits)
  qed
  moreover have "area_step m1 m2"
    unfolding m2_def by (rule area_step.run_load_ip) (simp add: m1_def post_task_def tasks)
  ultimately have "area_step\<^sup>*\<^sup>* m0 m2" by simp
  from pending_loads_reserved [OF m0 this] m0 show ?thesis
    by (intro exI [of _ m0] exI [of _ m2])
       (simp add: m2_def m1_def start_load_ip_info_def post_task_def tasks net_qps_def)
qed

text \<open>
  The file of learnt areas is not read back at start: synchronising with an empty cache leaves
  the cache empty whatever the file holds, because the file is only parsed when the merge with the
  cache adds a record.
\<close>

theorem sync_net_area_ip_empty_cache:
  "\<exists>m'. sync_net_area_ip [] order lwt tct m = Some (Inr (), m') \<and> net_caches m' = net_caches m"
  by (auto simp: sync_net_area_ip_def create_area_file_def Let_def split: option.splits)

end
