(* ===== verification/Kv.thy ===== *)
theory Kv
  imports St_Prelude
begin

text \<open>
  The key-value stores of \<open>src/common/main/kv/\<close>: \<open>disk_kv\<close> on LevelDB with values wrapped in a
  protobuf message that carries an expiry, and \<open>shm_kv\<close> on a map in shared memory. LevelDB and
  the generated message code are parameters, with their documented behaviour as the laws
  \<open>leveldb_laws\<close> and \<open>value_codec_laws\<close>. The interface \<open>abstract_kv\<close> is the locale \<open>kv_store\<close>.
\<close>

section \<open>The interface\<close>

text \<open>
  What a client of a store relies on: a stored value is read back, other keys are not touched,
  and the absence of a value is the empty string. Keys and values that the store can represent
  are those with \<open>ok_key\<close> and \<open>ok_val\<close>.
\<close>

locale kv_store =
  fixes inv :: "'s \<Rightarrow> bool" and view :: "'s \<Rightarrow> string \<Rightarrow> string"
    and put :: "string \<Rightarrow> string \<Rightarrow> 's \<Rightarrow> 's" and erase :: "string \<Rightarrow> 's \<Rightarrow> 's"
    and ok_key :: "string \<Rightarrow> bool" and ok_val :: "string \<Rightarrow> bool"
  assumes inv_put: "inv s \<Longrightarrow> inv (put k v s)"
    and inv_erase: "inv s \<Longrightarrow> inv (erase k s)"
    and view_put_same: "inv s \<Longrightarrow> ok_key k \<Longrightarrow> ok_val v \<Longrightarrow> view (put k v s) k = v"
    and view_put_other: "inv s \<Longrightarrow> ok_key k \<Longrightarrow> ok_key k' \<Longrightarrow> k' \<noteq> k \<Longrightarrow> view (put k v s) k' = view s k'"
    and view_erase_same: "inv s \<Longrightarrow> ok_key k \<Longrightarrow> view (erase k s) k = []"
    and view_erase_other: "inv s \<Longrightarrow> ok_key k \<Longrightarrow> ok_key k' \<Longrightarrow> k' \<noteq> k \<Longrightarrow> view (erase k s) k' = view s k'"
begin

definition put_all :: "(string \<times> string) list \<Rightarrow> 's \<Rightarrow> 's" where
  "put_all kvs s = foldl (\<lambda>s (k, v). put k v s) s kvs"

lemma inv_put_all: "inv s \<Longrightarrow> inv (put_all kvs s)"
  by (induction kvs arbitrary: s) (auto simp: put_all_def inv_put)

text \<open>After a sequence of writes every key has the value of its last write.\<close>

lemma view_put_all:
  assumes "inv s" and "\<forall>(k, v) \<in> set kvs. ok_key k \<and> ok_val v" and "ok_key k"
  shows "view (put_all kvs s) k = (case map_of (rev kvs) k of Some v \<Rightarrow> v | None \<Rightarrow> view s k)"
  using assms
proof (induction kvs rule: rev_induct)
  case Nil
  then show ?case by (simp add: put_all_def)
next
  case (snoc kv kvs)
  obtain k0 v0 where kv: "kv = (k0, v0)" by fastforce
  have "put_all (kvs @ [kv]) s = put k0 v0 (put_all kvs s)" by (simp add: put_all_def kv)
  with snoc inv_put_all [OF assms(1), of kvs] show ?case
    by (cases "k = k0") (auto simp: kv view_put_same view_put_other)
qed

end

section \<open>disk_kv\<close>

record 'd leveldb_ops =
  ldb_get :: "'d \<Rightarrow> string \<Rightarrow> string option"
  ldb_put :: "'d \<Rightarrow> string \<Rightarrow> string \<Rightarrow> 'd"
  ldb_delete :: "'d \<Rightarrow> string \<Rightarrow> 'd"
  ldb_entries :: "'d \<Rightarrow> (string \<times> string) list"

record kv_value =
  kv_data :: string
  kv_expire :: nat

record value_codec =
  vc_serialize :: "kv_value \<Rightarrow> string"
  vc_parse :: "string \<Rightarrow> kv_value"

definition not_expired :: "nat \<Rightarrow> kv_value \<Rightarrow> bool" where
  "not_expired now val \<longleftrightarrow> kv_expire val = 0 \<or> now div 1000 < kv_expire val"

definition disk_kv_erase :: "'d leveldb_ops \<Rightarrow> string \<Rightarrow> 'd \<Rightarrow> 'd" where
  "disk_kv_erase L key db = ldb_delete L db key"

text \<open>\<open>get\<close> deletes an expired entry, so it returns the database too.\<close>

definition disk_kv_get :: "'d leveldb_ops \<Rightarrow> value_codec \<Rightarrow> nat \<Rightarrow> string \<Rightarrow> 'd \<Rightarrow> string \<times> 'd" where
  "disk_kv_get L C now key db = (case ldb_get L db key of
     None \<Rightarrow> ([], db)
   | Some data \<Rightarrow>
       (let val = vc_parse C data
        in if not_expired now val then (kv_data val, db) else ([], disk_kv_erase L key db)))"

text \<open>
  The value is passed as \<open>value.c_str()\<close>, so it ends at its first NUL. The expiry field of the
  message is a \<open>uint32\<close>.
\<close>

definition disk_kv_put_expire ::
  "'d leveldb_ops \<Rightarrow> value_codec \<Rightarrow> nat \<Rightarrow> string \<Rightarrow> string \<Rightarrow> nat \<Rightarrow> 'd \<Rightarrow> 'd" where
  "disk_kv_put_expire L C now key value expire db =
     (let val = \<lparr>kv_data = c_str value, kv_expire = 
                 (if expire \<noteq> 0 then (now div 1000 + expire) mod 2 ^ 32 else expire)\<rparr>
      in ldb_put L db key (vc_serialize C val))"

definition disk_kv_put :: "'d leveldb_ops \<Rightarrow> value_codec \<Rightarrow> nat \<Rightarrow> string \<Rightarrow> string \<Rightarrow> 'd \<Rightarrow> 'd" where
  "disk_kv_put L C now key value db = disk_kv_put_expire L C now key value 0 db"

text \<open>The iterator runs over the entries the database had when it was created.\<close>

definition disk_kv_clear :: "'d leveldb_ops \<Rightarrow> 'd \<Rightarrow> 'd" where
  "disk_kv_clear L db = foldl (\<lambda>db key. disk_kv_erase L key db) db (map fst (ldb_entries L db))"

definition disk_kv_list :: "'d leveldb_ops \<Rightarrow> value_codec \<Rightarrow> nat \<Rightarrow> 'd \<Rightarrow> (string \<times> string) list" where
  "disk_kv_list L C now db =
     map (\<lambda>(k, v). (k, kv_data (vc_parse C v))) (filter (\<lambda>(k, v). not_expired now (vc_parse C v)) (ldb_entries L db))"

subsection \<open>Laws of the libraries\<close>

definition leveldb_laws :: "'d leveldb_ops \<Rightarrow> bool" where
  "leveldb_laws L \<longleftrightarrow>
     (\<forall>db k v k'. ldb_get L (ldb_put L db k v) k' = (if k' = k then Some v else ldb_get L db k'))
     \<and> (\<forall>db k k'. ldb_get L (ldb_delete L db k) k' = (if k' = k then None else ldb_get L db k'))
     \<and> (\<forall>db. distinct (map fst (ldb_entries L db)) \<and> (\<forall>k. map_of (ldb_entries L db) k = ldb_get L db k))"

definition value_codec_laws :: "value_codec \<Rightarrow> bool" where
  "value_codec_laws C \<longleftrightarrow> (\<forall>v. kv_expire v < 2 ^ 32 \<longrightarrow> vc_parse C (vc_serialize C v) = v)"

lemma leveldb_laws_simps:
  assumes "leveldb_laws L"
  shows "ldb_get L (ldb_put L db k v) k' = (if k' = k then Some v else ldb_get L db k')"
    and "ldb_get L (ldb_delete L db k) k' = (if k' = k then None else ldb_get L db k')"
    and "map_of (ldb_entries L db) k = ldb_get L db k"
    and "distinct (map fst (ldb_entries L db))"
  using assms by (auto simp: leveldb_laws_def)

text \<open>A store on any database and message code that obey their laws, written at the time \<open>now\<close>.\<close>

locale disk_env =
  fixes L :: "'d leveldb_ops" and C :: value_codec and now :: nat
  assumes leveldb: "leveldb_laws L" and codec: "value_codec_laws C"
begin

lemmas laws = leveldb_laws_simps [OF leveldb]

lemma get_put:
  "fst (disk_kv_get L C t k' (disk_kv_put L C now k v db)) =
     (if k' = k then c_str v else fst (disk_kv_get L C t k' db))"
  using codec
  by (auto simp: disk_kv_get_def disk_kv_put_def disk_kv_put_expire_def Let_def laws value_codec_laws_def
      not_expired_def split: option.splits)

lemma get_erase:
  "fst (disk_kv_get L C now k' (disk_kv_erase L k db)) = (if k' = k then [] else fst (disk_kv_get L C now k' db))"
  by (auto simp: disk_kv_get_def disk_kv_erase_def Let_def laws split: option.splits)

lemma get_get:
  "t \<le> t' \<Longrightarrow> fst (disk_kv_get L C t' k' (snd (disk_kv_get L C t k db))) = fst (disk_kv_get L C t' k' db)"
  using div_le_mono [of t t' 1000]
  by (auto simp: disk_kv_get_def disk_kv_erase_def Let_def laws not_expired_def split: option.splits)

lemma foldl_erase:
  "ldb_get L (foldl (\<lambda>db key. disk_kv_erase L key db) db ks) k = (if k \<in> set ks then None else ldb_get L db k)"
  by (induction ks arbitrary: db) (auto simp: disk_kv_erase_def laws)

lemma get_clear: "ldb_get L (disk_kv_clear L db) k = None"
proof -
  have "k \<in> fst ` set (ldb_entries L db) \<or> ldb_get L db k = None"
    using laws(3) [of db k] by (metis domI dom_map_of_conv_image_fst not_None_eq)
  then show ?thesis by (auto simp: disk_kv_clear_def foldl_erase)
qed

lemma list_get:
  "(k, v) \<in> set (disk_kv_list L C now db) \<longleftrightarrow>
     (\<exists>val. map_option (vc_parse C) (ldb_get L db k) = Some val \<and> not_expired now val \<and> kv_data val = v)"
proof -
  have "(k, d) \<in> set (ldb_entries L db) \<longleftrightarrow> ldb_get L db k = Some d" for d
    using laws(3) [of db k] laws(4) [of db] by (metis map_of_eq_Some_iff)
  then show ?thesis by (auto simp: disk_kv_list_def)
qed

end

sublocale disk_env < disk: kv_store "\<lambda>_. True" "\<lambda>db k. fst (disk_kv_get L C now k db)"
  "disk_kv_put L C now" "disk_kv_erase L" "\<lambda>_. True" "\<lambda>v. CHR 0x00 \<notin> set v"
  by unfold_locales (simp_all add: get_put get_erase c_str_id)

subsection \<open>A database as a map\<close>

text \<open>A reference implementation of the libraries: a list of pairs and a textual message.\<close>

definition list_db :: "(string \<times> string) list leveldb_ops" where
  "list_db = \<lparr>ldb_get = map_of,
     ldb_put = (\<lambda>db k v. (k, v) # filter (\<lambda>(k', _). k' \<noteq> k) db),
     ldb_delete = (\<lambda>db k. filter (\<lambda>(k', _). k' \<noteq> k) db),
     ldb_entries = (\<lambda>db. map (\<lambda>k. (k, the (map_of db k))) (remdups (map fst db)))\<rparr>"

definition unary_codec :: value_codec where
  "unary_codec = \<lparr>vc_serialize = (\<lambda>v. replicate (kv_expire v) (CHR ''1'') @ CHR '':'' # kv_data v),
     vc_parse = (\<lambda>s. \<lparr>kv_data = tl (dropWhile (\<lambda>c. c = CHR ''1'') s),
                      kv_expire = length (takeWhile (\<lambda>c. c = CHR ''1'') s)\<rparr>)\<rparr>"

lemma map_of_filter_neq:
  "map_of (filter (\<lambda>(k', _). k' \<noteq> k) db) k' = (if k' = k then None else map_of db k')"
  by (induction db) auto

lemma list_db_laws: "leveldb_laws list_db"
proof -
  have "map_of (map (\<lambda>k. (k, the (map_of db k))) ks) k = (if k \<in> set ks then Some (the (map_of db k)) else None)"
    for ks k and db :: "(string \<times> string) list"
    by (induction ks) auto
  moreover have "map_of db k = None" if "k \<notin> fst ` set db" for k and db :: "(string \<times> string) list"
    using that by (simp add: map_of_eq_None_iff)
  moreover have "\<exists>v. map_of db k = Some v" if "k \<in> fst ` set db" for k and db :: "(string \<times> string) list"
    using that by (metis map_of_eq_None_iff not_None_eq)
  ultimately show ?thesis
    by (fastforce simp: leveldb_laws_def list_db_def map_of_filter_neq o_def)
qed

lemma takeWhile_replicate_stop: "takeWhile (\<lambda>c. c = a) (replicate n a @ b # xs) = (if b = a then replicate n a @ a # takeWhile (\<lambda>c. c = a) xs else replicate n a)"
  by (induction n) auto

lemma dropWhile_replicate_stop: "b \<noteq> a \<Longrightarrow> dropWhile (\<lambda>c. c = a) (replicate n a @ b # xs) = b # xs"
  by (induction n) auto

lemma unary_codec_laws: "value_codec_laws unary_codec"
  by (simp add: value_codec_laws_def unary_codec_def takeWhile_replicate_stop dropWhile_replicate_stop)

interpretation list_disk: disk_env list_db unary_codec now for now
  by unfold_locales (rule list_db_laws, rule unary_codec_laws)

section \<open>shm_kv\<close>

text \<open>
  The shared segment holds one map. Keys and values pass through \<open>c_str()\<close>. The null segment is
  \<open>None\<close>; \<open>erase\<close>, \<open>clear\<close> and \<open>free_size\<close> do not test it.
\<close>

type_synonym shm_segment = "(string \<rightharpoonup> string) option"

definition shm_kv_get :: "string \<Rightarrow> shm_segment \<Rightarrow> string" where
  "shm_kv_get key seg =
     (if key = [] then [] else (case seg of
        None \<Rightarrow> []
      | Some kv \<Rightarrow> (case kv (c_str key) of Some v \<Rightarrow> c_str v | None \<Rightarrow> [])))"

definition shm_kv_put :: "string \<Rightarrow> string \<Rightarrow> shm_segment \<Rightarrow> shm_segment" where
  "shm_kv_put key value seg =
     (if key = [] \<or> value = [] then seg
      else map_option (\<lambda>kv. kv(c_str key \<mapsto> c_str value)) seg)"

definition shm_kv_put_expire :: "string \<Rightarrow> string \<Rightarrow> nat \<Rightarrow> shm_segment \<Rightarrow> shm_segment" where
  "shm_kv_put_expire key value expire seg = shm_kv_put key value seg"

definition shm_kv_put_if_absent :: "string \<Rightarrow> string \<Rightarrow> shm_segment \<Rightarrow> shm_segment" where
  "shm_kv_put_if_absent key value seg =
     (if key = [] \<or> value = [] then seg
      else map_option (\<lambda>kv. if kv (c_str key) = None then kv(c_str key \<mapsto> c_str value) else kv) seg)"

text \<open>Without a segment \<open>erase\<close> and \<open>clear\<close> dereference a null pointer: the outer \<open>None\<close>.\<close>

definition shm_kv_erase :: "string \<Rightarrow> shm_segment \<Rightarrow> shm_segment option" where
  "shm_kv_erase key seg = map_option (\<lambda>kv. Some (kv(c_str key := None))) seg"

definition shm_kv_clear :: "shm_segment \<Rightarrow> shm_segment option" where
  "shm_kv_clear seg = map_option (\<lambda>kv. Some Map.empty) seg"

text \<open>The map is ordered by its keys; \<open>keys\<close> lists them in that order.\<close>

definition shm_kv_list :: "string list \<Rightarrow> shm_segment \<Rightarrow> (string \<times> string) list" where
  "shm_kv_list keys seg = (case seg of
     None \<Rightarrow> []
   | Some kv \<Rightarrow> concat (map (\<lambda>k. case kv k of Some v \<Rightarrow> [(c_str k, c_str v)] | None \<Rightarrow> []) keys))"

text \<open>
  The instances of the process, by their namespace: the address of the object and the size it was
  created with. \<open>fresh\<close> is the address of the next object. \<open>create\<close> looks twice, the second time with
  the lock held: \<open>seen\<close> is what the first look finds, which is older or the same.
\<close>

record shm_instances =
  si_table :: "string \<rightharpoonup> nat \<times> u32"
  si_fresh :: nat

definition shm_kv_create :: "(string \<rightharpoonup> nat \<times> u32) \<Rightarrow> string \<Rightarrow> u32 \<Rightarrow> shm_instances \<Rightarrow> nat \<times> shm_instances" where
  "shm_kv_create seen ns maxSize si = (case seen ns of
     Some (shm, _) \<Rightarrow> (shm, si)
   | None \<Rightarrow> (case si_table si ns of
       Some (shm, _) \<Rightarrow> (shm, si)
     | None \<Rightarrow> (si_fresh si, \<lparr>si_table = (si_table si)(ns \<mapsto> (si_fresh si, maxSize)), si_fresh = Suc (si_fresh si)\<rparr>)))"

definition shm_kv_share :: "string \<Rightarrow> shm_instances \<Rightarrow> nat option" where
  "shm_kv_share ns si = map_option fst (si_table si ns)"

definition shm_name :: "string \<Rightarrow> string" where
  "shm_name ns = ''ST-SHM'' @ ''-'' @ ns"

text \<open>Whatever the first look has seen, \<open>create\<close> never makes a second instance for a namespace, and \<open>share\<close> finds the one.\<close>

lemma shm_kv_create_share:
  assumes "seen \<subseteq>\<^sub>m si_table si" and "shm_kv_create seen ns maxSize si = (shm, si')"
  shows "shm_kv_share ns si' = Some shm \<and> si_table si \<subseteq>\<^sub>m si_table si' \<and> (si_table si ns \<noteq> None \<longrightarrow> si' = si)"
proof (cases "seen ns")
  case None
  with assms(2) show ?thesis
    by (cases "si_table si ns") (auto simp: shm_kv_create_def shm_kv_share_def map_le_def)
next
  case (Some e)
  then have "si_table si ns = Some e" using assms(1) by (metis domI map_le_def)
  with Some assms(2) show ?thesis by (cases e) (auto simp: shm_kv_create_def shm_kv_share_def)
qed

interpretation shm: kv_store "\<lambda>seg. seg \<noteq> None" "\<lambda>seg k. shm_kv_get k seg" shm_kv_put
  "\<lambda>k seg. the (shm_kv_erase k seg)" "\<lambda>k. k \<noteq> [] \<and> CHR 0x00 \<notin> set k" "\<lambda>v. v \<noteq> [] \<and> CHR 0x00 \<notin> set v"
  by unfold_locales (auto simp: shm_kv_get_def shm_kv_put_def shm_kv_erase_def c_str_id)

section \<open>Properties\<close>

text \<open>
  C28. Reading what was written to the disk store: for every database and message code that obey
  their laws, after \<open>put\<close> and at any time the key holds the value up to its first NUL byte, and every other key
  what it held before. A value is read back as it was exactly when it contains no NUL.
\<close>

theorem disk_kv_get_put:
  assumes "leveldb_laws L" and "value_codec_laws C"
  shows "fst (disk_kv_get L C t k' (disk_kv_put L C now k v db)) =
           (if k' = k then c_str v else fst (disk_kv_get L C t k' db))
         \<and> (fst (disk_kv_get L C t k (disk_kv_put L C now k v db)) = v \<longleftrightarrow> CHR 0x00 \<notin> set v)"
  using disk_env.get_put [OF disk_env.intro [OF assms]] by (simp add: c_str_id_iff)

theorem disk_kv_get_put_witness:
  "fst (disk_kv_get list_db unary_codec 5000 ''b'' (disk_kv_put list_db unary_codec 5000 ''a'' [CHR ''x'', CHR 0x00] [])) =
     (if ''b'' = ''a'' then c_str [CHR ''x'', CHR 0x00] else fst (disk_kv_get list_db unary_codec 5000 ''b'' []))
   \<and> (fst (disk_kv_get list_db unary_codec 5000 ''a''
          (disk_kv_put list_db unary_codec 5000 ''a'' [CHR ''x'', CHR 0x00] [])) = [CHR ''x'', CHR 0x00]
        \<longleftrightarrow> CHR 0x00 \<notin> set [CHR ''x'', CHR 0x00])"
  by (rule disk_kv_get_put [OF list_db_laws unary_codec_laws])

text \<open>
  C29. Expiry in the disk store: a value written with a lifetime of \<open>e > 0\<close> seconds is returned by
  every read until the clock, in whole seconds, has advanced by \<open>e\<close>, and by none after; the read
  that finds it expired removes it and leaves all other keys alone.
\<close>

theorem disk_kv_expiry:
  assumes "leveldb_laws L" and "value_codec_laws C" and "0 < e" and "t div 1000 + e < 2 ^ 32"
  shows "let db1 = disk_kv_put_expire L C t k v e db; (r, db2) = disk_kv_get L C t' k db1 in
           (if t' div 1000 < t div 1000 + e then r = c_str v \<and> db2 = db1
            else r = [] \<and> ldb_get L db2 k = None \<and> (\<forall>k'. k' \<noteq> k \<longrightarrow> ldb_get L db2 k' = ldb_get L db k'))"
  using assms(2,3,4)
  by (simp add: disk_kv_put_expire_def disk_kv_get_def disk_kv_erase_def leveldb_laws_simps [OF assms(1)]
      value_codec_laws_def not_expired_def Let_def)

theorem disk_kv_expiry_witness:
  "let db1 = disk_kv_put_expire list_db unary_codec 1000 ''a'' ''x'' 2 []; (r, db2) = disk_kv_get list_db unary_codec 3500 ''a'' db1 in
     (if 3500 div 1000 < 1000 div 1000 + (2 :: nat) then r = c_str ''x'' \<and> db2 = db1
      else r = [] \<and> ldb_get list_db db2 ''a'' = None
        \<and> (\<forall>k'. k' \<noteq> ''a'' \<longrightarrow> ldb_get list_db db2 k' = ldb_get list_db [] k'))"
  by (rule disk_kv_expiry [OF list_db_laws unary_codec_laws]) simp_all

text \<open>
  \<open>list\<close> and \<open>get\<close> agree: the pairs handed to the consumer are exactly the keys with an
  unexpired value and that value, and after \<open>clear\<close> there is none.
\<close>

theorem disk_kv_list_complete:
  assumes "leveldb_laws L" and "value_codec_laws C"
  shows "((k, v) \<in> set (disk_kv_list L C now db) \<longrightarrow> fst (disk_kv_get L C now k db) = v)
       \<and> (fst (disk_kv_get L C now k db) \<noteq> [] \<longrightarrow> (k, fst (disk_kv_get L C now k db)) \<in> set (disk_kv_list L C now db))
       \<and> fst (disk_kv_get L C now k (disk_kv_clear L db)) = []"
proof -
  note env = disk_env.intro [OF assms]
  have "fst (disk_kv_get L C now k (disk_kv_clear L db)) = []"
    by (simp add: disk_kv_get_def disk_env.get_clear [OF env])
  then show ?thesis
    by (auto simp: disk_env.list_get [OF env] disk_kv_get_def Let_def split: option.splits if_splits)
qed

theorem disk_kv_list_complete_witness:
  "((''a'', ''x'') \<in> set (disk_kv_list list_db unary_codec 0 (disk_kv_put list_db unary_codec 0 ''a'' ''x'' []))
      \<longrightarrow> fst (disk_kv_get list_db unary_codec 0 ''a'' (disk_kv_put list_db unary_codec 0 ''a'' ''x'' [])) = ''x'')
   \<and> (fst (disk_kv_get list_db unary_codec 0 ''a'' (disk_kv_put list_db unary_codec 0 ''a'' ''x'' [])) \<noteq> []
      \<longrightarrow> (''a'', fst (disk_kv_get list_db unary_codec 0 ''a'' (disk_kv_put list_db unary_codec 0 ''a'' ''x'' [])))
            \<in> set (disk_kv_list list_db unary_codec 0 (disk_kv_put list_db unary_codec 0 ''a'' ''x'' [])))
   \<and> fst (disk_kv_get list_db unary_codec 0 ''a''
       (disk_kv_clear list_db (disk_kv_put list_db unary_codec 0 ''a'' ''x'' []))) = []"
  by (rule disk_kv_list_complete [OF list_db_laws unary_codec_laws])

text \<open>
  C30. The shared-memory store after any sequence of writes with non-empty keys and values without
  NUL bytes: every key has the value of its last write, or what it had before when it was not written.
\<close>

theorem shm_kv_put_sequence:
  assumes "seg \<noteq> None" and "\<forall>(k, v) \<in> set kvs. k \<noteq> [] \<and> CHR 0x00 \<notin> set k \<and> v \<noteq> [] \<and> CHR 0x00 \<notin> set v"
    and "k \<noteq> []" and "CHR 0x00 \<notin> set k"
  shows "shm_kv_get k (foldl (\<lambda>s (k, v). shm_kv_put k v s) seg kvs) =
           (case map_of (rev kvs) k of Some v \<Rightarrow> v | None \<Rightarrow> shm_kv_get k seg)"
  using shm.view_put_all [of seg kvs k] assms unfolding shm.put_all_def by auto

theorem shm_kv_put_sequence_witness:
  "shm_kv_get ''a'' (foldl (\<lambda>s (k, v). shm_kv_put k v s) (Some Map.empty) [(''a'', ''1''), (''b'', ''2''), (''a'', ''3'')]) =
     (case map_of (rev [(''a'', ''1''), (''b'', ''2''), (''a'', ''3'')]) ''a'' of Some v \<Rightarrow> v
      | None \<Rightarrow> shm_kv_get ''a'' (Some Map.empty))"
  by (rule shm_kv_put_sequence) simp_all

end
