(* ===== verification/Config.thy ===== *)
theory Config
  imports Area_Ip Dns_Domain
begin

text \<open>
  \<open>src/core/config.h\<close> and \<open>config.cpp\<close>: the upstream servers, their identifiers, the choice of the
  servers for a domain, and loading the configuration. The regular expressions of the standard
  library and the property trees of Boost are parameters: \<open>rx pattern text\<close> is the result of
  \<open>regex_match\<close>, or \<open>None\<close> when the pattern does not compile and the constructor throws.
\<close>

section \<open>Model\<close>

record remote_dns_server =
  sv_ip :: string
  sv_port :: int
  sv_type :: string
  whitelist :: "string list"
  blacklist :: "string list"
  sv_areas :: "string list"
  sv_timeout :: int
  sv_cache_expire :: int
  resolve_optimize_areas :: "(string \<times> u16) list"

definition int_to_string :: "int \<Rightarrow> string" where
  "int_to_string n = (if n < 0 then CHR ''-'' # to_string (nat (- n)) else to_string (nat n))"

definition generate_server_id :: "string \<Rightarrow> int \<Rightarrow> string" where
  "generate_server_id serverIp serverPort =
     map (\<lambda>c. if c = CHR ''.'' then CHR ''_'' else c) serverIp @ ''_'' @ int_to_string serverPort"

definition remote_dns_server_new :: "string \<Rightarrow> int \<Rightarrow> string \<Rightarrow> remote_dns_server" where
  "remote_dns_server_new ip port type = \<lparr>sv_ip = ip, sv_port = port, sv_type = type, whitelist = [],
     blacklist = [], sv_areas = [], sv_timeout = 100, sv_cache_expire = 10 * 60, resolve_optimize_areas = []\<rparr>"

definition server_id :: "remote_dns_server \<Rightarrow> string" where
  "server_id server = generate_server_id (sv_ip server) (sv_port server)"

subsection \<open>Choosing servers\<close>

type_synonym regex_match = "string \<Rightarrow> string \<Rightarrow> bool option"

text \<open>The loop over the whitelist of a server, in the iteration order of the set.\<close>

fun in_whitelist :: "regex_match \<Rightarrow> string \<Rightarrow> string list \<Rightarrow> bool option" where
  "in_whitelist rx dn [] = Some False"
| "in_whitelist rx dn (regex # regexes) =
     (if dn = regex \<or> str_find regex (''.'' @ dn) 0 \<noteq> None then Some True
      else (case rx regex dn of
          None \<Rightarrow> None
        | Some True \<Rightarrow> Some True
        | Some False \<Rightarrow> in_whitelist rx dn regexes))"

fun select_loop :: "regex_match \<Rightarrow> string \<Rightarrow> string \<Rightarrow> remote_dns_server list \<Rightarrow> remote_dns_server list
    \<Rightarrow> remote_dns_server list option" where
  "select_loop rx dn fiDomain [] result = Some result"
| "select_loop rx dn fiDomain (server # servers) result =
     (if (fiDomain = ''LAN'' \<or> fiDomain = ''ARPA'') \<and> ''LAN'' \<notin> set (sv_areas server)
      then select_loop rx dn fiDomain servers result
      else (case in_whitelist rx dn (whitelist server) of
          None \<Rightarrow> None
        | Some True \<Rightarrow> Some [server]
        | Some False \<Rightarrow>
            if dn \<in> set (blacklist server) then select_loop rx dn fiDomain servers result
            else select_loop rx dn fiDomain servers (result @ [server])))"

definition select_servers :: "regex_match \<Rightarrow> string \<Rightarrow> remote_dns_server list \<Rightarrow> remote_dns_server list option" where
  "select_servers rx dn servers = select_loop rx dn (getFIDomain dn) servers []"

subsection \<open>Loading\<close>

record config =
  cf_ip :: string
  cf_port :: int
  console_ip :: string
  console_port :: int
  cf_cache_expire :: u32
  base_conf_dir :: string
  cf_servers :: "remote_dns_server list"
  cf_interfaces :: "area_ip_net_interface list"

definition config_default :: config where
  "config_default = \<lparr>cf_ip = ''127.0.0.1'', cf_port = 53, console_ip = ''127.0.0.1'', console_port = 5757,
     cf_cache_expire = 60 * 10, base_conf_dir = ''/usr/local/etc/st/dns'', cf_servers = [], cf_interfaces = []\<rparr>"

text \<open>How loading can end without a configuration.\<close>

datatype config_error = Exit_1 | Bad_Path | Conversion std_exn | Area_Fault cpp_fault

text \<open>The areas of a server: every non-empty entry is loaded by the area manager and kept.\<close>

fun load_areas :: "http_get \<Rightarrow> string list \<Rightarrow> string list \<Rightarrow> area_manager
    \<Rightarrow> (config_error + string list) \<times> area_manager" where
  "load_areas http [] areas m = (Inr areas, m)"
| "load_areas http (area # rest) areas m =
     (if area \<noteq> [] then
        (case load_area_ips http area m of
           (Inl e, m') \<Rightarrow> (Inl (Area_Fault e), m')
         | (Inr _, m') \<Rightarrow> load_areas http rest (areas @ [area]) m')
      else load_areas http rest areas m)"

definition node_values :: "'p ptree_ops \<Rightarrow> 'p option \<Rightarrow> string list" where
  "node_values ops node = (case node of None \<Rightarrow> [] | Some p \<Rightarrow> map (\<lambda>(k, v). pt_value ops v) (pt_children ops p))"

definition load_server :: "http_get \<Rightarrow> 'p ptree_ops \<Rightarrow> u32 \<Rightarrow> 'p \<Rightarrow> area_manager
    \<Rightarrow> (config_error + remote_dns_server) \<times> area_manager" where
  "load_server http ops default_expire node m =
     (let serverIp = pt_get ops node ''ip'' [] in
      if serverIp = [] then (Inl Exit_1, m)
      else
        (let server = (remote_dns_server_new serverIp (pt_get_int ops node ''port'' 53) (pt_get ops node ''type'' ''UDP''))
               \<lparr>whitelist := remdups (node_values ops (pt_get_child ops node ''whitelist''))\<rparr>
         in case stoi (pt_get ops node ''dns_cache_expire'' (to_string (unat default_expire))) of
              Inl e \<Rightarrow> (Inl (Conversion e), m)
            | Inr expire \<Rightarrow>
                (case load_areas http (node_values ops (pt_get_child ops node ''areas'')) [] m of
                   (Inl e, m') \<Rightarrow> (Inl e, m')
                 | (Inr areas, m') \<Rightarrow>
                     (Inr (server\<lparr>sv_cache_expire := expire, sv_timeout := pt_get_int ops node ''timeout'' 100,
                                  sv_areas := areas\<rparr>), m'))))"

fun load_servers :: "http_get \<Rightarrow> 'p ptree_ops \<Rightarrow> u32 \<Rightarrow> 'p list \<Rightarrow> remote_dns_server list \<Rightarrow> area_manager
    \<Rightarrow> (config_error + remote_dns_server list) \<times> area_manager" where
  "load_servers http ops expire [] servers m = (Inr servers, m)"
| "load_servers http ops expire (node # nodes) servers m =
     (case load_server http ops expire node m of
        (Inl e, m') \<Rightarrow> (Inl e, m')
      | (Inr server, m') \<Rightarrow> load_servers http ops expire nodes (servers @ [server]) m')"

text \<open>\<open>file\<close> is the text of \<open>config.json\<close>, if the file exists.\<close>

definition config_load :: "http_get \<Rightarrow> 'p ptree_ops \<Rightarrow> string \<Rightarrow> string option \<Rightarrow> config \<Rightarrow> area_manager
    \<Rightarrow> (config_error + config) \<times> area_manager" where
  "config_load http ops dir file conf m =
     (case file of
        None \<Rightarrow> (Inl Exit_1, m)
      | Some text \<Rightarrow>
          (case pt_read_json ops text of
             None \<Rightarrow> (Inl Exit_1, m)
           | Some tree \<Rightarrow>
               (case stoi (pt_get ops tree ''dns_cache_expire'' (to_string (unat (cf_cache_expire conf)))) of
                  Inl e \<Rightarrow> (Inl (Conversion e), m)
                | Inr expire \<Rightarrow>
                    (let conf = conf\<lparr>base_conf_dir := dir, cf_ip := pt_get ops tree ''ip'' ''127.0.0.1'',
                           cf_port := pt_get_int ops tree ''port'' (cf_port conf),
                           console_port := pt_get_int ops tree ''console_port'' (console_port conf),
                           console_ip := pt_get ops tree ''console_ip'' ''127.0.0.1'',
                           cf_cache_expire := word_of_int expire\<rparr>
                     in case pt_get_child ops tree ''servers'' of
                          None \<Rightarrow> (Inl Bad_Path, m)
                        | Some nodes \<Rightarrow>
                            (case load_servers http ops (cf_cache_expire conf) (map snd (pt_children ops nodes))
                                    (cf_servers conf) m of
                               (Inl e, m') \<Rightarrow> (Inl e, m')
                             | (Inr servers, m') \<Rightarrow>
                                 (if servers = [] then (Inl Exit_1, m')
                                  else (case pt_get_child ops tree ''area_ip_config'' of
                                      None \<Rightarrow> (Inr (conf\<lparr>cf_servers := servers\<rparr>), m')
                                    | Some node \<Rightarrow>
                                        (case pt_get_child ops node ''interfaces'' of
                                           None \<Rightarrow> (Inl Bad_Path, m')
                                         | Some ifs \<Rightarrow>
                                             (let is = area_ip_config_load ops ifs (cf_interfaces conf)
                                              in (Inr (conf\<lparr>cf_servers := servers, cf_interfaces := is\<rparr>),
                                                  m'\<lparr>interfaces := is\<rparr>))))))))))"

section \<open>Choosing servers\<close>

text \<open>The servers that are asked at all, and those that claim a domain for themselves.\<close>

definition eligible :: "string \<Rightarrow> remote_dns_server \<Rightarrow> bool" where
  "eligible dn s \<longleftrightarrow> getFIDomain dn \<in> {''LAN'', ''ARPA''} \<longrightarrow> ''LAN'' \<in> set (sv_areas s)"

definition claims :: "regex_match \<Rightarrow> string \<Rightarrow> remote_dns_server \<Rightarrow> bool" where
  "claims rx dn s \<longleftrightarrow> (\<exists>w \<in> set (whitelist s).
     dn = w \<or> str_find w (''.'' @ dn) 0 \<noteq> None \<or> rx w dn = Some True)"

lemma in_whitelist_claims:
  assumes "\<forall>w \<in> set ws. rx w dn \<noteq> None"
  shows "in_whitelist rx dn ws = Some (\<exists>w \<in> set ws. dn = w \<or> str_find w (''.'' @ dn) 0 \<noteq> None
           \<or> rx w dn = Some True)"
  using assms by (induction ws) (auto split: option.splits bool.splits)

lemma select_loop_correct:
  assumes "\<forall>s \<in> set servers. \<forall>w \<in> set (whitelist s). rx w dn \<noteq> None"
  shows "select_loop rx dn (getFIDomain dn) servers result =
     Some (case find (\<lambda>s. eligible dn s \<and> claims rx dn s) servers of
             Some s \<Rightarrow> [s]
           | None \<Rightarrow> result @ filter (\<lambda>s. eligible dn s \<and> dn \<notin> set (blacklist s)) servers)"
  using assms
proof (induction servers arbitrary: result)
  case Nil
  then show ?case by simp
next
  case (Cons s servers)
  have "in_whitelist rx dn (whitelist s) = Some (claims rx dn s)"
    using in_whitelist_claims [of "whitelist s" rx dn] Cons.prems by (simp add: claims_def)
  moreover have "((getFIDomain dn = ''LAN'' \<or> getFIDomain dn = ''ARPA'') \<and> ''LAN'' \<notin> set (sv_areas s)) = (\<not> eligible dn s)"
    by (auto simp: eligible_def)
  ultimately show ?case
    using Cons by (cases "claims rx dn s") (simp_all split: option.splits)
qed

section \<open>Identifiers\<close>

abbreviation undot :: "string \<Rightarrow> string" where
  "undot s \<equiv> map (\<lambda>c. if c = CHR ''.'' then CHR ''_'' else c) s"

lemma undot_to_string: "undot (to_string n) = to_string n"
  by (rule map_idI) (use to_string_digits is_digit_not in auto)

lemma server_id_parts:
  "generate_server_id (ip_to_str ip) (int p) = sep_join ''_''
     [to_string (unat (octet ip 3)), to_string (unat (octet ip 2)), to_string (unat (octet ip 1)),
      to_string (unat (octet ip 0)), to_string p]"
  unfolding generate_server_id_def int_to_string_def ip_to_str_def octet_masks
  by (simp add: undot_to_string)

lemma to_string_inject: "to_string m = to_string n \<longleftrightarrow> m = n"
  by (metis digits_value_to_string)

section \<open>Loaded configurations\<close>

lemma load_areas_nonempty:
  "load_areas http vs areas m = (Inr areas', m') \<Longrightarrow> areas' = areas @ filter (\<lambda>a. a \<noteq> []) vs"
proof (induction http vs areas m rule: load_areas.induct)
  case (1 http areas m)
  then show ?case by simp
next
  case (2 http a rest areas m)
  then show ?case by (cases "a = []") (auto split: prod.splits sum.splits)
qed

text \<open>The server of a node: every field with the value of the node or its default.\<close>

definition loaded_server :: "'p ptree_ops \<Rightarrow> u32 \<Rightarrow> 'p \<Rightarrow> remote_dns_server \<Rightarrow> bool" where
  "loaded_server ops default_expire node s \<longleftrightarrow> sv_ip s \<noteq> []
     \<and> sv_ip s = pt_get ops node ''ip'' [] \<and> sv_port s = pt_get_int ops node ''port'' 53
     \<and> sv_type s = pt_get ops node ''type'' ''UDP''
     \<and> distinct (whitelist s) \<and> set (whitelist s) = set (node_values ops (pt_get_child ops node ''whitelist''))
     \<and> blacklist s = []
     \<and> sv_areas s = filter (\<lambda>a. a \<noteq> []) (node_values ops (pt_get_child ops node ''areas''))
     \<and> sv_timeout s = pt_get_int ops node ''timeout'' 100
     \<and> stoi (pt_get ops node ''dns_cache_expire'' (to_string (unat default_expire))) = Inr (sv_cache_expire s)
     \<and> resolve_optimize_areas s = []"

lemma load_server_loaded: "load_server http ops e node m = (Inr s, m') \<Longrightarrow> loaded_server ops e node s"
  by (auto simp: load_server_def loaded_server_def Let_def remote_dns_server_new_def split: if_splits sum.splits prod.splits
      dest: load_areas_nonempty)

lemma load_servers_loaded:
  "load_servers http ops e nodes servers m = (Inr servers', m') \<Longrightarrow>
     \<exists>new. servers' = servers @ new \<and> list_all2 (loaded_server ops e) nodes new"
proof (induction http ops e nodes servers m rule: load_servers.induct)
  case (1 http ops e servers m)
  then show ?case by simp
next
  case (2 http ops e node nodes servers m)
  then obtain s m1 where s: "load_server http ops e node m = (Inr s, m1)"
    and rest: "load_servers http ops e nodes (servers @ [s]) m1 = (Inr servers', m')"
    by (auto split: prod.splits sum.splits)
  obtain new where "servers' = (servers @ [s]) @ new" and "list_all2 (loaded_server ops e) nodes new"
    using "2.IH" [OF s [symmetric] refl rest] by blast
  with load_server_loaded [OF s] show ?case by (intro exI [of _ "s # new"]) auto
qed

section \<open>Properties\<close>

text \<open>
  C23. The choice of servers for a domain, when all patterns compile: the first server that is
  eligible and claims the domain by its whitelist is the only one; if there is none, all eligible
  servers that do not blacklist the domain, in their order. Only servers of the area \<open>LAN\<close> are
  eligible for names under \<open>lan\<close> and \<open>arpa\<close>.
\<close>

theorem select_servers_correct:
  assumes "\<forall>s \<in> set servers. \<forall>w \<in> set (whitelist s). rx w dn \<noteq> None"
  shows "select_servers rx dn servers =
     Some (case find (\<lambda>s. eligible dn s \<and> claims rx dn s) servers of
             Some s \<Rightarrow> [s]
           | None \<Rightarrow> filter (\<lambda>s. eligible dn s \<and> dn \<notin> set (blacklist s)) servers)"
  using select_loop_correct [of servers rx dn "[]"] assms
  by (simp add: select_servers_def cong: option.case_cong)

theorem select_servers_correct_witness:
  "select_servers (\<lambda>p t. Some (p = t)) ''a.cn''
     [remote_dns_server_new ''1.1.1.1'' 53 ''UDP'', (remote_dns_server_new ''2.2.2.2'' 53 ''UDP'')\<lparr>whitelist := [''a.cn'']\<rparr>] =
     Some (case find (\<lambda>s. eligible ''a.cn'' s \<and> claims (\<lambda>p t. Some (p = t)) ''a.cn'' s)
               [remote_dns_server_new ''1.1.1.1'' 53 ''UDP'', (remote_dns_server_new ''2.2.2.2'' 53 ''UDP'')\<lparr>whitelist := [''a.cn'']\<rparr>] of
             Some s \<Rightarrow> [s]
           | None \<Rightarrow> filter (\<lambda>s. eligible ''a.cn'' s \<and> ''a.cn'' \<notin> set (blacklist s))
               [remote_dns_server_new ''1.1.1.1'' 53 ''UDP'', (remote_dns_server_new ''2.2.2.2'' 53 ''UDP'')\<lparr>whitelist := [''a.cn'']\<rparr>])"
  by (rule select_servers_correct) simp

text \<open>
  A subdomain of a whitelisted name is not matched by the suffix test: the code looks for
  \<open>"." + domain\<close> inside the pattern, so it accepts the parent of a whitelisted name instead. With
  patterns that match only themselves, \<open>www.a.cn\<close> is not claimed by the entry \<open>a.cn\<close>, and \<open>cn\<close> is.
\<close>

theorem whitelist_suffix_reversed:
  "in_whitelist (\<lambda>p t. Some (p = t)) ''www.a.cn'' [''a.cn''] = Some False
   \<and> in_whitelist (\<lambda>p t. Some (p = t)) ''cn'' [''a.cn''] = Some True"
  by code_simp

text \<open>
  Server identifiers, the keys under which answers are cached, are unique: two servers given by
  IPv4 addresses and ports have the same identifier only if both agree.
\<close>

theorem generate_server_id_unique:
  "generate_server_id (ip_to_str a) (int p) = generate_server_id (ip_to_str b) (int q) \<longleftrightarrow> a = b \<and> p = q"
proof
  let ?parts = "\<lambda>ip p. [to_string (unat (octet ip 3)), to_string (unat (octet ip 2)), to_string (unat (octet ip 1)),
      to_string (unat (octet ip 0)), to_string p]"
  assume eq: "generate_server_id (ip_to_str a) (int p) = generate_server_id (ip_to_str b) (int q)"
  have us: "CHR ''_'' \<notin> set (to_string n)" for n
    using to_string_digits [of "CHR ''_''" n] by (auto simp: is_digit_def)
  have "split_on (CHR ''_'') (sep_join ''_'' (?parts ip n)) = ?parts ip n" for ip n
    by (rule split_on_sep_join) (auto simp: us)
  then have "?parts a p = ?parts b q" using eq unfolding server_id_parts by metis
  then have "octet a 3 = octet b 3" "octet a 2 = octet b 2" "octet a 1 = octet b 1" "octet a 0 = octet b 0"
    by (simp_all add: to_string_inject word_unat_eq_iff)
  then have "a = b" using octets_join [of a] octets_join [of b] by simp
  with \<open>?parts a p = ?parts b q\<close> show "a = b \<and> p = q" by (simp add: to_string_inject)
qed simp


text \<open>A file with two servers, as property tree operations on numbered nodes.\<close>

definition two_servers_tree :: "nat ptree_ops" where
  "two_servers_tree = \<lparr>pt_read_json = (\<lambda>_. Some 0),
     pt_children = (\<lambda>p. if p = 1 then [([], 2), ([], 3)] else if p = 4 then [([], 5), ([], 6)] else []),
     pt_get_child = (\<lambda>p k. if p = 0 \<and> k = ''servers'' then Some 1 else if p = 2 \<and> k = ''areas'' then Some 4 else None),
     pt_get = (\<lambda>p k d. if p = 2 \<and> k = ''ip'' then ''8.8.8.8'' else if p = 3 \<and> k = ''ip'' then ''1.1.1.1''
        else if p = 3 \<and> k = ''type'' then ''TCP_SSL'' else if p = 2 \<and> k = ''dns_cache_expire'' then ''30'' else d),
     pt_get_int = (\<lambda>p k d. if p = 3 \<and> k = ''port'' then 853 else if p = 2 \<and> k = ''timeout'' then 250 else d),
     pt_value = (\<lambda>p. if p = 5 then ''US'' else [])\<rparr>"

definition sample_area_manager :: area_manager where
  "sample_area_manager = \<lparr>default_caches = Map.empty, net_caches = Map.empty, am_ips = [], last_load_ip_info_time = 0,
     last_load_area_ips_time = 0, interfaces = [], files = Map.empty, ctx_tasks = [], delay_timers = []\<rparr>"


end
