(* ===== verification/Record_Manager.thy ===== *)
theory Record_Manager
  imports Config Kv "HOL-Library.Multiset" "HOL-Library.Countable"
begin

text \<open>
  The cache of answers, \<open>src/core/dns_record_manager.h\<close> and \<open>dns_record_manager.cpp\<close>: one record per
  domain with the answers of every server, a reverse index from addresses to domains, and the
  choice of the addresses handed to clients. The generated message code is a parameter
  (\<open>records_codec\<close>), and so are the orders that \<open>std::sort\<close> and \<open>std::shuffle\<close> produce.
\<close>

section \<open>Model\<close>

subsection \<open>Data\<close>

record proto_record =
  pr_expire :: u32
  pr_ips :: "u32 list"

record proto_records =
  ps_domain :: string
  ps_map :: "(string \<times> proto_record) list"

text \<open>\<open>map[key] = value\<close> on the entries of a protobuf map.\<close>

fun map_set :: "'k \<Rightarrow> 'v \<Rightarrow> ('k \<times> 'v) list \<Rightarrow> ('k \<times> 'v) list" where
  "map_set k v [] = [(k, v)]"
| "map_set k v ((k', v') # kvs) = (if k' = k then (k, v) # kvs else (k', v') # map_set k v kvs)"

record reverse_record =
  rr_ip :: u32
  rr_domains :: "string list"

record records_codec =
  rc_serialize :: "proto_records \<Rightarrow> string"
  rc_parse :: "string \<Rightarrow> proto_records"
  rv_serialize :: "reverse_record \<Rightarrow> string"
  rv_parse :: "string \<Rightarrow> reverse_record"

record dns_ip_record =
  ir_ip :: u32
  ir_match_area :: bool
  ir_forbid :: bool
  ir_expire :: bool
  ir_expire_time :: nat
  ir_server :: string
  ir_server_order :: u8

definition ip_record_compare :: "dns_ip_record \<Rightarrow> dns_ip_record \<Rightarrow> bool" where
  "ip_record_compare a b =
     (if ir_match_area a \<noteq> ir_match_area b then ir_match_area a
      else if ir_forbid a \<noteq> ir_forbid b then ir_forbid b
      else ir_server_order a < ir_server_order b)"

record dns_record =
  dr_ips :: "u32 list"
  dr_expire_time :: nat
  dr_server :: string
  dr_domain :: string
  dr_servers :: "string list"
  dr_expire :: bool
  dr_match_area :: bool
  trusted_ip_count :: nat
  total_ip_count :: nat

definition dns_record_empty :: dns_record where
  "dns_record_empty = \<lparr>dr_ips = [], dr_expire_time = 0, dr_server = [], dr_domain = [], dr_servers = [],
     dr_expire = False, dr_match_area = False, trusted_ip_count = 0, total_ip_count = 0\<rparr>"

definition bool_digit :: "bool \<Rightarrow> string" where
  "bool_digit b = (if b then ''1'' else ''0'')"

definition dns_record_serialize :: "dns_record \<Rightarrow> string" where
  "dns_record_serialize r = dr_server r @ tab @ dr_domain r @ tab @ to_string (dr_expire_time r) @ tab @
     bool_digit (dr_match_area r) @ tab @ ips_to_str (dr_ips r) @ tab @ bool_digit (dr_expire r)"

subsection \<open>Choosing addresses\<close>

text \<open>
  The first loop of \<open>transform\<close>: one entry per server and address. The counter of servers is a
  \<open>uint8_t\<close>. Asking for the area of an address may post tasks to the area manager.
\<close>

fun collect_ips :: "nat \<Rightarrow> string list \<Rightarrow> remote_dns_server \<Rightarrow> u8 \<Rightarrow> proto_record \<Rightarrow> u32 list \<Rightarrow> area_manager
    \<Rightarrow> dns_ip_record list \<times> area_manager" where
  "collect_ips now ord server server_order rec [] m = ([], m)"
| "collect_ips now ord server server_order rec (ip # ips) m =
     (let (matched, m1) = is_area_ip now ord (sv_areas server) ip m;
          tmp = \<lparr>ir_ip = ip, ir_match_area = matched, ir_forbid = False,
                 ir_expire = (unat (pr_expire rec) < now div 1000), ir_expire_time = unat (pr_expire rec),
                 ir_server = server_id server, ir_server_order = server_order\<rparr>;
          (rest, m2) = collect_ips now ord server server_order rec ips m1
      in (tmp # rest, m2))"

fun collect_servers :: "nat \<Rightarrow> string list \<Rightarrow> (string \<rightharpoonup> proto_record) \<Rightarrow> u8 \<Rightarrow> remote_dns_server list \<Rightarrow> area_manager
    \<Rightarrow> dns_ip_record list \<times> area_manager" where
  "collect_servers now ord mp server_order [] m = ([], m)"
| "collect_servers now ord mp server_order (server # servers) m =
     (let server_order' = server_order + 1;
          (items, m1) = (case mp (server_id server) of
              None \<Rightarrow> ([], m)
            | Some rec \<Rightarrow> collect_ips now ord server server_order' rec (pr_ips rec) m);
          (rest, m2) = collect_servers now ord mp server_order' servers m1
      in (items @ rest, m2))"

text \<open>The second loop: trusted addresses, all from one server, without repetition.\<close>

fun pick_trusted :: "dns_ip_record list \<Rightarrow> string \<Rightarrow> dns_record \<Rightarrow> dns_record" where
  "pick_trusted [] server record = record"
| "pick_trusted (item # items) server record =
     (if ir_match_area item \<and> \<not> ir_forbid item then
        (if server \<noteq> [] \<and> ir_server item \<noteq> server then pick_trusted items server record
         else if ir_ip item \<in> set (dr_ips record) then pick_trusted items server record
         else pick_trusted items (ir_server item)
                (record\<lparr>trusted_ip_count := trusted_ip_count record + 1, dr_ips := dr_ips record @ [ir_ip item],
                        total_ip_count := total_ip_count record + 1\<rparr>))
      else pick_trusted items server (record\<lparr>total_ip_count := total_ip_count record + 1\<rparr>))"

fun pick_all :: "dns_ip_record list \<Rightarrow> u32 list \<Rightarrow> u32 list" where
  "pick_all [] ips = ips"
| "pick_all (item # items) ips =
     (if ir_ip item \<in> set ips then pick_all items ips else pick_all items (ips @ [ir_ip item]))"

text \<open>
  \<open>transform\<close> of the manager. \<open>srt\<close> and \<open>shuf\<close> are what \<open>sort\<close> and \<open>shuffle\<close> do to their vectors. The
  outer \<open>None\<close> is the exception of a whitelist pattern.
\<close>

definition manager_transform ::
  "regex_match \<Rightarrow> (dns_ip_record list \<Rightarrow> dns_ip_record list) \<Rightarrow> (u32 list \<Rightarrow> u32 list) \<Rightarrow> nat \<Rightarrow> string list
     \<Rightarrow> remote_dns_server list \<Rightarrow> proto_records \<Rightarrow> area_manager \<Rightarrow> (dns_record \<times> area_manager) option" where
  "manager_transform rx srt shuf now ord all_servers records m = do {
     servers \<leftarrow> select_servers rx (ps_domain records) all_servers;
     let (items, m') = collect_servers now ord (map_of (ps_map records)) 0 servers m;
     let record = dns_record_empty\<lparr>dr_domain := ps_domain records, dr_servers := remdups (map ir_server items)\<rparr>;
     let ip_records = srt items;
     let record = pick_trusted ip_records [] record;
     let record = (if dr_ips record = [] then record\<lparr>dr_ips := pick_all ip_records []\<rparr> else record);
     let record = record\<lparr>dr_ips := shuf (dr_ips record)\<rparr>;
     Some (if ip_records \<noteq> []
           then record\<lparr>dr_match_area := ir_match_area (hd ip_records), dr_expire_time := ir_expire_time (hd ip_records),
                       dr_server := ir_server (hd ip_records), dr_expire := ir_expire (hd ip_records)\<rparr>
           else record, m') }"

subsection \<open>Storing and reading\<close>

record 'd dns_record_manager =
  rm_db :: 'd
  rm_reverse :: 'd

definition get_dns_records_pb ::
  "'d leveldb_ops \<Rightarrow> value_codec \<Rightarrow> records_codec \<Rightarrow> nat \<Rightarrow> string \<Rightarrow> 'd dns_record_manager
     \<Rightarrow> proto_records \<times> 'd dns_record_manager" where
  "get_dns_records_pb L C R now dn rm =
     (let (data, db) = disk_kv_get L C now dn (rm_db rm);
          record = (if data \<noteq> [] then rc_parse R data else \<lparr>ps_domain = [], ps_map = []\<rparr>)
      in (record\<lparr>ps_domain := dn\<rparr>, rm\<lparr>rm_db := db\<rparr>))"

definition reverse_resolve ::
  "'d leveldb_ops \<Rightarrow> value_codec \<Rightarrow> records_codec \<Rightarrow> nat \<Rightarrow> u32 \<Rightarrow> 'd dns_record_manager
     \<Rightarrow> reverse_record \<times> 'd dns_record_manager" where
  "reverse_resolve L C R now ip rm =
     (let (data, db) = disk_kv_get L C now (to_string (unat ip)) (rm_reverse rm);
          record = (if data \<noteq> [] then rv_parse R data else \<lparr>rr_ip = 0, rr_domains = []\<rparr>)
      in (record\<lparr>rr_ip := ip\<rparr>, rm\<lparr>rm_reverse := db\<rparr>))"

definition add_reverse_record ::
  "'d leveldb_ops \<Rightarrow> value_codec \<Rightarrow> records_codec \<Rightarrow> nat \<Rightarrow> u32 \<Rightarrow> string \<Rightarrow> 'd dns_record_manager
     \<Rightarrow> 'd dns_record_manager" where
  "add_reverse_record L C R now ip dn rm =
     (let (record, rm1) = reverse_resolve L C R now ip rm
      in if dn \<notin> set (rr_domains record)
         then rm1\<lparr>rm_reverse := disk_kv_put L C now (to_string (unat ip))
                     (rv_serialize R (record\<lparr>rr_domains := rr_domains record @ [dn]\<rparr>)) (rm_reverse rm1)\<rparr>
         else rm1)"

fun add_ips :: "'d leveldb_ops \<Rightarrow> value_codec \<Rightarrow> records_codec \<Rightarrow> nat \<Rightarrow> string \<Rightarrow> u32 list
    \<Rightarrow> 'd dns_record_manager \<Rightarrow> area_manager \<Rightarrow> 'd dns_record_manager \<times> area_manager" where
  "add_ips L C R now dn [] rm m = (rm, m)"
| "add_ips L C R now dn (ip # ips) rm m =
     add_ips L C R now dn ips (add_reverse_record L C R now ip dn rm) (async_load_ip_info_from_net ip m)"

definition record_manager_add ::
  "'d leveldb_ops \<Rightarrow> value_codec \<Rightarrow> records_codec \<Rightarrow> nat \<Rightarrow> string \<Rightarrow> u32 list \<Rightarrow> string \<Rightarrow> int
     \<Rightarrow> 'd dns_record_manager \<Rightarrow> area_manager \<Rightarrow> 'd dns_record_manager \<times> area_manager" where
  "record_manager_add L C R now dn ips dns_server expire rm m =
     (let (dns_records, rm1) = get_dns_records_pb L C R now dn rm;
          pb = \<lparr>pr_expire = word_of_int (expire + int (now div 1000)), pr_ips = ips\<rparr>;
          (rm2, m') = add_ips L C R now dn ips rm1 m;
          dns_records = dns_records\<lparr>ps_domain := dn, ps_map := map_set dns_server pb (ps_map dns_records)\<rparr>
      in (rm2\<lparr>rm_db := disk_kv_put L C now dn (rc_serialize R dns_records) (rm_db rm2)\<rparr>, m'))"

definition record_manager_resolve ::
  "'d leveldb_ops \<Rightarrow> value_codec \<Rightarrow> records_codec \<Rightarrow> regex_match \<Rightarrow> (dns_ip_record list \<Rightarrow> dns_ip_record list)
     \<Rightarrow> (u32 list \<Rightarrow> u32 list) \<Rightarrow> nat \<Rightarrow> string list \<Rightarrow> remote_dns_server list \<Rightarrow> string
     \<Rightarrow> 'd dns_record_manager \<Rightarrow> area_manager \<Rightarrow> (dns_record \<times> 'd dns_record_manager \<times> area_manager) option" where
  "record_manager_resolve L C R rx srt shuf now ord servers dn rm m = do {
     let (records, rm1) = get_dns_records_pb L C R now dn rm;
     (record, m') \<leftarrow> manager_transform rx srt shuf now ord servers records m;
     Some (record, rm1, m') }"

definition record_manager_remove :: "'d leveldb_ops \<Rightarrow> string \<Rightarrow> 'd dns_record_manager \<Rightarrow> 'd dns_record_manager" where
  "record_manager_remove L dn rm = rm\<lparr>rm_db := disk_kv_erase L dn (rm_db rm)\<rparr>"

definition record_manager_clear :: "'d leveldb_ops \<Rightarrow> 'd dns_record_manager \<Rightarrow> 'd dns_record_manager" where
  "record_manager_clear L rm = rm\<lparr>rm_db := disk_kv_clear L (rm_db rm)\<rparr>"

text \<open>\<open>dns_record::transform\<close>: one record per configured server that has answered.\<close>

fun match_any :: "nat \<Rightarrow> string list \<Rightarrow> string list \<Rightarrow> u32 list \<Rightarrow> area_manager \<Rightarrow> bool \<times> area_manager" where
  "match_any now ord areas [] m = (False, m)"
| "match_any now ord areas (ip # ips) m =
     (let (b, m1) = is_area_ip now ord areas ip m in if b then (True, m1) else match_any now ord areas ips m1)"

fun list_records :: "nat \<Rightarrow> string list \<Rightarrow> proto_records \<Rightarrow> remote_dns_server list \<Rightarrow> area_manager
    \<Rightarrow> dns_record list \<times> area_manager" where
  "list_records now ord records [] m = ([], m)"
| "list_records now ord records (server # servers) m =
     (case map_of (ps_map records) (server_id server) of
        None \<Rightarrow> list_records now ord records servers m
      | Some item \<Rightarrow>
          (let (b, m1) = match_any now ord (sv_areas server) (pr_ips item) m;
               record = dns_record_empty\<lparr>dr_ips := pr_ips item, dr_expire_time := unat (pr_expire item),
                          dr_server := server_id server, dr_domain := ps_domain records, dr_match_area := b,
                          dr_expire := (unat (pr_expire item) < now div 1000)\<rparr>;
               (rest, m2) = list_records now ord records servers m1
           in (record # rest, m2)))"

definition dns_record_transform :: "nat \<Rightarrow> string list \<Rightarrow> remote_dns_server list \<Rightarrow> proto_records \<Rightarrow> area_manager
    \<Rightarrow> dns_record list \<times> area_manager" where
  "dns_record_transform now ord servers records m =
     (if ps_domain records \<noteq> [] then list_records now ord records servers m else ([], m))"

definition get_dns_record_list ::
  "'d leveldb_ops \<Rightarrow> value_codec \<Rightarrow> records_codec \<Rightarrow> nat \<Rightarrow> string list \<Rightarrow> remote_dns_server list \<Rightarrow> string
     \<Rightarrow> 'd dns_record_manager \<Rightarrow> area_manager \<Rightarrow> dns_record list \<times> 'd dns_record_manager \<times> area_manager" where
  "get_dns_record_list L C R now ord servers dn rm m =
     (let (records, rm1) = get_dns_records_pb L C R now dn rm;
          (rs, m') = dns_record_transform now ord servers records m
      in (rs, rm1, m'))"

text \<open>The text that \<open>dump\<close> writes, from the stored pairs in the order of the database.\<close>

fun dump_records :: "records_codec \<Rightarrow> nat \<Rightarrow> string list \<Rightarrow> remote_dns_server list \<Rightarrow> (string \<times> string) list \<Rightarrow> area_manager
    \<Rightarrow> string \<times> area_manager" where
  "dump_records R now ord servers [] m = ([], m)"
| "dump_records R now ord servers ((key, value) # kvs) m =
     (let (rs, m1) = dns_record_transform now ord servers (rc_parse R value) m;
          (rest, m2) = dump_records R now ord servers kvs m1
      in (concat (map (\<lambda>r. dns_record_serialize r @ [CHR 0x0A]) rs) @ rest, m2))"

record dns_record_stats =
  total_domain :: u32
  trusted_domain :: u32
  total_ip :: u32
  trusted_ip :: u16

fun record_stats :: "records_codec \<Rightarrow> regex_match \<Rightarrow> (dns_ip_record list \<Rightarrow> dns_ip_record list) \<Rightarrow> (u32 list \<Rightarrow> u32 list)
    \<Rightarrow> nat \<Rightarrow> string list \<Rightarrow> remote_dns_server list \<Rightarrow> (string \<times> string) list \<Rightarrow> dns_record_stats \<Rightarrow> area_manager
    \<Rightarrow> (dns_record_stats \<times> area_manager) option" where
  "record_stats R rx srt shuf now ord servers [] st m = Some (st, m)"
| "record_stats R rx srt shuf now ord servers ((key, value) # kvs) st m =
     (let records = rc_parse R value in
      if ps_domain records \<noteq> [] then do {
        (record, m') \<leftarrow> manager_transform rx srt shuf now ord servers records m;
        record_stats R rx srt shuf now ord servers kvs
          (st\<lparr>total_domain := total_domain st + 1, total_ip := total_ip st + word_of_nat (total_ip_count record),
              trusted_ip := trusted_ip st + word_of_nat (trusted_ip_count record),
              trusted_domain := trusted_domain st + (if dr_match_area record then 1 else 0)\<rparr>) m' }
      else record_stats R rx srt shuf now ord servers kvs st m)"

section \<open>Ordering\<close>

text \<open>What \<open>std::sort\<close> and \<open>std::shuffle\<close> guarantee.\<close>

definition sort_laws :: "(dns_ip_record list \<Rightarrow> dns_ip_record list) \<Rightarrow> bool" where
  "sort_laws srt \<longleftrightarrow> (\<forall>xs. mset (srt xs) = mset xs \<and> sorted_wrt (\<lambda>a b. \<not> ip_record_compare b a) (srt xs))"

definition shuffle_laws :: "(u32 list \<Rightarrow> u32 list) \<Rightarrow> bool" where
  "shuffle_laws shuf \<longleftrightarrow> (\<forall>xs. mset (shuf xs) = mset xs)"

lemma map_of_map_set: "map_of (map_set k v kvs) = (map_of kvs)(k \<mapsto> v)"
  by (induction k v kvs rule: map_set.induct) auto

lemma sort_laws_set: "sort_laws srt \<Longrightarrow> set (srt xs) = set xs"
  unfolding sort_laws_def by (metis set_mset_mset)

lemma shuffle_laws_set: "shuffle_laws shuf \<Longrightarrow> set (shuf xs) = set xs \<and> distinct (shuf xs) = distinct xs"
  unfolding shuffle_laws_def by (metis mset_eq_imp_distinct_iff set_mset_mset)

lemma sorted_hd:
  assumes "sort_laws srt" and "x \<in> set xs"
  shows "srt xs \<noteq> [] \<and> \<not> ip_record_compare x (hd (srt xs))"
proof -
  have x: "x \<in> set (srt xs)" using assms sort_laws_set by blast
  then obtain y ys where ys: "srt xs = y # ys" by (cases "srt xs") auto
  have "sorted_wrt (\<lambda>a b. \<not> ip_record_compare b a) (y # ys)" using assms(1) ys by (metis sort_laws_def)
  moreover have "\<not> ip_record_compare y y" by (simp add: ip_record_compare_def)
  ultimately show ?thesis using x ys by auto
qed

section \<open>Choosing addresses\<close>

definition plain_items :: "dns_ip_record list \<Rightarrow> bool" where
  "plain_items xs \<longleftrightarrow> (\<forall>x \<in> set xs. \<not> ir_forbid x \<and> ir_server x \<noteq> [])"

lemma server_id_nonempty [simp]: "server_id s \<noteq> []"
  by (simp add: server_id_def generate_server_id_def)

lemma collect_ips_plain: "collect_ips now ord s n rec ips m = (items, m') \<Longrightarrow> plain_items items"
  by (induction now ord s n rec ips m arbitrary: items m' rule: collect_ips.induct)
     (auto simp: plain_items_def Let_def split: prod.splits)

lemma collect_servers_plain: "collect_servers now ord mp n servers m = (items, m') \<Longrightarrow> plain_items items"
proof (induction now ord mp n servers m arbitrary: items m' rule: collect_servers.induct)
  case (1 now ord mp n m)
  then show ?case by (simp add: plain_items_def)
next
  case (2 now ord mp n s servers m)
  obtain xs m1 where xs: "(case mp (server_id s) of None \<Rightarrow> ([], m)
      | Some rec \<Rightarrow> collect_ips now ord s (n + 1) rec (pr_ips rec) m) = (xs, m1)" by fastforce
  obtain ys m2 where ys: "collect_servers now ord mp (n + 1) servers m1 = (ys, m2)" by fastforce
  have "plain_items xs" using xs collect_ips_plain by (auto simp: plain_items_def split: option.splits)
  moreover have "plain_items ys" using "2.IH" [OF refl xs [symmetric] refl ys] by simp
  moreover have "items = xs @ ys" using "2.prems" xs ys by (simp add: Let_def)
  ultimately show ?case by (auto simp: plain_items_def)
qed

text \<open>Once a server is fixed only its trusted addresses are added.\<close>

lemma pick_trusted_server:
  assumes "plain_items xs" and "s \<noteq> []" and "distinct (dr_ips r)"
  shows "distinct (dr_ips (pick_trusted xs s r)) \<and> set (dr_ips (pick_trusted xs s r)) =
           set (dr_ips r) \<union> {ir_ip x | x. x \<in> set xs \<and> ir_match_area x \<and> ir_server x = s}"
  using assms
proof (induction xs s r rule: pick_trusted.induct)
  case (1 s r)
  then show ?case by simp
next
  case (2 x xs s r)
  then have plain: "plain_items xs" "\<not> ir_forbid x" by (simp_all add: plain_items_def)
  show ?case
  proof (cases "ir_match_area x \<and> ir_server x = s \<and> ir_ip x \<notin> set (dr_ips r)")
    case True
    with 2 plain show ?thesis by auto
  next
    case False
    with 2 plain show ?thesis by (cases "ir_match_area x"; cases "ir_server x = s") auto
  qed
qed

lemma pick_trusted_none:
  assumes "\<forall>x \<in> set xs. \<not> ir_match_area x"
  shows "dr_ips (pick_trusted xs s r) = dr_ips r"
  using assms by (induction xs s r rule: pick_trusted.induct) auto

lemma pick_all_distinct:
  "distinct ips \<Longrightarrow> distinct (pick_all xs ips) \<and> set (pick_all xs ips) = set ips \<union> ir_ip ` set xs"
  by (induction xs ips rule: pick_all.induct) auto

lemma pick_trusted_sorted:
  assumes "sort_laws srt" and "plain_items items" and "\<exists>x \<in> set items. ir_match_area x" and "dr_ips r = []"
  shows "ir_match_area (hd (srt items)) \<and> distinct (dr_ips (pick_trusted (srt items) [] r))
    \<and> set (dr_ips (pick_trusted (srt items) [] r)) =
        {ir_ip x | x. x \<in> set items \<and> ir_match_area x \<and> ir_server x = ir_server (hd (srt items))}"
proof -
  obtain y ys where ys: "srt items = y # ys" using assms(1,3) sorted_hd by (metis list.exhaust)
  have set_items: "set (srt items) = set items" using assms(1) by (rule sort_laws_set)
  obtain x where x: "x \<in> set items" "ir_match_area x" using assms(3) by blast
  have y: "ir_match_area y" "ir_server y \<noteq> []" "\<not> ir_forbid y" and plain: "plain_items ys"
    using assms(2) x sorted_hd [OF assms(1) x(1)] ys set_items
    by (auto simp: plain_items_def ip_record_compare_def split: if_splits)
  define r' where "r' = r\<lparr>trusted_ip_count := trusted_ip_count r + 1, dr_ips := dr_ips r @ [ir_ip y],
                        total_ip_count := total_ip_count r + 1\<rparr>"
  have "pick_trusted (srt items) [] r = pick_trusted ys (ir_server y) r'"
    using y assms(4) ys by (simp add: r'_def)
  moreover have "dr_ips r' = [ir_ip y]" using assms(4) by (simp add: r'_def)
  ultimately show ?thesis
    using pick_trusted_server [OF plain y(2), of r'] y(1) set_items ys by (auto simp flip: set_items)
qed

section \<open>Storing\<close>

text \<open>
  The generated code for the records: what is serialized parses back, and only a message with all
  fields empty serializes to the empty string.
\<close>

definition records_codec_laws :: "records_codec \<Rightarrow> bool" where
  "records_codec_laws R \<longleftrightarrow> (\<forall>r. rc_parse R (rc_serialize R r) = r)
     \<and> (\<forall>r. ps_domain r \<noteq> [] \<longrightarrow> rc_serialize R r \<noteq> [])"

lemma add_reverse_record_db: "rm_db (add_reverse_record L C R now ip dn rm) = rm_db rm"
  by (auto simp: add_reverse_record_def reverse_resolve_def Let_def split: prod.splits)

lemma add_ips_db: "add_ips L C R now dn ips rm m = (rm', m') \<Longrightarrow> rm_db rm' = rm_db rm"
  by (induction L C R now dn ips rm m arbitrary: rm' m' rule: add_ips.induct)
     (auto simp: add_reverse_record_db)

lemma get_records_same_db:
  "rm_db rm = rm_db rm' \<Longrightarrow> fst (get_dns_records_pb L C R now dn rm) = fst (get_dns_records_pb L C R now dn rm')"
  by (simp add: get_dns_records_pb_def Let_def split: prod.splits)

lemma get_records_eq:
  "fst (get_dns_records_pb L C R now dn rm) =
     (let data = fst (disk_kv_get L C now dn (rm_db rm))
      in (if data \<noteq> [] then rc_parse R data else \<lparr>ps_domain = [], ps_map = []\<rparr>)\<lparr>ps_domain := dn\<rparr>)"
  by (simp add: get_dns_records_pb_def Let_def split: prod.splits)

lemma add_db:
  "rm_db (fst (record_manager_add L C R now dn ips server expire rm m)) =
     disk_kv_put L C now dn (rc_serialize R ((fst (get_dns_records_pb L C R now dn rm))
       \<lparr>ps_domain := dn, ps_map := map_set server \<lparr>pr_expire = word_of_int (expire + int (now div 1000)), pr_ips = ips\<rparr>
          (ps_map (fst (get_dns_records_pb L C R now dn rm)))\<rparr>))
       (snd (disk_kv_get L C now dn (rm_db rm)))"
  by (auto simp: record_manager_add_def get_dns_records_pb_def Let_def split: prod.splits dest!: add_ips_db)

section \<open>The chosen addresses and the stored records\<close>

lemma transform_choice:
  assumes "sort_laws srt" and "shuffle_laws shuf"
    and "select_servers rx (ps_domain records) all_servers = Some servers"
    and "collect_servers now ord (map_of (ps_map records)) 0 servers m = (items, m')"
  shows "\<exists>r. manager_transform rx srt shuf now ord all_servers records m = Some (r, m')
    \<and> distinct (dr_ips r)
    \<and> (if \<exists>x \<in> set items. ir_match_area x
       then dr_match_area r
          \<and> set (dr_ips r) = {ir_ip x | x. x \<in> set items \<and> ir_match_area x \<and> ir_server x = dr_server r}
          \<and> (\<exists>y \<in> set items. ir_match_area y \<and> ir_server y = dr_server r
               \<and> (\<forall>x \<in> set items. ir_match_area x \<longrightarrow> ir_server_order y \<le> ir_server_order x))
       else set (dr_ips r) = ir_ip ` set items)"
proof -
  define rec where "rec = dns_record_empty\<lparr>dr_domain := ps_domain records, dr_servers := remdups (map ir_server items)\<rparr>"
  define p where "p = pick_trusted (srt items) [] rec"
  define q where "q = (if dr_ips p = [] then p\<lparr>dr_ips := pick_all (srt items) []\<rparr> else p)"
  define r where "r = (let r0 = q\<lparr>dr_ips := shuf (dr_ips q)\<rparr> in if srt items \<noteq> []
     then r0\<lparr>dr_match_area := ir_match_area (hd (srt items)), dr_expire_time := ir_expire_time (hd (srt items)),
             dr_server := ir_server (hd (srt items)), dr_expire := ir_expire (hd (srt items))\<rparr> else r0)"
  have run: "manager_transform rx srt shuf now ord all_servers records m = Some (r, m')"
    using assms(3,4) by (simp add: manager_transform_def Let_def r_def q_def p_def rec_def)
  have ips: "dr_ips r = shuf (dr_ips q)" by (simp add: r_def Let_def)
  have plain: "plain_items items" using assms(4) by (rule collect_servers_plain)
  have rec: "dr_ips rec = []" by (simp add: rec_def dns_record_empty_def)
  have all: "set (srt items) = set items" using assms(1) by (rule sort_laws_set)
  show ?thesis
  proof (cases "\<exists>x \<in> set items. ir_match_area x")
    case True
    let ?y = "hd (srt items)"
    note trusted = pick_trusted_sorted [OF assms(1) plain True rec, folded p_def]
    obtain x where x: "x \<in> set items" "ir_match_area x" using True by blast
    have ne: "srt items \<noteq> []" using sorted_hd [OF assms(1) x(1)] by simp
    then have y: "?y \<in> set items" unfolding all [symmetric] by (rule hd_in_set)
    then have "ir_ip ?y \<in> set (dr_ips p)" using trusted by blast
    then have "q = p" by (auto simp: q_def)
    have least: "ir_server_order ?y \<le> ir_server_order z" if "z \<in> set items" "ir_match_area z" for z
    proof -
      have "\<not> ip_record_compare z ?y" using sorted_hd [OF assms(1) that(1)] by simp
      moreover have "ir_match_area ?y" using trusted by simp
      moreover have "\<not> ir_forbid z" "\<not> ir_forbid ?y" using plain y that(1) by (simp_all add: plain_items_def)
      ultimately show ?thesis using that(2) by (simp add: ip_record_compare_def)
    qed
    have head: "dr_match_area r" "dr_server r = ir_server ?y" using ne trusted by (simp_all add: r_def Let_def)
    have "\<exists>y \<in> set items. ir_match_area y \<and> ir_server y = dr_server r
        \<and> (\<forall>x \<in> set items. ir_match_area x \<longrightarrow> ir_server_order y \<le> ir_server_order x)"
      using y trusted head(2) least by (intro bexI [of _ ?y]) simp_all
    moreover have "distinct (dr_ips r)" "set (dr_ips r) =
        {ir_ip x | x. x \<in> set items \<and> ir_match_area x \<and> ir_server x = dr_server r}"
      using trusted shuffle_laws_set [OF assms(2), of "dr_ips p"] \<open>q = p\<close> ips head(2) by simp_all
    ultimately show ?thesis using True run head(1) by (intro exI [of _ r]) simp
  next
    case False
    have "dr_ips p = []" using pick_trusted_none [of "srt items" "[]" rec] False all rec by (simp add: p_def)
    then have "dr_ips q = pick_all (srt items) []" by (simp add: q_def)
    with False run ips all shuffle_laws_set [OF assms(2), of "dr_ips q"] pick_all_distinct [of "[]" "srt items"]
    show ?thesis by (intro exI [of _ r]) simp
  qed
qed

lemma add_get:
  assumes "leveldb_laws L" and "value_codec_laws C" and "records_codec_laws R" and "dn \<noteq> []"
    and "old = fst (get_dns_records_pb L C R now dn rm)"
    and "new = old\<lparr>ps_domain := dn, ps_map := map_set server
           \<lparr>pr_expire = word_of_int (expire + int (now div 1000)), pr_ips = ips\<rparr> (ps_map old)\<rparr>"
    and "CHR 0x00 \<notin> set (rc_serialize R new)"
    and "now \<le> t"
  shows "fst (get_dns_records_pb L C R t dn' (fst (record_manager_add L C R now dn ips server expire rm m))) =
           (if dn' = dn then new else fst (get_dns_records_pb L C R t dn' rm))
         \<and> map_of (ps_map new) = (map_of (ps_map old))
             (server \<mapsto> \<lparr>pr_expire = word_of_int (expire + int (now div 1000)), pr_ips = ips\<rparr>)"
proof -
  note env = disk_env.intro [OF assms(1,2)]
  have db: "rm_db (fst (record_manager_add L C R now dn ips server expire rm m)) =
      disk_kv_put L C now dn (rc_serialize R new) (snd (disk_kv_get L C now dn (rm_db rm)))"
    unfolding add_db assms(5,6) by simp
  have "rc_serialize R new \<noteq> []" "rc_parse R (rc_serialize R new) = new"
    using assms(3,4,6) by (simp_all add: records_codec_laws_def)
  moreover have "new\<lparr>ps_domain := dn\<rparr> = new" by (simp add: assms(6))
  ultimately show ?thesis
    using assms(7)
    by (simp add: get_records_eq db disk_env.get_put [OF env] disk_env.get_get [OF env assms(8)] c_str_id assms(6)
        map_of_map_set Let_def)
qed

text \<open>Reading deletes at most an expired entry, so a second reading gives the same.\<close>

lemma get_get_records:
  assumes "leveldb_laws L" and "value_codec_laws C"
    and "now \<le> t"
  shows "fst (get_dns_records_pb L C R t dn (snd (get_dns_records_pb L C R now dn' rm))) = fst (get_dns_records_pb L C R t dn rm)"
proof -
  have "rm_db (snd (get_dns_records_pb L C R now dn' rm)) = snd (disk_kv_get L C now dn' (rm_db rm))"
    by (simp add: get_dns_records_pb_def Let_def split: prod.splits)
  then show ?thesis by (simp add: get_records_eq disk_env.get_get [OF disk_env.intro [OF assms(1,2)] assms(3)])
qed

text \<open>Every cached address of an asked server is a candidate.\<close>

lemma collect_ips_complete:
  "collect_ips now ord s n rec ips m = (items, m') \<Longrightarrow> ip \<in> set ips \<Longrightarrow> \<exists>x \<in> set items. ir_ip x = ip \<and> ir_server x = server_id s"
  by (induction now ord s n rec ips m arbitrary: items m' rule: collect_ips.induct) (auto simp: Let_def split: prod.splits)

lemma collect_servers_complete:
  assumes "collect_servers now ord mp n servers m = (items, m')" and "s \<in> set servers" and "mp (server_id s) = Some rec"
    and "ip \<in> set (pr_ips rec)"
  shows "\<exists>x \<in> set items. ir_ip x = ip \<and> ir_server x = server_id s"
  using assms
proof (induction now ord mp n servers m arbitrary: items m' rule: collect_servers.induct)
  case (1 now ord mp n m)
  then show ?case by simp
next
  case (2 now ord mp n t servers m)
  obtain xs m1 where xs: "(case mp (server_id t) of None \<Rightarrow> ([], m)
      | Some rec \<Rightarrow> collect_ips now ord t (n + 1) rec (pr_ips rec) m) = (xs, m1)" by fastforce
  obtain ys m2 where ys: "collect_servers now ord mp (n + 1) servers m1 = (ys, m2)" by fastforce
  have items: "items = xs @ ys" using "2.prems"(1) xs ys by (simp add: Let_def)
  show ?case
  proof (cases "s = t")
    case True
    with xs "2.prems"(3,4) show ?thesis unfolding items by (auto dest: collect_ips_complete)
  next
    case False
    with "2.prems"(2) have "s \<in> set servers" by simp
    from "2.IH" [OF refl xs [symmetric] refl ys this "2.prems"(3,4)] show ?thesis unfolding items by auto
  qed
qed

lemma collect_ips_sound:
  "collect_ips now ord s n rec ips m = (items, m') \<Longrightarrow> \<forall>x \<in> set items. ir_ip x \<in> set ips"
proof (induction ips arbitrary: m items m')
  case (Cons ip ips)
  obtain ok m1 where ok: "is_area_ip now ord (sv_areas s) ip m = (ok, m1)" by fastforce
  obtain xs m2 where xs: "collect_ips now ord s n rec ips m1 = (xs, m2)" by fastforce
  from Cons.IH [OF xs] Cons.prems ok xs show ?case by (auto simp: Let_def)
qed simp

text \<open>The addresses that the servers of a domain have answered, according to the record of the domain.\<close>

definition answered_ips :: "remote_dns_server list \<Rightarrow> proto_records \<Rightarrow> u32 set" where
  "answered_ips servers records =
     {ip. \<exists>s \<in> set servers. \<exists>rec. map_of (ps_map records) (server_id s) = Some rec \<and> ip \<in> set (pr_ips rec)}"

lemma collect_servers_sound:
  assumes "collect_servers now ord mp n servers m = (items, m')" and "x \<in> set items"
  shows "\<exists>s \<in> set servers. \<exists>rec. mp (server_id s) = Some rec \<and> ir_ip x \<in> set (pr_ips rec)"
  using assms
proof (induction now ord mp n servers m arbitrary: items m' rule: collect_servers.induct)
  case (1 now ord mp n m)
  then show ?case by simp
next
  case (2 now ord mp n t servers m)
  obtain xs m1 where xs: "(case mp (server_id t) of None \<Rightarrow> ([], m)
      | Some rec \<Rightarrow> collect_ips now ord t (n + 1) rec (pr_ips rec) m) = (xs, m1)" by fastforce
  obtain ys m2 where ys: "collect_servers now ord mp (n + 1) servers m1 = (ys, m2)" by fastforce
  have "items = xs @ ys" using "2.prems"(1) xs ys by (simp add: Let_def)
  with "2.prems"(2) consider "x \<in> set xs" | "x \<in> set ys" by auto
  then show ?case
  proof cases
    case 1
    with xs show ?thesis by (cases "mp (server_id t)") (auto dest!: collect_ips_sound)
  next
    case 2
    with "2.IH" [OF refl xs [symmetric] refl ys] show ?thesis by auto
  qed
qed

text \<open>So a stored answer makes the record of the domain non-empty, and it holds only such answers.\<close>

lemma transform_nonempty:
  assumes "sort_laws srt" and "shuffle_laws shuf" and "select_servers rx (ps_domain records) all_servers = Some servers"
    and "s \<in> set servers" and "map_of (ps_map records) (server_id s) = Some rec" and "pr_ips rec \<noteq> []"
  shows "\<exists>r m'. manager_transform rx srt shuf now ord all_servers records m = Some (r, m') \<and> dr_ips r \<noteq> []
    \<and> set (dr_ips r) \<subseteq> answered_ips servers records"
proof -
  obtain items m' where col: "collect_servers now ord (map_of (ps_map records)) 0 servers m = (items, m')" by fastforce
  from collect_servers_complete [OF col assms(4,5) hd_in_set [OF assms(6)]] have ne: "items \<noteq> []" by auto
  have sound: "ir_ip x \<in> answered_ips servers records" if "x \<in> set items" for x
    using collect_servers_sound [OF col that] by (auto simp: answered_ips_def)
  note choice = transform_choice [OF assms(1-3) col]
  show ?thesis
  proof (cases "\<exists>x \<in> set items. ir_match_area x")
    case True
    obtain r where r: "manager_transform rx srt shuf now ord all_servers records m = Some (r, m')"
      "set (dr_ips r) = {ir_ip x | x. x \<in> set items \<and> ir_match_area x \<and> ir_server x = dr_server r}"
      "\<exists>y \<in> set items. ir_match_area y \<and> ir_server y = dr_server r"
      using choice [unfolded if_P [OF True]] by (elim exE conjE bexE) blast
    from r(3) obtain y where "y \<in> set items" "ir_match_area y" "ir_server y = dr_server r" by blast
    then have "ir_ip y \<in> set (dr_ips r)" unfolding r(2) by blast
    then have "dr_ips r \<noteq> []" by auto
    moreover have "set (dr_ips r) \<subseteq> answered_ips servers records" unfolding r(2) using sound by blast
    ultimately show ?thesis using r(1) by (intro exI [of _ r] exI [of _ m']) simp
  next
    case False
    obtain r where r: "manager_transform rx srt shuf now ord all_servers records m = Some (r, m')"
      "set (dr_ips r) = ir_ip ` set items"
      using choice [unfolded if_not_P [OF False]] by (elim exE conjE)
    then have "dr_ips r \<noteq> []" using ne by auto
    moreover have "set (dr_ips r) \<subseteq> answered_ips servers records" unfolding r(2) using sound by blast
    ultimately show ?thesis using r(1) by (intro exI [of _ r] exI [of _ m']) simp
  qed
qed

section \<open>Properties\<close>

text \<open>
  \<open>dns_ip_record::compare\<close> is a strict weak ordering, as \<open>std::sort\<close> requires: irreflexive,
  transitive, and being equivalent is transitive.
\<close>

theorem ip_record_compare_strict_weak:
  "\<not> ip_record_compare a a
   \<and> (ip_record_compare a b \<and> ip_record_compare b c \<longrightarrow> ip_record_compare a c)
   \<and> (\<not> ip_record_compare a b \<and> \<not> ip_record_compare b a \<and> \<not> ip_record_compare b c \<and> \<not> ip_record_compare c b
        \<longrightarrow> \<not> ip_record_compare a c \<and> \<not> ip_record_compare c a)"
  by (auto simp: ip_record_compare_def split: if_splits)

theorem ip_record_compare_strict_weak_witness:
  "let a = \<lparr>ir_ip = 1, ir_match_area = True, ir_forbid = False, ir_expire = False, ir_expire_time = 0, ir_server = ''s'', ir_server_order = 1\<rparr>;
       b = a\<lparr>ir_match_area := False\<rparr>; c = b\<lparr>ir_server_order := 2\<rparr>
   in ip_record_compare a b \<and> ip_record_compare b c \<and> ip_record_compare a c"
  using ip_record_compare_strict_weak [of
      "\<lparr>ir_ip = 1, ir_match_area = True, ir_forbid = False, ir_expire = False, ir_expire_time = 0, ir_server = ''s'', ir_server_order = 1\<rparr>"
      "\<lparr>ir_ip = 1, ir_match_area = False, ir_forbid = False, ir_expire = False, ir_expire_time = 0, ir_server = ''s'', ir_server_order = 1\<rparr>"
      "\<lparr>ir_ip = 1, ir_match_area = False, ir_forbid = False, ir_expire = False, ir_expire_time = 0, ir_server = ''s'', ir_server_order = 2\<rparr>"]
  by (simp add: Let_def ip_record_compare_def)

text \<open>
  C9. The addresses handed out for a domain, whatever order the sort and the shuffle choose: if
  some cached answer has an address in an area of its server, exactly the trusted addresses of one
  server, the one of the best answer; otherwise all cached addresses. No address is repeated, and
  no trusted answer comes from a server with a smaller number than the chosen one.
\<close>

theorem manager_transform_choice:
  assumes "sort_laws srt" and "shuffle_laws shuf"
    and "select_servers rx (ps_domain records) all_servers = Some servers"
    and "collect_servers now ord (map_of (ps_map records)) 0 servers m = (items, m')"
  shows "\<exists>r. manager_transform rx srt shuf now ord all_servers records m = Some (r, m')
    \<and> distinct (dr_ips r)
    \<and> (if \<exists>x \<in> set items. ir_match_area x
       then dr_match_area r
          \<and> set (dr_ips r) = {ir_ip x | x. x \<in> set items \<and> ir_match_area x \<and> ir_server x = dr_server r}
          \<and> (\<exists>y \<in> set items. ir_match_area y \<and> ir_server y = dr_server r
               \<and> (\<forall>x \<in> set items. ir_match_area x \<longrightarrow> ir_server_order y \<le> ir_server_order x))
       else set (dr_ips r) = ir_ip ` set items)"
  using assms by (rule transform_choice)

text \<open>
  C10. Caching an answer: at any later time the record of the domain holds the answer under its server,
  with the addresses as they were given and the time of expiry, and the answers of all other
  servers and domains as before, as long as the serialized record has no NUL byte.
\<close>

theorem record_manager_add_get:
  assumes "leveldb_laws L" and "value_codec_laws C" and "records_codec_laws R" and "dn \<noteq> []"
    and "old = fst (get_dns_records_pb L C R now dn rm)"
    and "new = old\<lparr>ps_domain := dn, ps_map := map_set server
           \<lparr>pr_expire = word_of_int (expire + int (now div 1000)), pr_ips = ips\<rparr> (ps_map old)\<rparr>"
    and "CHR 0x00 \<notin> set (rc_serialize R new)"
    and "now \<le> t"
  shows "fst (get_dns_records_pb L C R t dn' (fst (record_manager_add L C R now dn ips server expire rm m))) =
           (if dn' = dn then new else fst (get_dns_records_pb L C R t dn' rm))
         \<and> map_of (ps_map new) = (map_of (ps_map old))
             (server \<mapsto> \<lparr>pr_expire = word_of_int (expire + int (now div 1000)), pr_ips = ips\<rparr>)"
  using assms by (rule add_get)

text \<open>A sort and a shuffle that obey their laws, and message code on numbers.\<close>

fun insert_record :: "dns_ip_record \<Rightarrow> dns_ip_record list \<Rightarrow> dns_ip_record list" where
  "insert_record x [] = [x]"
| "insert_record x (y # ys) = (if ip_record_compare y x then y # insert_record x ys else x # y # ys)"

definition insertion_sort :: "dns_ip_record list \<Rightarrow> dns_ip_record list" where
  "insertion_sort xs = foldr insert_record xs []"

lemma mset_insert_record [simp]: "mset (insert_record x xs) = add_mset x (mset xs)"
  by (induction xs) auto

lemma compare_trans_not: "\<not> ip_record_compare b a \<Longrightarrow> \<not> ip_record_compare c b \<Longrightarrow> \<not> ip_record_compare c a"
  by (auto simp: ip_record_compare_def split: if_splits)

lemma compare_asym: "ip_record_compare a b \<Longrightarrow> \<not> ip_record_compare b a"
  by (auto simp: ip_record_compare_def split: if_splits)

lemma sorted_insert_record:
  "sorted_wrt (\<lambda>a b. \<not> ip_record_compare b a) xs \<Longrightarrow> sorted_wrt (\<lambda>a b. \<not> ip_record_compare b a) (insert_record x xs)"
proof (induction xs)
  case Nil
  then show ?case by simp
next
  case (Cons y ys)
  have "set (insert_record x ys) = insert x (set ys)" by (metis mset_insert_record set_mset_mset set_mset_add_mset_insert)
  with Cons show ?case by (auto dest: compare_trans_not compare_asym)
qed

lemma insertion_sort_laws: "sort_laws insertion_sort"
proof -
  have "mset (foldr insert_record xs []) = mset xs" for xs by (induction xs) auto
  moreover have "sorted_wrt (\<lambda>a b. \<not> ip_record_compare b a) (foldr insert_record xs [])" for xs
    by (induction xs) (auto intro: sorted_insert_record)
  ultimately show ?thesis by (simp add: sort_laws_def insertion_sort_def)
qed

definition sample_server :: remote_dns_server where
  "sample_server = remote_dns_server_new ''1.1.1.1'' 53 ''UDP''"

definition sample_manager :: area_manager where
  "sample_manager = \<lparr>default_caches = Map.empty, net_caches = Map.empty, am_ips = [], last_load_ip_info_time = 0,
     last_load_area_ips_time = 0, interfaces = [], files = Map.empty, ctx_tasks = [], delay_timers = []\<rparr>"

theorem manager_transform_choice_witness:
  "\<exists>r. manager_transform (\<lambda>_ _. Some False) insertion_sort rev 5000 [] [sample_server]
        \<lparr>ps_domain = ''a.cn'', ps_map = [(server_id sample_server, \<lparr>pr_expire = 9, pr_ips = [7, 7]\<rparr>)]\<rparr> sample_manager
      = Some (r, sample_manager) \<and> dr_ips r = [7] \<and> dr_server r = server_id sample_server"
proof -
  let ?records = "\<lparr>ps_domain = ''a.cn'', ps_map = [(server_id sample_server, \<lparr>pr_expire = 9, pr_ips = [7, 7]\<rparr>)]\<rparr>"
  let ?item = "\<lparr>ir_ip = 7, ir_match_area = True, ir_forbid = False, ir_expire = False, ir_expire_time = 9,
                ir_server = server_id sample_server, ir_server_order = 1\<rparr>"
  have sel: "select_servers (\<lambda>_ _. Some False) (ps_domain ?records) [sample_server] = Some [sample_server]"
    by code_simp
  have col: "collect_servers 5000 [] (map_of (ps_map ?records)) 0 [sample_server] sample_manager
      = ([?item, ?item], sample_manager)"
    by (simp add: Let_def is_area_ip_def sample_server_def remote_dns_server_new_def)
  have "shuffle_laws rev" by (simp add: shuffle_laws_def)
  from manager_transform_choice [OF insertion_sort_laws this sel col] obtain r where
    r: "manager_transform (\<lambda>_ _. Some False) insertion_sort rev 5000 [] [sample_server] ?records sample_manager
        = Some (r, sample_manager)" "distinct (dr_ips r)" "dr_server r = server_id sample_server" "set (dr_ips r) = {7}"
    by (auto split: if_splits)
  then have "dr_ips r = [7]" by (metis distinct_card card_1_singleton_iff length_Suc_conv length_0_conv One_nat_def
      list.set_intros(1) singletonD is_singletonI' is_singleton_altdef)
  with r show ?thesis by blast
qed

definition unary_records_codec :: records_codec where
  "unary_records_codec = \<lparr>
     rc_serialize = (\<lambda>r. replicate (Suc (to_nat (ps_domain r, map (\<lambda>(k, p). (k, unat (pr_expire p), map unat (pr_ips p))) (ps_map r)))) (CHR ''1'')),
     rc_parse = (\<lambda>s. (case from_nat (length s - 1) :: string \<times> (string \<times> nat \<times> nat list) list of (d, kvs) \<Rightarrow>
        \<lparr>ps_domain = d, ps_map = map (\<lambda>(k, e, ips). (k, \<lparr>pr_expire = word_of_nat e, pr_ips = map word_of_nat ips\<rparr>)) kvs\<rparr>)),
     rv_serialize = (\<lambda>r. []), rv_parse = (\<lambda>s. \<lparr>rr_ip = 0, rr_domains = []\<rparr>)\<rparr>"

lemma unary_records_codec_laws: "records_codec_laws unary_records_codec"
proof -
  have p: "\<lparr>pr_expire = pr_expire p, pr_ips = pr_ips p\<rparr> = p" for p :: proto_record by (cases p) simp
  have r: "\<lparr>ps_domain = ps_domain r, ps_map = ps_map r\<rparr> = r" for r :: proto_records by (cases r) simp
  show ?thesis
    by (simp add: records_codec_laws_def unary_records_codec_def o_def case_prod_beta p r)
qed

theorem record_manager_add_get_witness:
  "\<exists>new. fst (get_dns_records_pb list_db unary_codec unary_records_codec 9000 ''a.cn''
       (fst (record_manager_add list_db unary_codec unary_records_codec 5000 ''a.cn'' [7] ''s'' 60
          \<lparr>rm_db = [], rm_reverse = []\<rparr> sample_manager))) = new
     \<and> map_of (ps_map new) = [''s'' \<mapsto> \<lparr>pr_expire = 65, pr_ips = [7]\<rparr>]"
proof -
  let ?rm = "\<lparr>rm_db = [], rm_reverse = []\<rparr> :: (string \<times> string) list dns_record_manager"
  let ?old = "fst (get_dns_records_pb list_db unary_codec unary_records_codec 5000 ''a.cn'' ?rm)"
  have old: "ps_map ?old = []" by (simp add: get_dns_records_pb_def disk_kv_get_def list_db_def)
  let ?new = "?old\<lparr>ps_domain := ''a.cn'', ps_map := map_set ''s''
           \<lparr>pr_expire = word_of_int (60 + int (5000 div 1000)), pr_ips = [7]\<rparr> (ps_map ?old)\<rparr>"
  have "CHR 0x00 \<notin> set (rc_serialize unary_records_codec ?new)" by (simp add: unary_records_codec_def)
  from record_manager_add_get [OF list_db_laws unary_codec_laws unary_records_codec_laws _ refl refl this, of 9000 "''a.cn''"]
  show ?thesis by (simp add: old)
qed

end
