(* ===== verification/Task_Queue.thy ===== *)
theory Task_Queue
  imports St_Prelude
begin

text \<open>
  The priority queue of \<open>src/common/main/taskquque/task_queue.h\<close>: tasks with a priority and an
  optional key that prevents duplicates, a dispatcher limited by a token bucket and by a number of
  running tasks, and the executor's report of completion.

  The bucket \<open>key_count\<close> is a \<open>double\<close>; the model counts thousandths of a key exactly. Which of
  several entries with the highest priority the heap has on top is not determined by the code, so
  the top of the heap is a parameter. Dispatched tasks wait in \<open>posted\<close> for the queue's thread.
\<close>

section \<open>Model\<close>

datatype task_status = PENDING | RUNNING

record 'a priority_task =
  t_in :: 'a
  t_priority :: nat
  t_id :: nat
  t_pk :: string
  t_status :: task_status

text \<open>The constructor takes its id from a counter shared by all tasks.\<close>

definition priority_task_new :: "'a \<Rightarrow> nat \<Rightarrow> string \<Rightarrow> nat \<Rightarrow> 'a priority_task \<times> nat" where
  "priority_task_new inp priority task_id gen =
     (\<lparr>t_in = inp, t_priority = priority, t_id = gen, t_pk = task_id, t_status = PENDING\<rparr>, gen + 1)"

definition priority_task_less :: "'a priority_task \<Rightarrow> 'a priority_task \<Rightarrow> bool" where
  "priority_task_less a b =
     (if t_priority a = t_priority b then t_id b < t_id a else t_priority a < t_priority b)"

definition task_comparator :: "nat \<times> nat \<Rightarrow> nat \<times> nat \<Rightarrow> bool" where
  "task_comparator a b \<longleftrightarrow> snd a < snd b"

record 'a task_queue =
  tq_tasks :: "(nat \<times> 'a priority_task) list"
  p_queue :: "(nat \<times> nat) list"
  task_pks :: "string list"
  key_count :: nat
  max_qps :: nat
  max_running :: nat
  running :: nat
  posted :: "'a priority_task list"

definition queue_new :: "nat \<Rightarrow> nat \<Rightarrow> 'a task_queue" where
  "queue_new speed max_run = \<lparr>tq_tasks = [], p_queue = [], task_pks = [], key_count = 0, max_qps = speed,
     max_running = max_run, running = 0, posted = []\<rparr>"

definition generate_key :: "'a task_queue \<Rightarrow> 'a task_queue" where
  "generate_key q = q\<lparr>key_count := min (max_qps q * 1000) (key_count q + max_qps q * 50)\<rparr>"

text \<open>\<open>tasks.emplace\<close> keeps an entry that is already there.\<close>

definition queue_submit :: "'a priority_task \<Rightarrow> 'a task_queue \<Rightarrow> bool \<times> 'a task_queue" where
  "queue_submit task q =
     (if t_pk task = [] \<or> t_pk task \<notin> set (task_pks q)
      then (True, q\<lparr>task_pks := (if t_pk task = [] then task_pks q else t_pk task # task_pks q),
                    tq_tasks := (if map_of (tq_tasks q) (t_id task) = None then (t_id task, task) # tq_tasks q else tq_tasks q),
                    p_queue := (t_id task, t_priority task) # p_queue q\<rparr>)
      else (False, q))"

definition queue_complete :: "'a priority_task \<Rightarrow> 'a task_queue \<Rightarrow> 'a task_queue" where
  "queue_complete task q = q\<lparr>task_pks := removeAll (t_pk task) (task_pks q),
     tq_tasks := filter (\<lambda>(i, t). i \<noteq> t_id task) (tq_tasks q), running := minus_u32 (running q) 1\<rparr>"

text \<open>
  One round of the dispatcher. \<open>top_of\<close> gives the top of the heap; \<open>None\<close> is the exception of
  \<open>tasks.at\<close>. The task is marked \<open>RUNNING\<close> in the table and posted with its updated status.
\<close>

definition queue_dispatch :: "((nat \<times> nat) list \<Rightarrow> nat \<times> nat) \<Rightarrow> 'a task_queue \<Rightarrow> 'a task_queue option" where
  "queue_dispatch top_of q =
     (if 1000 \<le> key_count q \<and> p_queue q \<noteq> [] \<and> running q < max_running q then
        (let id_score = top_of (p_queue q) in
         case map_of (tq_tasks q) (fst id_score) of
           None \<Rightarrow> None
         | Some task \<Rightarrow>
             (let task = task\<lparr>t_status := RUNNING\<rparr>
              in Some (q\<lparr>tq_tasks := map (\<lambda>(i, t). (i, if i = fst id_score then task else t)) (tq_tasks q),
                         p_queue := remove1 id_score (p_queue q), key_count := key_count q - 1000,
                         running := running q + 1, posted := posted q @ [task]\<rparr>)))
      else Some q)"

definition queue_all :: "'a task_queue \<Rightarrow> 'a priority_task list" where
  "queue_all q = map snd (tq_tasks q)"

definition queue_size :: "'a task_queue \<Rightarrow> nat" where
  "queue_size q = length (tq_tasks q)"

text \<open>
  The state of a queue in use: with the counter of ids and the tasks whose executor has started
  and not yet reported completion. A step is a submission of a new task, a tick of the bucket, a
  round of the dispatcher, the start of a posted task, or the completion of a started one.
\<close>

record 'a queue_system =
  qs_queue :: "'a task_queue"
  qs_gen :: nat
  qs_started :: "'a priority_task list"

definition heap_top :: "((nat \<times> nat) list \<Rightarrow> nat \<times> nat) \<Rightarrow> bool" where
  "heap_top top_of \<longleftrightarrow> (\<forall>xs. xs \<noteq> [] \<longrightarrow> top_of xs \<in> set xs \<and> (\<forall>x \<in> set xs. \<not> task_comparator (top_of xs) x))"

inductive queue_step :: "'a queue_system \<Rightarrow> 'a queue_system \<Rightarrow> bool" where
  submit: "priority_task_new inp prio pk (qs_gen s) = (task, gen') \<Longrightarrow> queue_submit task (qs_queue s) = (ok, q') \<Longrightarrow>
    queue_step s (s\<lparr>qs_queue := q', qs_gen := gen'\<rparr>)"
| tick: "queue_step s (s\<lparr>qs_queue := generate_key (qs_queue s)\<rparr>)"
| dispatch: "heap_top top_of \<Longrightarrow> queue_dispatch top_of (qs_queue s) = Some q' \<Longrightarrow> queue_step s (s\<lparr>qs_queue := q'\<rparr>)"
| start: "posted (qs_queue s) = task # rest \<Longrightarrow>
    queue_step s (s\<lparr>qs_queue := (qs_queue s)\<lparr>posted := rest\<rparr>, qs_started := task # qs_started s\<rparr>)"
| complete: "task \<in> set (qs_started s) \<Longrightarrow>
    queue_step s (s\<lparr>qs_queue := queue_complete task (qs_queue s), qs_started := remove1 task (qs_started s)\<rparr>)"

definition queue_init :: "nat \<Rightarrow> nat \<Rightarrow> nat \<Rightarrow> 'a queue_system" where
  "queue_init speed max_run gen = \<lparr>qs_queue = queue_new speed max_run, qs_gen = gen, qs_started = []\<rparr>"

inductive_cases queue_step_elim: "queue_step s s'"

section \<open>The invariant\<close>

text \<open>
  Table, heap, keys and the two stages of dispatched tasks fit together: the ids of the table are
  those waiting in the heap and those of the posted and started tasks, each once; dispatched tasks
  are in the table as they were posted; the keys are those of the table.
\<close>

definition dispatched :: "'a queue_system \<Rightarrow> 'a priority_task list" where
  "dispatched s = posted (qs_queue s) @ qs_started s"

type_synonym 'a task_table = "(nat \<times> 'a priority_task) list"

definition table_inv :: "nat \<Rightarrow> 'a task_table \<Rightarrow> bool" where
  "table_inv gen T \<longleftrightarrow> distinct (map fst T) \<and> (\<forall>i t. (i, t) \<in> set T \<longrightarrow> t_id t = i \<and> i < gen)"

definition stage_inv :: "'a task_table \<Rightarrow> (nat \<times> nat) list \<Rightarrow> 'a priority_task list \<Rightarrow> bool" where
  "stage_inv T P D \<longleftrightarrow> distinct (map fst P @ map t_id D) \<and> set (map fst P @ map t_id D) = fst ` set T
     \<and> (\<forall>t \<in> set D. (t_id t, t) \<in> set T)"

definition table_pks :: "'a task_table \<Rightarrow> string list" where
  "table_pks T = filter (\<lambda>k. k \<noteq> []) (map (\<lambda>(i, t). t_pk t) T)"

lemma table_pks_simps:
  "table_pks [] = []" "table_pks ((i, t) # T) = (if t_pk t = [] then [] else [t_pk t]) @ table_pks T"
  "table_pks (T @ U) = table_pks T @ table_pks U" "[] \<notin> set (table_pks T)"
  by (simp_all add: table_pks_def)

definition pk_inv :: "'a task_table \<Rightarrow> string list \<Rightarrow> bool" where
  "pk_inv T K \<longleftrightarrow> distinct (table_pks T) \<and> distinct K \<and> set K = set (table_pks T)"

definition queue_inv :: "'a queue_system \<Rightarrow> bool" where
  "queue_inv s \<longleftrightarrow> (let q = qs_queue s in
     table_inv (qs_gen s) (tq_tasks q) \<and> stage_inv (tq_tasks q) (p_queue q) (dispatched s)
     \<and> pk_inv (tq_tasks q) (task_pks q) \<and> running q = length (dispatched s) \<and> running q \<le> max_running q)"

lemmas inv_defs = queue_inv_def dispatched_def Let_def

lemma queue_inv_init: "queue_inv (queue_init speed max_run gen)"
  by (simp add: inv_defs table_inv_def stage_inv_def pk_inv_def table_pks_def queue_init_def queue_new_def)

lemma table_unique: "table_inv g T \<Longrightarrow> (i, t) \<in> set T \<Longrightarrow> (i, u) \<in> set T \<Longrightarrow> t = u"
  unfolding table_inv_def by (meson eq_key_imp_eq_value)

subsection \<open>Adding a task\<close>

lemma table_add: "table_inv g T \<Longrightarrow> t_id t = g \<Longrightarrow> table_inv (g + 1) ((g, t) # T)"
  unfolding table_inv_def by (fastforce simp: less_Suc_eq)

lemma stage_add: "stage_inv T P D \<Longrightarrow> i \<notin> fst ` set T \<Longrightarrow> stage_inv ((i, t) # T) ((i, p) # P) D"
  unfolding stage_inv_def by auto

lemma pk_add:
  "pk_inv T K \<Longrightarrow> t_pk t = [] \<Longrightarrow> pk_inv ((i, t) # T) K"
  "pk_inv T K \<Longrightarrow> t_pk t \<noteq> [] \<Longrightarrow> t_pk t \<notin> set K \<Longrightarrow> pk_inv ((i, t) # T) (t_pk t # K)"
  by (simp_all add: pk_inv_def table_pks_def)

lemma inv_submit:
  assumes inv: "queue_inv s" and new: "priority_task_new inp prio pk (qs_gen s) = (task, gen')"
    and sub: "queue_submit task (qs_queue s) = (ok, q')"
  shows "queue_inv (s\<lparr>qs_queue := q', qs_gen := gen'\<rparr>)"
proof -
  let ?q = "qs_queue s"
  have t: "t_id task = qs_gen s" "t_pk task = pk" "gen' = qs_gen s + 1"
    using new by (auto simp: priority_task_new_def)
  have table: "table_inv (qs_gen s) (tq_tasks ?q)" using inv by (simp add: inv_defs)
  then have fresh: "qs_gen s \<notin> fst ` set (tq_tasks ?q)" unfolding table_inv_def by fastforce
  then have none: "map_of (tq_tasks ?q) (qs_gen s) = None" by (simp add: map_of_eq_None_iff)
  show ?thesis
  proof (cases "pk = [] \<or> pk \<notin> set (task_pks ?q)")
    case False
    then have "q' = ?q" using sub t by (auto simp: queue_submit_def)
    moreover have "table_inv gen' (tq_tasks ?q)" using table t unfolding table_inv_def by fastforce
    ultimately show ?thesis using inv by (simp add: inv_defs)
  next
    case True
    then have q': "q' = ?q\<lparr>task_pks := (if pk = [] then task_pks ?q else pk # task_pks ?q),
        tq_tasks := (qs_gen s, task) # tq_tasks ?q, p_queue := (qs_gen s, t_priority task) # p_queue ?q\<rparr>"
      using sub t none by (auto simp: queue_submit_def)
    have "pk_inv ((qs_gen s, task) # tq_tasks ?q) (if pk = [] then task_pks ?q else pk # task_pks ?q)"
      using inv True t pk_add [of "tq_tasks ?q" "task_pks ?q" task] by (auto simp: inv_defs)
    moreover have "stage_inv ((qs_gen s, task) # tq_tasks ?q) ((qs_gen s, t_priority task) # p_queue ?q) (dispatched s)"
      using inv fresh by (intro stage_add) (simp_all add: inv_defs)
    ultimately show ?thesis
      using inv t q' table_add [OF table t(1)] by (simp add: inv_defs)
  qed
qed

subsection \<open>Dispatching a task\<close>

definition mark_running :: "nat \<Rightarrow> 'a priority_task \<Rightarrow> 'a task_table \<Rightarrow> 'a task_table" where
  "mark_running k task T = map (\<lambda>(i, t). (i, if i = k then task else t)) T"

lemma mark_running_mem:
  "(i, t) \<in> set (mark_running k task T) \<longleftrightarrow> (if i = k then t = task \<and> k \<in> fst ` set T else (i, t) \<in> set T)"
proof (induction T)
  case Nil
  then show ?case by (simp add: mark_running_def)
next
  case (Cons x T)
  then show ?case by (cases x) (auto simp: mark_running_def)
qed

lemma mark_running_keys: "map fst (mark_running k task T) = map fst T"
  by (induction T) (auto simp: mark_running_def)

lemma mark_running_pks:
  assumes "\<forall>t. (k, t) \<in> set T \<longrightarrow> t_pk t = t_pk task"
  shows "table_pks (mark_running k task T) = table_pks T"
  using assms
proof (induction T)
  case Nil
  then show ?case by (simp add: mark_running_def)
next
  case (Cons x T)
  obtain i t where x: "x = (i, t)" by fastforce
  have "mark_running k task (x # T) = (i, if i = k then task else t) # mark_running k task T"
    by (simp add: mark_running_def x)
  moreover have "i = k \<Longrightarrow> t_pk t = t_pk task"
    using Cons.prems x list.set_intros(1) [of x T] by blast
  moreover have "table_pks (mark_running k task T) = table_pks T"
  proof (rule Cons.IH, intro allI impI)
    fix u assume "(k, u) \<in> set T"
    then have "(k, u) \<in> set (x # T)" by simp
    from Cons.prems [rule_format, OF this] show "t_pk u = t_pk task" .
  qed
  ultimately show ?case unfolding x by (simp add: table_pks_simps)
qed

lemma mark_running_inv:
  assumes "table_inv g T" and "pk_inv T K" and "stage_inv T P D" and "(k, u) \<in> set T" and "(k, p) \<in> set P"
  defines "u' \<equiv> u\<lparr>t_status := RUNNING\<rparr>"
  shows "table_inv g (mark_running k u' T)" and "pk_inv (mark_running k u' T) K"
    and "stage_inv (mark_running k u' T) (remove1 (k, p) P) (D @ [u'])"
proof -
  let ?T = "mark_running k u' T"
  have k: "k \<in> fst ` set T" using assms(4) by force
  have id: "t_id u' = k" "k < g" using assms(1,4) by (auto simp: table_inv_def u'_def)
  have mem: "(i, t) \<in> set ?T \<longleftrightarrow> (if i = k then t = u' else (i, t) \<in> set T)" for i t
    using k by (simp add: mark_running_mem)
  show "table_inv g ?T"
    using assms(1) id unfolding table_inv_def mark_running_keys by (auto simp: mem split: if_splits)
  have "\<forall>t. (k, t) \<in> set T \<longrightarrow> t_pk t = t_pk u'"
    using table_unique [OF assms(1,4)] by (auto simp: u'_def)
  then show "pk_inv ?T K" using assms(2) by (simp add: pk_inv_def mark_running_pks)
  obtain P1 P2 where P: "P = P1 @ (k, p) # P2" "(k, p) \<notin> set P1" using split_list_first [OF assms(5)] by blast
  have "fst ` set ?T = fst ` set T" using arg_cong [OF mark_running_keys [of k u' T], of set] by simp
  moreover have "(t_id t, t) \<in> set ?T" if "t \<in> set D" for t
  proof -
    have "t_id t \<noteq> k" using that assms(3) P by (auto simp: stage_inv_def)
    then show ?thesis using that assms(3) by (simp add: mem stage_inv_def)
  qed
  ultimately show "stage_inv ?T (remove1 (k, p) P) (D @ [u'])"
    using assms(3) P id by (auto simp: stage_inv_def remove1_append mem)
qed

lemma stage_perm: "stage_inv T P (xs @ ys @ zs) \<Longrightarrow> stage_inv T P (xs @ zs @ ys)"
  unfolding stage_inv_def by auto

lemma dispatch_shape:
  assumes "heap_top top_of" and "queue_dispatch top_of q = Some q'"
  obtains "q' = q"
  | k p u where "(k, p) \<in> set (p_queue q)" and "map_of (tq_tasks q) k = Some u" and "running q < max_running q"
      and "q' = q\<lparr>tq_tasks := mark_running k (u\<lparr>t_status := RUNNING\<rparr>) (tq_tasks q),
         p_queue := remove1 (k, p) (p_queue q), key_count := key_count q - 1000, running := running q + 1,
         posted := posted q @ [u\<lparr>t_status := RUNNING\<rparr>]\<rparr>"
proof (cases "1000 \<le> key_count q \<and> p_queue q \<noteq> [] \<and> running q < max_running q")
  case False
  with assms(2) show ?thesis by (auto simp: queue_dispatch_def intro: that(1))
next
  case True
  obtain k p where top: "top_of (p_queue q) = (k, p)" by fastforce
  have "(k, p) \<in> set (p_queue q)" using assms(1) True top by (metis heap_top_def)
  with assms(2) True top show ?thesis
    by (auto simp: queue_dispatch_def mark_running_def Let_def split: option.splits intro: that(2))
qed

lemma inv_dispatch:
  assumes inv: "queue_inv s" and "heap_top top_of" and run: "queue_dispatch top_of (qs_queue s) = Some q'"
  shows "queue_inv (s\<lparr>qs_queue := q'\<rparr>)"
  using assms(2,3)
proof (cases rule: dispatch_shape)
  case 1
  with inv show ?thesis by simp
next
  case (2 k p u)
  let ?q = "qs_queue s"
  have parts: "table_inv (qs_gen s) (tq_tasks ?q)" "pk_inv (tq_tasks ?q) (task_pks ?q)"
    "stage_inv (tq_tasks ?q) (p_queue ?q) (dispatched s)" using inv by (simp_all add: inv_defs)
  note new = mark_running_inv [OF parts map_of_SomeD [OF 2(2)] 2(1)]
  have "stage_inv (tq_tasks q') (p_queue q') (posted ?q @ [u\<lparr>t_status := RUNNING\<rparr>] @ qs_started s)"
    using stage_perm [of _ _ "posted ?q" "qs_started s" "[u\<lparr>t_status := RUNNING\<rparr>]"] new(3)
    by (simp add: 2(4) dispatched_def)
  with new inv 2(3) show ?thesis by (simp add: inv_defs 2(4))
qed

lemma dispatch_total:
  assumes inv: "queue_inv s" and "heap_top top_of"
  shows "queue_dispatch top_of (qs_queue s) \<noteq> None"
proof (cases "p_queue (qs_queue s) = []")
  case True
  then show ?thesis by (simp add: queue_dispatch_def)
next
  case False
  have "fst (top_of (p_queue (qs_queue s))) \<in> fst ` set (p_queue (qs_queue s))"
    using assms(2) False by (simp add: heap_top_def)
  then have "fst (top_of (p_queue (qs_queue s))) \<in> fst ` set (tq_tasks (qs_queue s))"
    using inv by (auto simp: inv_defs stage_inv_def)
  then have "map_of (tq_tasks (qs_queue s)) (fst (top_of (p_queue (qs_queue s)))) \<noteq> None"
    by (simp add: map_of_eq_None_iff)
  then show ?thesis by (auto simp: queue_dispatch_def Let_def)
qed

subsection \<open>Starting and completing a task\<close>

lemma inv_tick: "queue_inv s \<Longrightarrow> queue_inv (s\<lparr>qs_queue := generate_key (qs_queue s)\<rparr>)"
  by (simp add: inv_defs generate_key_def)

lemma inv_started:
  assumes "queue_inv s" and "posted (qs_queue s) = task # rest"
  shows "queue_inv (s\<lparr>qs_queue := (qs_queue s)\<lparr>posted := rest\<rparr>, qs_started := task # qs_started s\<rparr>)"
  using assms stage_perm [of "tq_tasks (qs_queue s)" "p_queue (qs_queue s)" "[]" "[task]" "rest @ qs_started s"]
    stage_perm [of "tq_tasks (qs_queue s)" "p_queue (qs_queue s)" rest "qs_started s" "[task]"]
  by (simp add: inv_defs)

lemma remove_inv:
  assumes "table_inv g T" and "pk_inv T K" and "stage_inv T P (xs @ task # ys)"
  shows "table_inv g (filter (\<lambda>(i, t). i \<noteq> t_id task) T)"
    and "pk_inv (filter (\<lambda>(i, t). i \<noteq> t_id task) T) (removeAll (t_pk task) K)"
    and "stage_inv (filter (\<lambda>(i, t). i \<noteq> t_id task) T) P (xs @ ys)"
proof -
  have "(t_id task, task) \<in> set T" using assms(3) by (simp add: stage_inv_def)
  then obtain A B where T: "T = A @ (t_id task, task) # B" by (meson split_list)
  have new: "t_id task \<notin> fst ` set (A @ B)" using assms(1) T by (auto simp: table_inv_def)
  have "filter (\<lambda>(i, t). i \<noteq> t_id task) C = C" if "t_id task \<notin> fst ` set C" for C :: "'a task_table"
    using that by (induction C) auto
  then have T': "filter (\<lambda>(i, t). i \<noteq> t_id task) T = A @ B" using new by (simp add: T image_Un)
  show "table_inv g (filter (\<lambda>(i, t). i \<noteq> t_id task) T)"
    using assms(1) unfolding T' by (simp add: table_inv_def T)
  show "pk_inv (filter (\<lambda>(i, t). i \<noteq> t_id task) T) (removeAll (t_pk task) K)"
    using assms(2) [unfolded T] table_pks_simps(4) [of A] table_pks_simps(4) [of B] unfolding T' pk_inv_def table_pks_simps
    by (auto simp: distinct_removeAll split: if_splits)
  let ?ids = "set (map fst P @ map t_id (xs @ ys))"
  have notin: "t_id task \<notin> ?ids" using assms(3) by (auto simp: stage_inv_def)
  have "insert (t_id task) ?ids = insert (t_id task) (fst ` set (A @ B))"
    using assms(3) by (simp add: stage_inv_def T image_Un)
  then have ids: "?ids = fst ` set (A @ B)" using insert_ident [OF notin new] by simp
  have "(t_id t, t) \<in> set (A @ B)" if "t \<in> set (xs @ ys)" for t
  proof -
    have "t_id t \<noteq> t_id task" using that notin by (force simp: image_iff)
    moreover have "(t_id t, t) \<in> set T" using that assms(3) by (auto simp: stage_inv_def)
    ultimately show ?thesis by (simp add: T)
  qed
  moreover have "distinct (map fst P @ map t_id (xs @ ys))" using assms(3) by (auto simp: stage_inv_def)
  ultimately show "stage_inv (filter (\<lambda>(i, t). i \<noteq> t_id task) T) P (xs @ ys)"
    using ids unfolding T' stage_inv_def by blast
qed

lemma inv_complete:
  assumes inv: "queue_inv s" and mem: "task \<in> set (qs_started s)"
  shows "queue_inv (s\<lparr>qs_queue := queue_complete task (qs_queue s), qs_started := remove1 task (qs_started s)\<rparr>)"
proof -
  let ?q = "qs_queue s"
  obtain xs ys where st: "qs_started s = xs @ task # ys" "task \<notin> set xs"
    using split_list_first [OF mem] by blast
  have parts: "table_inv (qs_gen s) (tq_tasks ?q)" "pk_inv (tq_tasks ?q) (task_pks ?q)"
    "stage_inv (tq_tasks ?q) (p_queue ?q) ((posted ?q @ xs) @ task # ys)" using inv st by (simp_all add: inv_defs)
  show ?thesis
    using remove_inv [OF parts] inv st
    by (simp add: inv_defs queue_complete_def remove1_append minus_u32_def)
qed

lemma queue_inv_step: "queue_step s s' \<Longrightarrow> queue_inv s \<Longrightarrow> queue_inv s'"
  by (induction rule: queue_step.induct) (auto intro: inv_submit inv_tick inv_dispatch inv_started inv_complete)

interpretation queue_machine: state_machine queue_step queue_inv
  by unfold_locales (rule queue_inv_step)

section \<open>Runs and the tasks they dispatch\<close>

text \<open>
  A step dispatches the tasks it adds to those that wait for the thread of the queue. \<open>queue_run s ds s'\<close> is
  a run from \<open>s\<close> to \<open>s'\<close> that dispatches the tasks with the ids \<open>ds\<close>, in this order.
\<close>

definition dispatched_by :: "'a queue_system \<Rightarrow> 'a queue_system \<Rightarrow> nat list" where
  "dispatched_by s s' = map t_id (drop (length (posted (qs_queue s))) (posted (qs_queue s')))"

inductive queue_run :: "'a queue_system \<Rightarrow> nat list \<Rightarrow> 'a queue_system \<Rightarrow> bool" where
  rest: "queue_run s [] s"
| step: "queue_run s ds s' \<Longrightarrow> queue_step s' s'' \<Longrightarrow> queue_run s (ds @ dispatched_by s' s'') s''"

lemma queue_run_steps: "queue_run s ds s' \<Longrightarrow> queue_step\<^sup>*\<^sup>* s s'"
  by (induction rule: queue_run.induct) (auto intro: rtranclp.rtrancl_into_rtrancl)

lemma queue_steps_run: "queue_step\<^sup>*\<^sup>* s s' \<Longrightarrow> \<exists>ds. queue_run s ds s'"
  by (induction rule: rtranclp_induct) (auto intro: queue_run.intros)

text \<open>
  The entries of the heap are tasks that were never dispatched, each with its priority; the tasks under way
  are among the dispatched ones.
\<close>

definition waiting_inv :: "nat list \<Rightarrow> 'a task_table \<Rightarrow> (nat \<times> nat) list \<Rightarrow> bool" where
  "waiting_inv ds T P \<longleftrightarrow>
     (\<forall>(i, p) \<in> set P. i \<notin> set ds \<and> (\<exists>t. (i, t) \<in> set T \<and> t_priority t = p \<and> t_status t = PENDING))"

definition history_inv :: "nat list \<Rightarrow> 'a queue_system \<Rightarrow> bool" where
  "history_inv ds s \<longleftrightarrow> distinct ds \<and> (\<forall>i \<in> set ds. i < qs_gen s)
     \<and> waiting_inv ds (tq_tasks (qs_queue s)) (p_queue (qs_queue s))
     \<and> (\<forall>t \<in> set (dispatched s). t_id t \<in> set ds \<and> t_status t = RUNNING)"

lemma waiting_add:
  "waiting_inv ds T P \<Longrightarrow> i \<notin> set ds \<Longrightarrow> t_priority t = p \<Longrightarrow> t_status t = PENDING \<Longrightarrow> waiting_inv ds ((i, t) # T) ((i, p) # P)"
  unfolding waiting_inv_def by auto

lemma waiting_remove:
  "waiting_inv ds T P \<Longrightarrow> k \<notin> fst ` set P \<Longrightarrow> waiting_inv ds (filter (\<lambda>(i, t). i \<noteq> k) T) P"
  unfolding waiting_inv_def by force

lemma history_submit:
  assumes "queue_inv s" and "history_inv ds s" and new: "priority_task_new inp prio pk (qs_gen s) = (task, gen')"
    and sub: "queue_submit task (qs_queue s) = (ok, q')"
  shows "history_inv ds (s\<lparr>qs_queue := q', qs_gen := gen'\<rparr>)" and "posted q' = posted (qs_queue s)"
proof -
  have t: "t_id task = qs_gen s" "t_priority task = prio" "t_status task = PENDING" "gen' = qs_gen s + 1"
    using new by (auto simp: priority_task_new_def)
  have "table_inv (qs_gen s) (tq_tasks (qs_queue s))" using assms(1) by (simp add: inv_defs)
  then have none: "map_of (tq_tasks (qs_queue s)) (qs_gen s) = None"
    unfolding table_inv_def map_of_eq_None_iff by fastforce
  have fresh: "qs_gen s \<notin> set ds" using assms(2) by (auto simp: history_inv_def)
  show posted: "posted q' = posted (qs_queue s)" using sub by (auto simp: queue_submit_def split: if_splits)
  have "tq_tasks q' = tq_tasks (qs_queue s) \<and> p_queue q' = p_queue (qs_queue s)
      \<or> tq_tasks q' = (qs_gen s, task) # tq_tasks (qs_queue s) \<and> p_queue q' = (qs_gen s, prio) # p_queue (qs_queue s)"
    using sub none t by (auto simp: queue_submit_def split: if_splits)
  moreover have "waiting_inv ds (tq_tasks (qs_queue s)) (p_queue (qs_queue s))" using assms(2) by (simp add: history_inv_def)
  ultimately have "waiting_inv ds (tq_tasks q') (p_queue q')"
    using waiting_add [OF _ fresh t(2,3)] by metis
  then show "history_inv ds (s\<lparr>qs_queue := q', qs_gen := gen'\<rparr>)"
    using assms(2) posted t(4) by (auto simp: history_inv_def dispatched_def intro: less_SucI)
qed

lemma history_dispatch:
  assumes inv: "queue_inv s" and hist: "history_inv ds s" and "heap_top top_of"
    and "queue_dispatch top_of (qs_queue s) = Some q'"
  shows "history_inv (ds @ dispatched_by s (s\<lparr>qs_queue := q'\<rparr>)) (s\<lparr>qs_queue := q'\<rparr>)"
  using assms(3,4)
proof (cases rule: dispatch_shape)
  case 1
  with hist show ?thesis by (simp add: dispatched_by_def)
next
  case (2 k p u)
  let ?q = "qs_queue s"
  let ?T = "mark_running k (u\<lparr>t_status := RUNNING\<rparr>) (tq_tasks ?q)"
  have table: "table_inv (qs_gen s) (tq_tasks ?q)" and keys: "distinct (map fst (p_queue ?q))"
    using inv by (simp_all add: inv_defs stage_inv_def)
  have u: "t_id u = k" "k < qs_gen s" using table map_of_SomeD [OF 2(2)] by (auto simp: table_inv_def)
  have k: "k \<notin> set ds" using hist 2(1) by (auto simp: history_inv_def waiting_inv_def)
  have "waiting_inv (ds @ [k]) ?T (remove1 (k, p) (p_queue ?q))"
    unfolding waiting_inv_def
  proof clarify
    fix i p' assume e: "(i, p') \<in> set (remove1 (k, p) (p_queue ?q))"
    then have mem: "(i, p') \<in> set (p_queue ?q)" using set_remove1_subset by (metis subsetD)
    obtain P1 P2 where P: "p_queue ?q = P1 @ (k, p) # P2" "(k, p) \<notin> set P1" using split_list_first [OF 2(1)] by blast
    then have "i \<noteq> k" using e keys by (force simp: remove1_append)
    with mem hist show "i \<notin> set (ds @ [k]) \<and> (\<exists>t. (i, t) \<in> set ?T \<and> t_priority t = p' \<and> t_status t = PENDING)"
      by (auto simp: history_inv_def waiting_inv_def mark_running_mem)
  qed
  with hist u k show ?thesis by (auto simp: history_inv_def dispatched_by_def dispatched_def 2(4))
qed

lemma history_complete:
  assumes "queue_inv s" and "history_inv ds s" and "task \<in> set (qs_started s)"
  shows "history_inv ds (s\<lparr>qs_queue := queue_complete task (qs_queue s), qs_started := remove1 task (qs_started s)\<rparr>)"
proof -
  have "t_id task \<notin> fst ` set (p_queue (qs_queue s))"
    using assms(1,3) by (auto simp: inv_defs stage_inv_def)
  then have "waiting_inv ds (filter (\<lambda>(i, t). i \<noteq> t_id task) (tq_tasks (qs_queue s))) (p_queue (qs_queue s))"
    using assms(2) by (intro waiting_remove) (simp_all add: history_inv_def)
  moreover have "t \<in> set (qs_started s)" if "t \<in> set (remove1 task (qs_started s))" for t
    using that set_remove1_subset by (metis subsetD)
  ultimately show ?thesis using assms(2) by (auto simp: history_inv_def dispatched_def queue_complete_def)
qed

lemma history_step: "queue_step s s' \<Longrightarrow> queue_inv s \<Longrightarrow> history_inv ds s \<Longrightarrow> history_inv (ds @ dispatched_by s s') s'"
proof (induction rule: queue_step.induct)
  case (submit inp prio pk s task gen' ok q')
  with history_submit [OF submit(3,4,1,2)] show ?case by (simp add: dispatched_by_def)
next
  case (complete task s)
  then show ?case using history_complete [OF complete(2,3,1)] by (simp add: dispatched_by_def queue_complete_def)
next
  case (dispatch top_of s q')
  then show ?case by (intro history_dispatch)
qed (auto simp: dispatched_by_def history_inv_def dispatched_def generate_key_def)

lemma queue_run_history:
  "queue_run s ds s' \<Longrightarrow> queue_inv s \<Longrightarrow> history_inv [] s \<Longrightarrow> queue_inv s' \<and> history_inv ds s'"
  by (induction rule: queue_run.induct) (auto intro: queue_inv_step history_step)

lemma history_init: "history_inv [] (queue_init speed max_run gen)"
  by (simp add: history_inv_def waiting_inv_def dispatched_def queue_init_def queue_new_def)

section \<open>The token bucket\<close>

lemma queue_inv_pks:
  assumes "queue_inv s"
  shows "distinct (filter (\<lambda>k. k \<noteq> []) (map t_pk (queue_all (qs_queue s))))"
proof -
  have "pk_inv (tq_tasks (qs_queue s)) (task_pks (qs_queue s))" using assms by (simp add: inv_defs)
  moreover have "map t_pk (queue_all (qs_queue s)) = map (\<lambda>(i, t). t_pk t) (tq_tasks (qs_queue s))"
    by (simp add: queue_all_def case_prod_beta)
  ultimately show ?thesis by (simp add: pk_inv_def table_pks_def)
qed

lemma queue_step_max_running: "queue_step s s' \<Longrightarrow> max_running (qs_queue s') = max_running (qs_queue s)"
  by (induction rule: queue_step.induct)
     (auto simp: queue_submit_def generate_key_def queue_complete_def queue_dispatch_def Let_def split: if_splits option.splits)

lemma queue_steps_max_running: "queue_step\<^sup>*\<^sup>* s s' \<Longrightarrow> max_running (qs_queue s') = max_running (qs_queue s)"
  by (induction rule: rtranclp_induct) (auto dest: queue_step_max_running)

text \<open>
  Waiting for a task: a run in which no step dispatches one, with the number of ticks of the bucket it
  has at least. Tasks are submitted, started and completed meanwhile.
\<close>

inductive waiting_run :: "'a queue_system \<Rightarrow> nat \<Rightarrow> 'a queue_system \<Rightarrow> bool" where
  rest: "waiting_run s 0 s"
| tick: "waiting_run s n s' \<Longrightarrow> waiting_run s (Suc n) (s'\<lparr>qs_queue := generate_key (qs_queue s')\<rparr>)"
| other: "waiting_run s n s' \<Longrightarrow> queue_step s' s'' \<Longrightarrow> dispatched_by s' s'' = [] \<Longrightarrow> waiting_run s n s''"

definition bucket_inv :: "'a queue_system \<Rightarrow> bool" where
  "bucket_inv s \<longleftrightarrow> queue_inv s \<and> key_count (qs_queue s) \<le> max_qps (qs_queue s) * 1000"

lemma queue_step_bucket: "queue_step s s' \<Longrightarrow> max_qps (qs_queue s') = max_qps (qs_queue s)
    \<and> (key_count (qs_queue s) \<le> max_qps (qs_queue s) * 1000 \<longrightarrow> key_count (qs_queue s') \<le> max_qps (qs_queue s) * 1000)"
  by (induction rule: queue_step.induct)
     (auto simp: queue_submit_def generate_key_def queue_complete_def queue_dispatch_def Let_def split: if_splits option.splits)

interpretation bucket_machine: state_machine queue_step bucket_inv
  by unfold_locales (use queue_step_bucket queue_inv_step in \<open>fastforce simp: bucket_inv_def\<close>)

lemma bucket_inv_init: "bucket_inv (queue_init speed max_run gen)"
  using queue_inv_init [of speed max_run gen] by (simp add: bucket_inv_def queue_init_def queue_new_def)

lemma queue_steps_max_qps: "queue_step\<^sup>*\<^sup>* s s' \<Longrightarrow> max_qps (qs_queue s') = max_qps (qs_queue s)"
  by (induction rule: rtranclp_induct) (auto dest: queue_step_bucket)

text \<open>While no task is dispatched, the heap only grows, a free slot stays free and no key is taken.\<close>

definition ready_grows :: "'a task_queue \<Rightarrow> 'a task_queue \<Rightarrow> bool" where
  "ready_grows q q' \<longleftrightarrow> max_qps q' = max_qps q \<and> max_running q' = max_running q
     \<and> (p_queue q \<noteq> [] \<longrightarrow> p_queue q' \<noteq> []) \<and> running q' \<le> running q \<and> key_count q \<le> key_count q'"

lemma waiting_step: "queue_step s s' \<Longrightarrow> bucket_inv s \<Longrightarrow> dispatched_by s s' = [] \<Longrightarrow> ready_grows (qs_queue s) (qs_queue s')"
proof (induction rule: queue_step.induct)
  case (dispatch top_of s q')
  from dispatch(1,2) show ?case
    by (cases rule: dispatch_shape) (use dispatch(4) in \<open>auto simp: ready_grows_def dispatched_by_def\<close>)
next
  case (complete task s)
  have "0 < running (qs_queue s)" using complete(1,2) by (auto simp: bucket_inv_def inv_defs intro: length_pos_if_in_set)
  then show ?case by (simp add: ready_grows_def queue_complete_def minus_u32_def)
qed (auto simp: ready_grows_def queue_submit_def generate_key_def bucket_inv_def split: if_splits)

lemma waiting_run_grows:
  assumes "waiting_run s n s'" and "bucket_inv s"
  shows "bucket_inv s' \<and> ready_grows (qs_queue s) (qs_queue s')
    \<and> min (max_qps (qs_queue s) * 1000) (key_count (qs_queue s) + n * (max_qps (qs_queue s) * 50)) \<le> key_count (qs_queue s')"
  using assms
proof (induction rule: waiting_run.induct)
  case (rest s)
  then show ?case by (simp add: ready_grows_def)
next
  case (tick s n s')
  have "dispatched_by s' (s'\<lparr>qs_queue := generate_key (qs_queue s')\<rparr>) = []" by (simp add: dispatched_by_def generate_key_def)
  with tick waiting_step [OF queue_step.tick, of s'] bucket_machine.inv_step [OF queue_step.tick, of s']
  have step: "bucket_inv (s'\<lparr>qs_queue := generate_key (qs_queue s')\<rparr>)" "ready_grows (qs_queue s') (generate_key (qs_queue s'))"
    and IH: "ready_grows (qs_queue s) (qs_queue s')"
      "min (max_qps (qs_queue s) * 1000) (key_count (qs_queue s) + n * (max_qps (qs_queue s) * 50)) \<le> key_count (qs_queue s')"
    by simp_all
  moreover have "key_count (generate_key (qs_queue s'))
      = min (max_qps (qs_queue s) * 1000) (key_count (qs_queue s') + max_qps (qs_queue s) * 50)"
    using IH(1) by (simp add: generate_key_def ready_grows_def)
  ultimately show ?case by (auto simp: ready_grows_def)
next
  case (other s n s' s'')
  with waiting_step [of s' s''] bucket_machine.inv_step [of s' s''] show ?case by (auto simp: ready_grows_def)
qed

section \<open>Properties\<close>

text \<open>
  C6. In every run of a queue from its creation, with the ids \<open>ds\<close> of the tasks it has dispatched so far: at
  most \<open>max_run\<close> tasks are dispatched and not completed, \<open>running\<close> is their number (so the counter never
  wraps); the ids of the tasks in the table are distinct, and no two of them have the same key; no task is
  dispatched twice, and the tasks under way are distinct, marked \<open>RUNNING\<close> and among the dispatched ones; the
  entries of the heap are pending tasks of the table that were never dispatched, each with its priority; and
  the table lookup of the dispatcher does not throw.
\<close>

theorem queue_safe:
  fixes s :: "'a queue_system"
  assumes "queue_run (queue_init speed max_run gen) ds s" and "heap_top top_of"
  shows "running (qs_queue s) = length (posted (qs_queue s)) + length (qs_started s)
       \<and> running (qs_queue s) \<le> max_run
       \<and> distinct (map t_id (queue_all (qs_queue s)))
       \<and> distinct (filter (\<lambda>k. k \<noteq> []) (map t_pk (queue_all (qs_queue s))))
       \<and> distinct ds \<and> distinct (map t_id (posted (qs_queue s) @ qs_started s))
       \<and> (\<forall>t \<in> set (posted (qs_queue s) @ qs_started s). t_id t \<in> set ds \<and> t_status t = RUNNING)
       \<and> (\<forall>(i, p) \<in> set (p_queue (qs_queue s)). i \<notin> set ds
            \<and> (\<exists>t \<in> set (queue_all (qs_queue s)). t_id t = i \<and> t_priority t = p \<and> t_status t = PENDING))
       \<and> queue_dispatch top_of (qs_queue s) \<noteq> None"
proof -
  have inv: "queue_inv s" and hist: "history_inv ds s"
    using queue_run_history [OF assms(1) queue_inv_init history_init] by simp_all
  have table: "table_inv (qs_gen s) (tq_tasks (qs_queue s))" using inv by (simp add: inv_defs)
  then have "map t_id (queue_all (qs_queue s)) = map fst (tq_tasks (qs_queue s))"
    unfolding table_inv_def queue_all_def by auto
  with table have ids: "distinct (map t_id (queue_all (qs_queue s)))" by (simp add: table_inv_def)
  have max: "max_running (qs_queue s) = max_run"
    using queue_steps_max_running [OF queue_run_steps [OF assms(1)]] by (simp add: queue_init_def queue_new_def)
  have waiting: "\<forall>(i, p) \<in> set (p_queue (qs_queue s)). i \<notin> set ds
      \<and> (\<exists>t \<in> set (queue_all (qs_queue s)). t_id t = i \<and> t_priority t = p \<and> t_status t = PENDING)"
  proof clarify
    fix i p assume "(i, p) \<in> set (p_queue (qs_queue s))"
    with hist obtain t where "i \<notin> set ds" "(i, t) \<in> set (tq_tasks (qs_queue s))" "t_priority t = p" "t_status t = PENDING"
      by (auto simp: history_inv_def waiting_inv_def)
    moreover from this table have "t_id t = i" "t \<in> set (queue_all (qs_queue s))"
      by (auto simp: table_inv_def queue_all_def intro: rev_image_eqI)
    ultimately show "i \<notin> set ds \<and> (\<exists>t \<in> set (queue_all (qs_queue s)). t_id t = i \<and> t_priority t = p \<and> t_status t = PENDING)"
      by blast
  qed
  have "distinct ds" "distinct (map t_id (posted (qs_queue s) @ qs_started s))"
    "\<forall>t \<in> set (posted (qs_queue s) @ qs_started s). t_id t \<in> set ds \<and> t_status t = RUNNING"
    "running (qs_queue s) = length (posted (qs_queue s)) + length (qs_started s)" "running (qs_queue s) \<le> max_run"
    using inv hist max by (auto simp: inv_defs stage_inv_def history_inv_def)
  with ids waiting queue_inv_pks [OF inv] dispatch_total [OF inv assms(2)] show ?thesis by blast
qed

definition max_entry :: "(nat \<times> nat) list \<Rightarrow> nat \<times> nat" where
  "max_entry xs = foldr (\<lambda>x y. if snd y < snd x then x else y) xs (hd xs)"

lemma max_entry_top: "heap_top max_entry"
proof -
  have fold: "foldr (\<lambda>x y. if snd y < snd x then x else y) xs z \<in> insert z (set xs)
      \<and> (\<forall>x \<in> insert z (set xs). snd x \<le> snd (foldr (\<lambda>x y. if snd y < snd x then x else y) xs z))"
    for xs and z :: "nat \<times> nat"
    by (induction xs) auto
  have "max_entry xs \<in> set xs \<and> (\<forall>x \<in> set xs. \<not> snd (max_entry xs) < snd x)" if "xs \<noteq> []" for xs
    using fold [of xs "hd xs"] hd_in_set [OF that] unfolding max_entry_def [symmetric] by (auto simp: insert_absorb not_less)
  then show ?thesis by (simp add: heap_top_def task_comparator_def)
qed

text \<open>A run with two tasks and room for one: the second has the higher priority, so it is under way and the first waits.\<close>

definition task_a :: "string priority_task" where
  "task_a = fst (priority_task_new ''a'' 3 ''ka'' 0)"

definition task_b :: "string priority_task" where
  "task_b = fst (priority_task_new ''b'' 5 ''kb'' 1)"

definition waiting_system :: "string queue_system" where
  "waiting_system = \<lparr>qs_queue = snd (queue_submit task_b (snd (queue_submit task_a (queue_new 20 1)))),
     qs_gen = 2, qs_started = []\<rparr>"

definition busy_system :: "string queue_system" where
  "busy_system = \<lparr>qs_queue = \<lparr>tq_tasks = [(1, task_b\<lparr>t_status := RUNNING\<rparr>), (0, task_a)], p_queue = [(0, 3)],
     task_pks = [''kb'', ''ka''], key_count = 0, max_qps = 20, max_running = 1, running = 1, posted = []\<rparr>,
     qs_gen = 2, qs_started = [task_b\<lparr>t_status := RUNNING\<rparr>]\<rparr>"

lemmas sample_task_defs = task_a_def task_b_def priority_task_new_def queue_submit_def queue_new_def

lemma waiting_system_run: "queue_run (queue_init 20 1 0) [] waiting_system"
proof -
  let ?s1 = "\<lparr>qs_queue = snd (queue_submit task_a (queue_new 20 1)), qs_gen = 1, qs_started = []\<rparr>"
  have "queue_step (queue_init 20 1 0) ?s1"
    using queue_step.submit [of "''a''" 3 "''ka''" "queue_init 20 1 0" task_a 1 True "snd (queue_submit task_a (queue_new 20 1))"]
    by (simp add: queue_init_def sample_task_defs)
  moreover have "queue_step ?s1 waiting_system"
    using queue_step.submit [of "''b''" 5 "''kb''" ?s1 task_b 2 True "qs_queue waiting_system"]
    by (simp add: waiting_system_def sample_task_defs)
  ultimately show ?thesis
    using queue_run.step [OF queue_run.step [OF queue_run.rest]] by (fastforce simp: dispatched_by_def waiting_system_def sample_task_defs)
qed

lemma busy_system_run: "queue_run (queue_init 20 1 0) [1] busy_system"
proof -
  let ?s1 = "waiting_system\<lparr>qs_queue := generate_key (qs_queue waiting_system)\<rparr>"
  let ?s2 = "busy_system\<lparr>qs_queue := (qs_queue busy_system)\<lparr>posted := [task_b\<lparr>t_status := RUNNING\<rparr>]\<rparr>, qs_started := []\<rparr>"
  note sd = waiting_system_def busy_system_def sample_task_defs generate_key_def dispatched_by_def
  have "queue_run (queue_init 20 1 0) [] ?s1"
    using queue_run.step [OF waiting_system_run queue_step.tick] by (simp add: sd)
  moreover have "queue_dispatch max_entry (qs_queue ?s1) = Some (qs_queue ?s2)" by (simp add: queue_dispatch_def max_entry_def Let_def sd)
  then have "queue_step ?s1 ?s2" using queue_step.dispatch [OF max_entry_top, of ?s1] by (simp add: sd)
  ultimately have "queue_run (queue_init 20 1 0) [1] ?s2" using queue_run.step by (fastforce simp: sd)
  moreover have "queue_step ?s2 busy_system"
    using queue_step.start [of ?s2 "task_b\<lparr>t_status := RUNNING\<rparr>" "[]"] by (simp add: sd)
  ultimately show ?thesis using queue_run.step by (fastforce simp: sd)
qed

theorem queue_safe_witness:
  "running (qs_queue busy_system) = 1 \<and> map t_id (qs_started busy_system) = [1] \<and> p_queue (qs_queue busy_system) = [(0, 3)]
   \<and> running (qs_queue busy_system) = length (posted (qs_queue busy_system)) + length (qs_started busy_system)
   \<and> distinct (map t_id (queue_all (qs_queue busy_system)))
   \<and> distinct (map t_id (posted (qs_queue busy_system) @ qs_started busy_system))
   \<and> map t_status (qs_started busy_system) = [RUNNING] \<and> fst (hd (p_queue (qs_queue busy_system))) \<notin> set [1]
   \<and> queue_dispatch max_entry (qs_queue busy_system) \<noteq> None"
  using queue_safe [OF busy_system_run max_entry_top]
  by (auto simp: busy_system_def sample_task_defs)

text \<open>
  C7. The dispatcher obeys the priorities: a task that it posts has the highest priority of all
  that wait, and it is taken out of the heap, whatever the heap does among equals.
\<close>

theorem dispatch_highest_priority:
  assumes "heap_top top_of" and "queue_dispatch top_of q = Some q'" and "posted q' \<noteq> posted q"
  shows "\<exists>i p t. (i, p) \<in> set (p_queue q) \<and> map_of (tq_tasks q) i = Some t
           \<and> posted q' = posted q @ [t\<lparr>t_status := RUNNING\<rparr>] \<and> p_queue q' = remove1 (i, p) (p_queue q)
           \<and> (\<forall>(j, p') \<in> set (p_queue q). p' \<le> p)"
proof -
  obtain i p where top: "top_of (p_queue q) = (i, p)" by fastforce
  have ne: "p_queue q \<noteq> []" using assms(2,3) by (auto simp: queue_dispatch_def split: if_splits)
  then have "(i, p) \<in> set (p_queue q)" "\<forall>x \<in> set (p_queue q). snd x \<le> p"
    using assms(1) top unfolding heap_top_def task_comparator_def by (metis, metis not_less snd_conv)
  moreover obtain t where "map_of (tq_tasks q) i = Some t" "posted q' = posted q @ [t\<lparr>t_status := RUNNING\<rparr>]"
    "p_queue q' = remove1 (i, p) (p_queue q)"
    using assms(2,3) top by (auto simp: queue_dispatch_def Let_def split: if_splits option.splits)
  ultimately show ?thesis by (intro exI [of _ i] exI [of _ p] exI [of _ t]) auto
qed

text \<open>A queue with two tasks waiting.\<close>

definition sample_queue :: "string task_queue" where
  "sample_queue = (snd (queue_submit (fst (priority_task_new ''b'' 5 ''kb'' 1))
     (snd (queue_submit (fst (priority_task_new ''a'' 3 ''ka'' 0)) (queue_new 10 2)))))\<lparr>key_count := 2000\<rparr>"

theorem dispatch_highest_priority_witness:
  "\<exists>q'. queue_dispatch max_entry sample_queue = Some q'
     \<and> (\<exists>i p t. (i, p) \<in> set (p_queue sample_queue) \<and> map_of (tq_tasks sample_queue) i = Some t
           \<and> posted q' = posted sample_queue @ [t\<lparr>t_status := RUNNING\<rparr>]
           \<and> p_queue q' = remove1 (i, p) (p_queue sample_queue)
           \<and> (\<forall>(j, p') \<in> set (p_queue sample_queue). p' \<le> p))"
proof -
  have "(case queue_dispatch max_entry sample_queue of Some q' \<Rightarrow> length (posted q') = 1 | None \<Rightarrow> False)" by code_simp
  then obtain q' where q': "queue_dispatch max_entry sample_queue = Some q'" "length (posted q') = 1"
    by (auto split: option.splits)
  have "posted sample_queue = []" by code_simp
  with q'(2) have "posted q' \<noteq> posted sample_queue" by auto
  from dispatch_highest_priority [OF max_entry_top q'(1) this] q'(1) show ?thesis by blast
qed

text \<open>
  C8. The dispatcher makes progress. In a reachable state of a queue with a positive rate, let a task wait and a
  slot be free. Then the next round starts a task if there is a key, and otherwise after twenty ticks of the
  bucket (one second), whatever else is submitted, started and completed before that round.
\<close>

theorem dispatch_progress:
  assumes "queue_step\<^sup>*\<^sup>* (queue_init speed max_run gen) s" and "heap_top top_of" and "0 < speed"
    and "p_queue (qs_queue s) \<noteq> []" and "running (qs_queue s) < max_run"
    and "waiting_run s n s'" and "1000 \<le> key_count (qs_queue s) \<or> 20 \<le> n"
  shows "\<exists>q'. queue_dispatch top_of (qs_queue s') = Some q' \<and> length (posted q') = Suc (length (posted (qs_queue s')))"
proof -
  have s: "bucket_inv s" using bucket_machine.reachable [OF assms(1) bucket_inv_init] .
  have const: "max_running (qs_queue s) = max_run" "max_qps (qs_queue s) = speed"
    using queue_steps_max_running [OF assms(1)] queue_steps_max_qps [OF assms(1)] by (simp_all add: queue_init_def queue_new_def)
  note run = waiting_run_grows [OF assms(6) s]
  have "min (speed * 1000) (key_count (qs_queue s) + n * (speed * 50)) \<le> key_count (qs_queue s')"
    using run const(2) by simp
  moreover have "1000 \<le> speed * 1000" using assms(3) by simp
  moreover have "20 * (speed * 50) \<le> n * (speed * 50)" if "20 \<le> n" using that by (rule mult_le_mono1)
  ultimately have "1000 \<le> key_count (qs_queue s')" using assms(7) by linarith
  moreover have "p_queue (qs_queue s') \<noteq> []" "running (qs_queue s') < max_running (qs_queue s')"
    using run const(1) assms(4,5) by (auto simp: ready_grows_def)
  moreover have "queue_dispatch top_of (qs_queue s') \<noteq> None"
    using run dispatch_total [OF _ assms(2), of s'] by (simp add: bucket_inv_def)
  ultimately show ?thesis by (auto simp: queue_dispatch_def Let_def split: option.splits)
qed

text \<open>Two tasks wait without a key; while the bucket ticks, a third one arrives.\<close>

theorem dispatch_progress_witness:
  "\<exists>s' q'. waiting_run waiting_system 20 s' \<and> length (p_queue (qs_queue s')) = 3
     \<and> queue_dispatch max_entry (qs_queue s') = Some q' \<and> length (posted q') = Suc (length (posted (qs_queue s')))"
proof -
  let ?t = "fst (priority_task_new ''c'' 1 ''kc'' 2)"
  let ?s1 = "waiting_system\<lparr>qs_queue := snd (queue_submit ?t (qs_queue waiting_system)), qs_gen := 3\<rparr>"
  note sd = waiting_system_def sample_task_defs
  have "queue_step waiting_system ?s1"
    using queue_step.submit [of "''c''" 1 "''kc''" waiting_system ?t 3 True "qs_queue ?s1"] by (simp add: sd)
  then have start: "waiting_run waiting_system 0 ?s1"
    by (rule waiting_run.other [OF waiting_run.rest]) (simp add: dispatched_by_def sd)
  have "\<exists>s'. waiting_run waiting_system n s' \<and> p_queue (qs_queue s') = p_queue (qs_queue ?s1)" for n
  proof (induction n)
    case (Suc n)
    then obtain s' where "waiting_run waiting_system n s'" "p_queue (qs_queue s') = p_queue (qs_queue ?s1)" by blast
    then show ?case using waiting_run.tick by (fastforce simp: generate_key_def)
  qed (use start in blast)
  then obtain s' where s': "waiting_run waiting_system 20 s'" "p_queue (qs_queue s') = p_queue (qs_queue ?s1)" by blast
  have "\<exists>q'. queue_dispatch max_entry (qs_queue s') = Some q' \<and> length (posted q') = Suc (length (posted (qs_queue s')))"
    by (rule dispatch_progress [OF queue_run_steps [OF waiting_system_run] max_entry_top _ _ _ s'(1)]) (simp_all add: sd)
  moreover have "length (p_queue (qs_queue s')) = 3" unfolding s'(2) by (simp add: sd)
  ultimately show ?thesis using s'(1) by blast
qed

end
