(* ===== verification/Dns_Client.thy ===== *)
theory Dns_Client
  imports Response Area_Ip
begin

text \<open>
  The upstream side, \<open>src/core/dns_client.h\<close> and \<open>dns_client.cpp\<close>: one exchange with a server over
  UDP, TCP or TLS as a chain of asynchronous operations, and the aggregation of several TCP
  exchanges for different areas.

  An exchange is a state with the operation it waits for. The network answers an operation with an
  error or success, a time and, for reads, bytes; a step of the model is the completion handler
  of that operation. What the network answers is arbitrary, so the errors that a fired timer
  causes by closing the socket are among the answers. Calls of the caller's handler are collected
  in a list. Sockets, the release of buffers and logging are not modelled. A step is \<open>None\<close> when
  it accesses memory out of bounds.
\<close>

section \<open>Model\<close>

datatype io_error = Operation_Aborted | Other_Error

text \<open>Without an error and within the timeout the handler goes on; otherwise the exchange ends.\<close>

definition is_timeout_or_error :: "io_error option \<Rightarrow> nat \<Rightarrow> nat \<Rightarrow> nat \<Rightarrow> bool" where
  "is_timeout_or_error ec now beginTime timeout =
     (let cost = minus_u64 now beginTime in \<not> (ec = None \<and> cost \<le> timeout))"

text \<open>\<open>dns_client::parse\<close> on the bytes of a TCP answer.\<close>

definition client_parse :: "nat \<Rightarrow> buffer \<Rightarrow> u16 \<Rightarrow> u32 list option" where
  "client_parse len dataBytes dnsId =
     (if 0 < len \<and> len \<le> 1024 then do {
        resp \<leftarrow> udp_response_parse (udp_response_at dataBytes 0 len) len;
        if \<not> rs_valid resp then Some []
        else do {
          h \<leftarrow> rs_header resp;
          let resp1 = (if h_id h \<noteq> dnsId then udp_response_mark_invalid resp else resp);
          let resp2 = (if responseCode h \<noteq> 0 then udp_response_mark_invalid resp1 else resp1);
          Some (if rs_valid resp2 then rs_ips resp2 else []) } }
      else Some [])"

subsection \<open>UDP\<close>

datatype udp_phase = Sending | Receiving

record udp_exchange =
  ux_phase :: "udp_phase option"
  ux_begin :: nat
  ux_timeout :: nat
  ux_id :: u16
  ux_calls :: "u32 list list"

definition udp_dns :: "string \<Rightarrow> nat \<Rightarrow> nat \<Rightarrow> u16 \<Rightarrow> (udp_exchange \<times> udp_request \<times> u16) option" where
  "udp_dns dn timeout now gen = do {
     (req, gen') \<leftarrow> udp_request_new [dn] gen;
     h \<leftarrow> rq_header req;
     Some (\<lparr>ux_phase = Some Sending, ux_begin = now, ux_timeout = timeout, ux_id = h_id h, ux_calls = []\<rparr>, req, gen') }"

definition udp_complete :: "u32 list \<Rightarrow> udp_exchange \<Rightarrow> udp_exchange" where
  "udp_complete ips ux = ux\<lparr>ux_phase := None, ux_calls := ux_calls ux @ [ips]\<rparr>"

text \<open>The received bytes fill the start of a buffer of 1024 zero bytes.\<close>

definition udp_handler :: "io_error option \<Rightarrow> nat \<Rightarrow> u8 list \<Rightarrow> udp_exchange \<Rightarrow> udp_exchange option" where
  "udp_handler ec now bytes ux = (case ux_phase ux of
     None \<Rightarrow> Some ux
   | Some ph \<Rightarrow>
       (if is_timeout_or_error ec now (ux_begin ux) (ux_timeout ux) then Some (udp_complete [] ux)
        else (case ph of
            Sending \<Rightarrow> Some (ux\<lparr>ux_phase := Some Receiving\<rparr>)
          | Receiving \<Rightarrow> do {
              buf \<leftarrow> wr_n (replicate 1024 0) 0 bytes;
              resp \<leftarrow> udp_response_parse (udp_response_at buf 0 1024) (length bytes);
              if rs_valid resp then do {
                h \<leftarrow> rs_header resp;
                Some (if h_id h = ux_id ux then udp_complete (rs_ips resp) ux else udp_complete [] ux) }
              else Some (udp_complete [] ux) })))"

text \<open>
  \<open>forward_udp\<close> hands the raw answer on. An empty datagram without an error only frees the
  response: the callback is not called.
\<close>

record forward_exchange =
  fx_phase :: "udp_phase option"
  fx_begin :: nat
  fx_timeout :: nat
  fx_calls :: "u8 list option list"

definition forward_udp :: "nat \<Rightarrow> nat \<Rightarrow> forward_exchange" where
  "forward_udp timeout now = \<lparr>fx_phase = Some Sending, fx_begin = now, fx_timeout = timeout, fx_calls = []\<rparr>"

definition forward_complete :: "u8 list option \<Rightarrow> forward_exchange \<Rightarrow> forward_exchange" where
  "forward_complete r fx = fx\<lparr>fx_phase := None, fx_calls := fx_calls fx @ [r]\<rparr>"

definition forward_handler :: "io_error option \<Rightarrow> nat \<Rightarrow> u8 list \<Rightarrow> forward_exchange \<Rightarrow> forward_exchange" where
  "forward_handler ec now bytes fx = (case fx_phase fx of
     None \<Rightarrow> fx
   | Some ph \<Rightarrow>
       (if is_timeout_or_error ec now (fx_begin fx) (fx_timeout fx) then forward_complete None fx
        else (case ph of
            Sending \<Rightarrow> fx\<lparr>fx_phase := Some Receiving\<rparr>
          | Receiving \<Rightarrow> (if 0 < length bytes then forward_complete (Some bytes) fx else fx\<lparr>fx_phase := None\<rparr>))))"

subsection \<open>TCP and TLS\<close>

datatype tcp_phase = Connecting | Handshaking | Writing | Reading_Length | Reading_Data nat

record tcp_exchange =
  tx_phase :: "tcp_phase option"
  tx_tls :: bool
  tx_begin :: nat
  tx_timeout :: nat
  tx_request :: udp_request
  tx_id :: u16
  tx_data :: buffer
  tx_length :: buffer
  tx_calls :: "u32 list list"

definition tcp_start :: "bool \<Rightarrow> string \<Rightarrow> nat \<Rightarrow> nat \<Rightarrow> u16 \<Rightarrow> (tcp_exchange \<times> u16) option" where
  "tcp_start tls dn timeout now gen = do {
     (req, gen') \<leftarrow> tcp_request_new [dn] gen;
     h \<leftarrow> rq_header req;
     Some (\<lparr>tx_phase = Some Connecting, tx_tls = tls, tx_begin = now, tx_timeout = timeout, tx_request = req,
            tx_id = h_id h, tx_data = alloc_data 2048, tx_length = alloc_data 2, tx_calls = []\<rparr>, gen') }"

text \<open>The area decides the port: a non-zero port of the area replaces the server's.\<close>

definition area_port :: "u16 \<Rightarrow> string \<times> u16 \<Rightarrow> u16" where
  "area_port port area = (if 0 < snd area then snd area else port)"

text \<open>The overloads without an area pass an empty one.\<close>

definition no_area :: "string \<times> u16" where
  "no_area = ([], 0)"

text \<open>The ports of the exchanges that are started for a list of areas, one for each area.\<close>

definition exchange_ports :: "u16 \<Rightarrow> (string \<times> u16) list \<Rightarrow> u16 list" where
  "exchange_ports port areas =
     (if areas = [] then [area_port port no_area]
      else if length areas = 1 then [area_port port (hd areas)]
      else map (area_port port) areas)"

lemma exchange_ports_eq: "exchange_ports port areas = (if areas = [] then [port] else map (area_port port) areas)"
  by (cases areas) (auto simp: exchange_ports_def area_port_def no_area_def)

definition tcp_complete :: "u32 list \<Rightarrow> tcp_exchange \<Rightarrow> tcp_exchange" where
  "tcp_complete ips tx = tx\<lparr>tx_phase := None, tx_calls := tx_calls tx @ [ips]\<rparr>"

definition tcp_send :: "tcp_exchange \<Rightarrow> tcp_exchange option" where
  "tcp_send tx = do {
     buf \<leftarrow> copy_between (rq_buf (tx_request tx)) 0 (tx_data tx) 0 (rq_len (tx_request tx));
     Some (tx\<lparr>tx_data := buf, tx_phase := Some Writing\<rparr>) }"

text \<open>A read without an error has filled its buffer, so \<open>bytes\<close> has the requested length.\<close>

definition tcp_handler :: "io_error option \<Rightarrow> nat \<Rightarrow> u8 list \<Rightarrow> tcp_exchange \<Rightarrow> tcp_exchange option" where
  "tcp_handler ec now bytes tx = (case tx_phase tx of
     None \<Rightarrow> Some tx
   | Some ph \<Rightarrow>
       (if is_timeout_or_error ec now (tx_begin tx) (tx_timeout tx) then Some (tcp_complete [] tx)
        else (case ph of
            Connecting \<Rightarrow> (if tx_tls tx then Some (tx\<lparr>tx_phase := Some Handshaking\<rparr>) else tcp_send tx)
          | Handshaking \<Rightarrow> tcp_send tx
          | Writing \<Rightarrow> Some (tx\<lparr>tx_phase := Some Reading_Length\<rparr>)
          | Reading_Length \<Rightarrow> do {
              lb \<leftarrow> wr_n (tx_length tx) 0 bytes;
              dataLen \<leftarrow> read_int lb 0 (0 :: u16);
              let tx1 = tx\<lparr>tx_length := lb\<rparr>;
              Some (if 1024 < unat dataLen then tcp_complete [] tx1
                    else tx1\<lparr>tx_phase := Some (Reading_Data (unat dataLen))\<rparr>) }
          | Reading_Data n \<Rightarrow> do {
              db \<leftarrow> wr_n (tx_data tx) 0 bytes;
              ips \<leftarrow> client_parse (length bytes) db (tx_id tx);
              Some (tcp_complete ips (tx\<lparr>tx_data := db\<rparr>)) })))"

subsection \<open>Several areas\<close>

text \<open>
  The state shared by the handlers of the areas: a \<open>uint16_t\<close> counter, the flag and the set of
  addresses. The two copies of the code differ: TCP compares the counter with \<open>==\<close> and collects in a
  \<open>std::set\<close>, which is read in increasing order; TLS (\<open>tls\<close>) compares with \<open>>=\<close> and collects in an
  \<open>std::unordered_set\<close>, whose order is not specified and is the argument \<open>ord\<close>. After the final
  call the state is deleted; a further call is a use after free. The client has one thread, so a
  handler is one step.
\<close>

record multi_area =
  ma_counter :: u16
  ma_load_all :: bool
  ma_result :: "u32 list"
  ma_deleted :: bool
  ma_calls :: "(u32 list \<times> bool) list"

definition multi_area_new :: multi_area where
  "multi_area_new = \<lparr>ma_counter = 0, ma_load_all = True, ma_result = [], ma_deleted = False, ma_calls = []\<rparr>"

definition each_handler :: "(u32 list \<Rightarrow> u32 list) \<Rightarrow> bool \<Rightarrow> nat \<Rightarrow> u32 list \<Rightarrow> multi_area \<Rightarrow> multi_area option" where
  "each_handler ord tls areas ips ma =
     (if ma_deleted ma then None
      else
        (let ma1 = ma\<lparr>ma_counter := ma_counter ma + 1,
                     ma_load_all := (if length ips = 0 then False else ma_load_all ma),
                     ma_result := foldl (\<lambda>acc ip. insert_new ip acc) (ma_result ma) ips\<rparr>;
             found = (if tls then ord (ma_result ma1) else sort (ma_result ma1))
         in if (if tls then areas \<le> unat (ma_counter ma1) else unat (ma_counter ma1) = areas)
            then Some (ma1\<lparr>ma_calls := ma_calls ma1 @ [(found, ma_load_all ma1)], ma_deleted := True\<rparr>)
            else Some ma1))"

fun run_handlers :: "(u32 list \<Rightarrow> u32 list) \<Rightarrow> bool \<Rightarrow> nat \<Rightarrow> u32 list list \<Rightarrow> multi_area \<Rightarrow> multi_area option" where
  "run_handlers ord tls areas [] ma = Some ma"
| "run_handlers ord tls areas (ips # rest) ma = do {
     ma' \<leftarrow> each_handler ord tls areas ips ma;
     run_handlers ord tls areas rest ma' }"

text \<open>
  The handler calls for a list of areas and the answers of their exchanges, in the order in which
  they arrive: none or one area hands its answer on with \<open>load_all\<close> set.
\<close>

definition multi_area_calls :: "(u32 list \<Rightarrow> u32 list) \<Rightarrow> bool \<Rightarrow> (string \<times> u16) list \<Rightarrow> u32 list list \<Rightarrow> (u32 list \<times> bool) list option" where
  "multi_area_calls ord tls areas answers =
     (if length areas \<le> 1 then Some (map (\<lambda>ips. (ips, True)) answers)
      else map_option ma_calls (run_handlers ord tls (length areas) answers multi_area_new))"

subsection \<open>Areas of a response\<close>

text \<open>\<open>ip_areas\<close> of \<open>response.cpp\<close>: the area of every address, asking the area manager.\<close>

fun ip_areas :: "string list \<Rightarrow> u32 list \<Rightarrow> area_manager \<Rightarrow> string list \<times> area_manager" where
  "ip_areas ord [] m = ([], m)"
| "ip_areas ord (ip # ips) m =
     (let (a, m1) = get_area ord ip True m; (as, m2) = ip_areas ord ips m1 in (a # as, m2))"

definition fist_ip_area :: "string list \<Rightarrow> udp_response \<Rightarrow> area_manager \<Rightarrow> string \<times> area_manager" where
  "fist_ip_area ord resp m = get_area ord (udp_response_fist_ip resp) True m"

section \<open>Lemmas on exchanges\<close>

fun tcp_run :: "(io_error option \<times> nat \<times> u8 list) list \<Rightarrow> tcp_exchange \<Rightarrow> tcp_exchange option" where
  "tcp_run [] tx = Some tx"
| "tcp_run ((ec, now, bytes) # evs) tx = do { tx' \<leftarrow> tcp_handler ec now bytes tx; tcp_run evs tx' }"

text \<open>How many completions an exchange can still take, and that it has called its handler iff it is over.\<close>

fun tcp_remaining :: "tcp_phase option \<Rightarrow> nat" where
  "tcp_remaining None = 0"
| "tcp_remaining (Some Connecting) = 5"
| "tcp_remaining (Some Handshaking) = 4"
| "tcp_remaining (Some Writing) = 3"
| "tcp_remaining (Some Reading_Length) = 2"
| "tcp_remaining (Some (Reading_Data n)) = 1"

definition tcp_once :: "tcp_exchange \<Rightarrow> bool" where
  "tcp_once tx \<longleftrightarrow> (if tx_phase tx = None then length (tx_calls tx) = 1 else tx_calls tx = [])"

lemma tcp_remaining_pos [simp]: "0 < tcp_remaining (Some ph)"
  by (cases ph) simp_all

lemma tcp_handler_step:
  assumes "tcp_handler ec now bytes tx = Some tx'" and "tcp_once tx"
  shows "tcp_once tx' \<and> (tx_phase tx = None \<or> tcp_remaining (tx_phase tx') < tcp_remaining (tx_phase tx))"
  using assms
  by (auto simp: tcp_handler_def tcp_once_def tcp_complete_def tcp_send_def bind_eq_Some_conv Let_def
      split: option.splits if_splits tcp_phase.splits)

lemma tcp_run_once:
  assumes "tcp_run evs tx = Some tx'" and "tcp_once tx"
  shows "tcp_once tx' \<and> tcp_remaining (tx_phase tx') \<le> tcp_remaining (tx_phase tx) - length evs"
  using assms
proof (induction evs tx rule: tcp_run.induct)
  case (1 tx)
  then show ?case by simp
next
  case (2 ec now bytes evs tx)
  then obtain tx1 where h: "tcp_handler ec now bytes tx = Some tx1" and r: "tcp_run evs tx1 = Some tx'"
    by (auto simp: bind_eq_Some_conv)
  have same: "tx1 = tx" if "tx_phase tx = None" using h that by (simp add: tcp_handler_def)
  from tcp_handler_step [OF h "2.prems"(2)] "2.IH" [OF h r] same show ?case by fastforce
qed

lemma tcp_start_once: "tcp_start tls dn timeout now gen = Some (tx, gen') \<Longrightarrow> tcp_once tx \<and> tcp_remaining (tx_phase tx) = 5"
  by (auto simp: tcp_start_def tcp_once_def bind_eq_Some_conv)

text \<open>The same for the two exchanges over UDP; a forwarded request can end without a call.\<close>

fun udp_run :: "(io_error option \<times> nat \<times> u8 list) list \<Rightarrow> udp_exchange \<Rightarrow> udp_exchange option" where
  "udp_run [] ux = Some ux"
| "udp_run ((ec, now, bytes) # evs) ux = do { ux' \<leftarrow> udp_handler ec now bytes ux; udp_run evs ux' }"

fun forward_run :: "(io_error option \<times> nat \<times> u8 list) list \<Rightarrow> forward_exchange \<Rightarrow> forward_exchange" where
  "forward_run [] fx = fx"
| "forward_run ((ec, now, bytes) # evs) fx = forward_run evs (forward_handler ec now bytes fx)"

lemma forward_run_done: "fx_phase fx = None \<Longrightarrow> forward_run evs fx = fx"
  by (induction evs fx rule: forward_run.induct) (simp_all add: forward_handler_def)

lemma udp_run_done: "ux_phase ux = None \<Longrightarrow> udp_run evs ux = Some ux"
  by (induction evs ux rule: udp_run.induct) (simp_all add: udp_handler_def)

lemma tcp_run_done: "tx_phase tx = None \<Longrightarrow> tcp_run evs tx = Some tx"
  by (induction evs tx rule: tcp_run.induct) (simp_all add: tcp_handler_def)

section \<open>Lemmas on the aggregation\<close>

lemma set_insert_all [simp]: "set (foldl (\<lambda>acc ip. insert_new ip acc) acc ips) = set acc \<union> set ips"
  by (induction ips arbitrary: acc) auto

lemma distinct_insert_all [simp]: "distinct (foldl (\<lambda>acc ip. insert_new ip acc) acc ips) = distinct acc"
  by (induction ips arbitrary: acc) auto

declare insert_new.simps [simp del]

lemma run_handlers_correct:
  assumes "unat (ma_counter ma) + length answers = areas" and "areas < 2 ^ 16" and "answers \<noteq> []" and "\<not> ma_deleted ma"
  shows "\<exists>ma' found. run_handlers ord tls areas answers ma = Some ma'
           \<and> ma_calls ma' = ma_calls ma @ [(if tls then ord found else sort found, ma_load_all ma \<and> [] \<notin> set answers)]
           \<and> set found = set (ma_result ma) \<union> \<Union> (set ` set answers) \<and> distinct found = distinct (ma_result ma)"
  using assms
proof (induction answers arbitrary: ma)
  case Nil
  then show ?case by simp
next
  case (Cons ips rest)
  have c: "unat (ma_counter ma + 1) = Suc (unat (ma_counter ma))"
    using Cons.prems(1,2) by (subst unat_word_ariths) (simp add: less_eq_Suc_le)
  show ?case
  proof (cases "rest = []")
    case True
    with Cons.prems c show ?thesis
      by (intro exI [of _ "the (each_handler ord tls areas ips ma)"] exI [of _ "foldl (\<lambda>acc ip. insert_new ip acc) (ma_result ma) ips"])
         (auto simp: each_handler_def Let_def)
  next
    case False
    define ma1 where "ma1 = ma\<lparr>ma_counter := ma_counter ma + 1,
                     ma_load_all := (if length ips = 0 then False else ma_load_all ma),
                     ma_result := foldl (\<lambda>acc ip. insert_new ip acc) (ma_result ma) ips\<rparr>"
    have less: "Suc (unat (ma_counter ma)) < areas" using Cons.prems(1) False by (cases rest) simp_all
    with Cons.prems(4) c have step: "each_handler ord tls areas ips ma = Some ma1"
      by (simp add: each_handler_def Let_def ma1_def)
    from Cons.IH [of ma1] Cons.prems c False obtain ma' found where
      "run_handlers ord tls areas rest ma1 = Some ma'"
      "ma_calls ma' = ma_calls ma1 @ [(if tls then ord found else sort found, ma_load_all ma1 \<and> [] \<notin> set rest)]"
      "set found = set (ma_result ma1) \<union> \<Union> (set ` set rest)" "distinct found = distinct (ma_result ma1)"
      by (auto simp: ma1_def)
    with step show ?thesis
      by (intro exI [of _ ma'] exI [of _ found]) (auto simp: ma1_def)
  qed
qed

section \<open>A complete exchange\<close>

lemma tcp_start_correct:
  assumes "query_fits [dn]"
  shows "\<exists>tx. tcp_start tls dn timeout now gen = Some (tx, gen + 1)
           \<and> tx_phase tx = Some Connecting \<and> tx_tls tx = tls \<and> tx_begin tx = now \<and> tx_timeout tx = timeout
           \<and> tx_id tx = gen \<and> tx_calls tx = [] \<and> length (tx_data tx) = 2048 \<and> length (tx_length tx) = 8
           \<and> rq_len (tx_request tx) = length (query_bytes gen [dn]) + 2
           \<and> bytes_at (rq_buf (tx_request tx)) 0
               (int_bytes (word_of_nat (length (query_bytes gen [dn])) :: u16) @ query_bytes gen [dn])"
proof -
  obtain t where t: "tcp_request_new [dn] gen = Some (t, gen + 1)" "rq_len t = length (query_bytes gen [dn]) + 2"
    "bytes_at (rq_buf t) 0 (int_bytes (word_of_nat (length (query_bytes gen [dn])) :: u16) @ query_bytes gen [dn])"
    "map_option h_id (rq_header t) = Some gen"
    using tcp_request_new_correct [OF assms refl] by blast
  then show ?thesis by (auto simp: tcp_start_def simp del: be_bytes.simps)
qed

text \<open>An answer as a server sends it: the id, the questions and the addresses.\<close>

definition answer_bytes :: "u16 \<Rightarrow> (string \<times> u16 \<times> u16) list \<Rightarrow> u32 \<Rightarrow> u32 list \<Rightarrow> u8 list" where
  "answer_bytes ident qs expire ips =
     header_bytes ident (length qs) 0 (length ips) True @ questions_bytes qs @ answers_bytes expire ips"

lemma parse_answer_bytes:
  assumes "wf_questions qs" and "qs \<noteq> []" and "length (answer_bytes ident qs expire ips) \<le> 1024"
    and "bytes_at buf 0 (answer_bytes ident qs expire ips)"
  shows "\<exists>r h. udp_response_parse (udp_response_at buf 0 n) (length (answer_bytes ident qs expire ips)) = Some r
           \<and> rs_valid r \<and> rs_ips r = ips \<and> rs_header r = Some h \<and> h_id h = ident \<and> responseCode h = 0"
proof -
  have "length qs \<le> length (questions_bytes qs)" by (induction qs) auto
  then have small: "length qs < 2 ^ 16" "length ips < 2 ^ 16" using assms(3) by (simp_all add: answer_bytes_def)
  show ?thesis
    using parse_message [of "udp_response_at buf 0 n" ident qs 0 ips True expire] assms(1,2,4) small
    by (auto simp: udp_response_at_def answer_bytes_def parsed_header_def add.assoc)
qed

lemma client_parse_answer_bytes:
  assumes "wf_questions qs" and "qs \<noteq> []" and "length (answer_bytes ident qs expire ips) \<le> 1024"
    and "bytes_at buf 0 (answer_bytes ident qs expire ips)"
  shows "client_parse (length (answer_bytes ident qs expire ips)) buf dnsId = Some (if ident = dnsId then ips else [])"
proof -
  let ?n = "length (answer_bytes ident qs expire ips)"
  have "0 < ?n" by (simp add: answer_bytes_def)
  moreover obtain r h where "udp_response_parse (udp_response_at buf 0 ?n) ?n = Some r" "rs_valid r" "rs_ips r = ips"
    "rs_header r = Some h" "h_id h = ident" "responseCode h = 0"
    using parse_answer_bytes [OF assms] by blast
  ultimately show ?thesis
    using assms(3) by (simp add: client_parse_def Let_def udp_response_mark_invalid_def)
qed

lemma tcp_send_correct:
  assumes "bytes_at (rq_buf (tx_request tx)) 0 bs" and "rq_len (tx_request tx) = length bs"
    and "length bs \<le> length (tx_data tx)"
  shows "\<exists>buf. tcp_send tx = Some (tx\<lparr>tx_data := buf, tx_phase := Some Writing\<rparr>) \<and> take (length bs) buf = bs
           \<and> length buf = length (tx_data tx)"
proof -
  obtain buf where b: "wr_n (tx_data tx) 0 bs = Some buf" using wr_n_in_bounds [of 0 bs "tx_data tx"] assms(3) by auto
  from bytes_at_take [OF wr_n_bytes_at [OF b]] have "take (length bs) buf = bs" by simp
  with b copy_between_bytes_at [OF assms(1)] assms(2) wr_n_length [OF b] show ?thesis
    by (intro exI [of _ buf]) (simp add: tcp_send_def)
qed

lemma tcp_read_answer:
  assumes "wf_questions qs" and "qs \<noteq> []" and "length (answer_bytes ident qs expire ips) \<le> 1024"
    and phase: "tx_phase tx = Some Writing" and bufs: "length (tx_data tx) = 2048" "length (tx_length tx) = 8"
    and inTime: "\<forall>t \<in> {t1, t2, t3}. \<not> is_timeout_or_error None t (tx_begin tx) (tx_timeout tx)"
  shows "\<exists>tx'. tcp_run [(None, t1, []), (None, t2, int_bytes (word_of_nat (length (answer_bytes ident qs expire ips)) :: u16)),
                       (None, t3, answer_bytes ident qs expire ips)] tx = Some tx'
           \<and> tx_phase tx' = None \<and> tx_calls tx' = tx_calls tx @ [if ident = tx_id tx then ips else []]"
proof -
  let ?a = "answer_bytes ident qs expire ips"
  let ?pre = "int_bytes (word_of_nat (length ?a) :: u16)"
  have pre: "length ?pre = 2" by simp
  obtain lb where lb: "wr_n (tx_length tx) 0 ?pre = Some lb"
    using wr_n_in_bounds [of 0 ?pre "tx_length tx"] bufs(2) pre by auto
  have rl: "read_int lb 0 0 = Some (word_of_nat (length ?a) :: u16)"
    by (rule u16_wire.dec_enc) (use wr_n_bytes_at [OF lb] in simp)
  have un: "unat (word_of_nat (length ?a) :: u16) = length ?a"
    using assms(3) by (simp add: unat_of_nat take_bit_nat_eq_self)
  obtain db where db: "wr_n (tx_data tx) 0 ?a = Some db"
    using wr_n_in_bounds [of 0 ?a "tx_data tx"] bufs(1) assms(3) by auto
  have cp: "client_parse (length ?a) db (tx_id tx) = Some (if ident = tx_id tx then ips else [])"
    by (rule client_parse_answer_bytes [OF assms(1-3)]) (use wr_n_bytes_at [OF db] in simp)
  define tx1 where "tx1 = tx\<lparr>tx_phase := Some Reading_Length\<rparr>"
  define tx2 where "tx2 = tx1\<lparr>tx_length := lb, tx_phase := Some (Reading_Data (length ?a))\<rparr>"
  have 1: "tcp_handler None t1 [] tx = Some tx1" using phase inTime by (simp add: tcp_handler_def tx1_def)
  have 2: "tcp_handler None t2 ?pre tx1 = Some tx2"
    using inTime lb rl un assms(3)
    by (simp add: tcp_handler_def tx1_def tx2_def Let_def del: be_bytes.simps)
  have 3: "tcp_handler None t3 ?a tx2 = Some (tcp_complete (if ident = tx_id tx then ips else []) (tx2\<lparr>tx_data := db\<rparr>))"
    using inTime db cp by (simp add: tcp_handler_def tx1_def tx2_def)
  have "tcp_run [(None, t1, []), (None, t2, ?pre), (None, t3, ?a)] tx =
      Some (tcp_complete (if ident = tx_id tx then ips else []) (tx2\<lparr>tx_data := db\<rparr>))"
    by (simp only: tcp_run.simps 1 2 3 Option.bind.bind_lunit)
  then show ?thesis by (intro exI conjI) (assumption, simp_all add: tcp_complete_def tx2_def tx1_def)
qed

section \<open>Properties\<close>

text \<open>
  Resolution over TCP and TLS from start to end: for a well-formed host that fits a request, the
  exchange writes exactly the length-prefixed query with the id it drew, and when the server
  answers in time with any message that echoes some questions and carries addresses, the
  caller's handler is called exactly once: with exactly those addresses when the answer has the
  id of the query, and with none when it has another id.
\<close>

theorem tcp_exchange_resolves:
  assumes "query_fits [dn]" and "wf_questions qs" and "qs \<noteq> []"
    and "length (answer_bytes ident qs expire ips) \<le> 1024"
    and "\<forall>t \<in> {t0, t1, t2, t3}. \<not> is_timeout_or_error None t now timeout"
  shows "\<exists>tx tx1 tx2. tcp_start tls dn timeout now gen = Some (tx, gen + 1)
           \<and> tcp_run (replicate (if tls then 2 else 1) (None, t0, [])) tx = Some tx1 \<and> tx_phase tx1 = Some Writing
           \<and> take (rq_len (tx_request tx)) (tx_data tx1) =
               int_bytes (word_of_nat (length (query_bytes gen [dn])) :: u16) @ query_bytes gen [dn]
           \<and> tcp_run [(None, t1, []), (None, t2, int_bytes (word_of_nat (length (answer_bytes ident qs expire ips)) :: u16)),
                      (None, t3, answer_bytes ident qs expire ips)] tx1 = Some tx2
           \<and> tx_phase tx2 = None \<and> tx_calls tx2 = [if ident = gen then ips else []]"
proof -
  let ?q = "int_bytes (word_of_nat (length (query_bytes gen [dn])) :: u16) @ query_bytes gen [dn]"
  obtain tx where tx: "tcp_start tls dn timeout now gen = Some (tx, gen + 1)"
    "tx_phase tx = Some Connecting" "tx_tls tx = tls" "tx_begin tx = now" "tx_timeout tx = timeout"
    "tx_id tx = gen" "tx_calls tx = []" "length (tx_data tx) = 2048" "length (tx_length tx) = 8"
    "rq_len (tx_request tx) = length (query_bytes gen [dn]) + 2" "bytes_at (rq_buf (tx_request tx)) 0 ?q"
    using tcp_start_correct [OF assms(1), of tls timeout now gen] by blast
  have lq: "rq_len (tx_request tx) = length ?q" using tx(10) by simp
  have fit: "length ?q \<le> 2048" using assms(1) by (simp add: query_fits_def length_query_bytes)
  define tx0 where "tx0 = (if tls then tx\<lparr>tx_phase := Some Handshaking\<rparr> else tx)"
  obtain buf where buf: "tcp_send tx0 = Some (tx0\<lparr>tx_data := buf, tx_phase := Some Writing\<rparr>)" "take (length ?q) buf = ?q"
    "length buf = 2048"
    using tcp_send_correct [of tx0 ?q] tx lq fit by (auto simp: tx0_def)
  define tx1 where "tx1 = tx0\<lparr>tx_data := buf, tx_phase := Some Writing\<rparr>"
  have run1: "tcp_run (replicate (if tls then 2 else 1) (None, t0, [])) tx = Some tx1"
    using assms(5) tx(2-5) buf(1) by (simp add: tx0_def tx1_def tcp_handler_def numeral_2_eq_2 split: if_splits)
  obtain tx2 where "tcp_run [(None, t1, []), (None, t2, int_bytes (word_of_nat (length (answer_bytes ident qs expire ips)) :: u16)),
                      (None, t3, answer_bytes ident qs expire ips)] tx1 = Some tx2"
    "tx_phase tx2 = None" "tx_calls tx2 = [if ident = gen then ips else []]"
    using tcp_read_answer [OF assms(2-4), of tx1 t1 t2 t3] assms(5) tx buf(3) by (auto simp: tx1_def tx0_def)
  with tx(1) run1 buf(2) lq show ?thesis
    by (intro exI [of _ tx] exI [of _ tx1] exI [of _ tx2]) (simp add: tx1_def del: be_bytes.simps tcp_run.simps)
qed

theorem tcp_exchange_resolves_witness:
  "\<exists>tx tx1 tx2. tcp_start True ''qq.com'' 100 1000 7 = Some (tx, 7 + 1)
     \<and> tcp_run (replicate (if True then 2 else 1) (None, 1010, [])) tx = Some tx1 \<and> tx_phase tx1 = Some Writing
     \<and> take (rq_len (tx_request tx)) (tx_data tx1) =
         int_bytes (word_of_nat (length (query_bytes 7 [''qq.com''])) :: u16) @ query_bytes 7 [''qq.com'']
     \<and> tcp_run [(None, 1020, []),
                (None, 1030, int_bytes (word_of_nat (length (answer_bytes 7 [(''qq.com'', 1, 1)] 60 [5, 6])) :: u16)),
                (None, 1100, answer_bytes 7 [(''qq.com'', 1, 1)] 60 [5, 6])] tx1 = Some tx2
     \<and> tx_phase tx2 = None \<and> tx_calls tx2 = [if 7 = (7 :: u16) then [5, 6] else []]"
  by (rule tcp_exchange_resolves)
     (simp_all add: query_fits_def wf_host_def wf_label_def answer_bytes_def is_timeout_or_error_def minus_u64_def)

text \<open>
  C17. Every exchange over TCP or TLS, whatever the network does, calls the caller's handler exactly
  once: after at most five completions it is over with one call, and before that there was no
  call. (A run exists unless the answer makes the parser read out of bounds.)
\<close>

theorem tcp_exchange_once:
  assumes "tcp_start tls dn timeout now gen = Some (tx, gen')" and "tcp_run evs tx = Some tx'"
  shows "(if tx_phase tx' = None then length (tx_calls tx') = 1 else tx_calls tx' = [])
         \<and> (5 \<le> length evs \<longrightarrow> tx_phase tx' = None)"
proof -
  note start = tcp_start_once [OF assms(1)]
  have "tx_phase tx' = None" if "tcp_remaining (tx_phase tx') = 0"
    using that tcp_remaining_pos by (cases "tx_phase tx'") (simp_all del: tcp_remaining_pos, metis less_irrefl)
  with tcp_run_once [OF assms(2)] start show ?thesis by (auto simp: tcp_once_def)
qed

theorem tcp_exchange_once_witness:
  "\<exists>tx tx'. tcp_start False ''a.b'' 100 0 7 = Some (tx, 8)
     \<and> tcp_run [(None, 1, []), (Some Other_Error, 2, [])] tx = Some tx'
     \<and> (if tx_phase tx' = None then length (tx_calls tx') = 1 else tx_calls tx' = [])
     \<and> (5 \<le> length [(None, 1, []), (Some Other_Error, 2 :: nat, [] :: u8 list)] \<longrightarrow> tx_phase tx' = None)"
proof -
  have "query_fits [''a.b'']" by (simp add: query_fits_def wf_host_def wf_label_def)
  from tcp_start_correct [OF this, of False 100 0 7] obtain tx where tx: "tcp_start False ''a.b'' 100 0 7 = Some (tx, 8)"
    "tx_phase tx = Some Connecting" "\<not> tx_tls tx" "tx_begin tx = 0" "tx_timeout tx = 100" "length (tx_data tx) = 2048"
    "rq_len (tx_request tx) = length (query_bytes 7 [''a.b'']) + 2"
    "bytes_at (rq_buf (tx_request tx)) 0
       (int_bytes (word_of_nat (length (query_bytes 7 [''a.b''])) :: u16) @ query_bytes 7 [''a.b''])"
    by auto
  have "length (query_bytes 7 [''a.b'']) + 2 \<le> 2048" by (simp add: length_query_bytes)
  then obtain buf where "tcp_send tx = Some (tx\<lparr>tx_data := buf, tx_phase := Some Writing\<rparr>)"
    using tcp_send_correct [OF tx(8)] tx(6,7) by auto
  then have run: "tcp_run [(None, 1, []), (Some Other_Error, 2, [])] tx =
      Some (tcp_complete [] (tx\<lparr>tx_data := buf, tx_phase := Some Writing\<rparr>))"
    using tx(2-5) by (simp add: tcp_handler_def is_timeout_or_error_def minus_u64_def)
  from tcp_exchange_once [OF tx(1) run] tx(1) run show ?thesis by blast
qed

text \<open>
  C22. The addresses that an answer over TCP contributes are authenticated as far as the protocol goes:
  they come only from a message of at most 1024 bytes with the id of the query and response code
  zero, and they are exactly the addresses of its announced answers.
\<close>

theorem client_parse_sound:
  assumes "client_parse len buf dnsId = Some ips" and "ips \<noteq> []"
  shows "0 < len \<and> len \<le> 1024 \<and> (\<exists>r h. udp_response_parse (udp_response_at buf 0 len) len = Some r \<and> rs_valid r
           \<and> rs_header r = Some h \<and> h_id h = dnsId \<and> responseCode h = 0
           \<and> length (answerZones r) = unat (answerCount h) \<and> ips = concat (map ipv4s (answerZones r)))"
proof -
  from assms obtain r h where len: "0 < len" "len \<le> 1024"
    and r: "udp_response_parse (udp_response_at buf 0 len) len = Some r" "rs_valid r" "rs_header r = Some h"
    and ok: "h_id h = dnsId" "responseCode h = 0" "ips = rs_ips r"
    by (auto simp: client_parse_def Let_def bind_eq_Some_conv udp_response_mark_invalid_def split: if_splits)
  have "parse_done r" by (rule udp_response_parse_done [OF r(1,2)])
  with len r ok show ?thesis by (intro conjI exI [of _ r] exI [of _ h]) (auto simp: parse_done_def answers_ok_def)
qed

theorem client_parse_sound_witness:
  "\<exists>buf. client_parse 40 buf 7 = Some [5] \<and> 0 < (40 :: nat) \<and> 40 \<le> (1024 :: nat)
     \<and> (\<exists>r h. udp_response_parse (udp_response_at buf 0 40) 40 = Some r \<and> rs_valid r
           \<and> rs_header r = Some h \<and> h_id h = 7 \<and> responseCode h = 0
           \<and> length (answerZones r) = unat (answerCount h) \<and> [5] = concat (map ipv4s (answerZones r)))"
proof -
  let ?a = "answer_bytes 7 [(''qq.com'', 1, 1)] 60 [5]"
  have "client_parse (length ?a) ?a 7 = Some (if 7 = (7 :: u16) then [5] else [])"
    by (rule client_parse_answer_bytes) (simp_all add: wf_host_def wf_label_def answer_bytes_def bytes_at_def)
  moreover have "length ?a = 40" by (simp add: answer_bytes_def)
  ultimately have "client_parse 40 ?a 7 = Some [5]" by simp
  with client_parse_sound [OF this] show ?thesis by blast
qed

text \<open>
  Resolution over UDP: a request is built for the host, and an answer in time with its id gives
  one call with exactly the addresses of the answer; an answer with another id gives one call with
  none.
\<close>

theorem udp_exchange_resolves:
  assumes "query_fits [dn]" and "wf_questions qs" and "qs \<noteq> []"
    and "length (answer_bytes ident qs expire ips) \<le> 1024"
    and "\<not> is_timeout_or_error None t1 now timeout" and "\<not> is_timeout_or_error None t2 now timeout"
  shows "\<exists>ux req ux'. udp_dns dn timeout now gen = Some (ux, req, gen + 1)
           \<and> take (rq_len req) (rq_buf req) = query_bytes gen [dn]
           \<and> udp_run [(None, t1, []), (None, t2, answer_bytes ident qs expire ips)] ux = Some ux'
           \<and> ux_phase ux' = None \<and> ux_calls ux' = [if ident = gen then ips else []]"
proof -
  let ?a = "answer_bytes ident qs expire ips"
  obtain req where req: "udp_request_new [dn] gen = Some (req, gen + 1)" "rq_len req = length (query_bytes gen [dn])"
    "bytes_at (rq_buf req) 0 (query_bytes gen [dn])" "map_option h_id (rq_header req) = Some gen"
    using udp_request_new_correct [OF assms(1)] by blast
  define ux where "ux = \<lparr>ux_phase = Some Sending, ux_begin = now, ux_timeout = timeout, ux_id = gen, ux_calls = []\<rparr>"
  have start: "udp_dns dn timeout now gen = Some (ux, req, gen + 1)"
    using req(1,4) by (auto simp: udp_dns_def ux_def)
  obtain buf where buf: "wr_n (replicate 1024 0) 0 ?a = Some buf"
    using wr_n_in_bounds [of 0 ?a "replicate 1024 0"] assms(4) by auto
  have "bytes_at buf 0 ?a" using wr_n_bytes_at [OF buf] by simp
  from parse_answer_bytes [OF assms(2-4) this, of 1024] obtain r h where
    r: "udp_response_parse (udp_response_at buf 0 1024) (length ?a) = Some r" "rs_valid r" "rs_ips r = ips"
      "rs_header r = Some h" "h_id h = ident" by blast
  have 1: "udp_handler None t1 [] ux = Some (ux\<lparr>ux_phase := Some Receiving\<rparr>)"
    using assms(5) by (simp add: udp_handler_def ux_def)
  have 2: "udp_handler None t2 ?a (ux\<lparr>ux_phase := Some Receiving\<rparr>) =
      Some (udp_complete (if ident = gen then ips else []) (ux\<lparr>ux_phase := Some Receiving\<rparr>))"
    using assms(6) buf r by (simp add: udp_handler_def ux_def)
  have "udp_run [(None, t1, []), (None, t2, ?a)] ux =
      Some (udp_complete (if ident = gen then ips else []) (ux\<lparr>ux_phase := Some Receiving\<rparr>))"
    by (simp only: udp_run.simps 1 2 Option.bind.bind_lunit)
  with start req(2) bytes_at_take [OF req(3)] show ?thesis
    by (intro exI [of _ ux] exI [of _ req] exI conjI) (simp, simp, assumption, simp_all add: udp_complete_def ux_def)
qed

theorem udp_exchange_resolves_witness:
  "\<exists>ux req ux'. udp_dns ''qq.com'' 100 1000 7 = Some (ux, req, 7 + 1)
     \<and> take (rq_len req) (rq_buf req) = query_bytes 7 [''qq.com'']
     \<and> udp_run [(None, 1010, []), (None, 1020, answer_bytes 7 [(''qq.com'', 1, 1)] 60 [5, 6])] ux = Some ux'
     \<and> ux_phase ux' = None \<and> ux_calls ux' = [if 7 = (7 :: u16) then [5, 6] else []]"
  by (rule udp_exchange_resolves)
     (simp_all add: query_fits_def wf_host_def wf_label_def answer_bytes_def is_timeout_or_error_def minus_u64_def)

text \<open>
  C20. A lookup for several areas reports once, after the last area has answered, in whatever order the
  answers arrive: with every address of some answer, each once, and with \<open>load_all\<close> set iff
  no area came back empty. The hypothesis on \<open>ord\<close> is that an \<open>unordered_set\<close> is read without
  loss or repetition.
\<close>

theorem multi_area_reports_once:
  assumes "length answers = length areas" and "2 \<le> length areas" and "length areas < 2 ^ 16"
    and "\<And>xs. distinct xs \<Longrightarrow> distinct (ord xs) \<and> set (ord xs) = set xs"
  shows "\<exists>found. multi_area_calls ord tls areas answers = Some [(found, [] \<notin> set answers)]
           \<and> distinct found \<and> set found = \<Union> (set ` set answers) \<and> (\<not> tls \<longrightarrow> sorted found)"
proof -
  have "answers \<noteq> []" using assms(1,2) by auto
  from run_handlers_correct [of multi_area_new answers "length areas" ord tls, OF _ assms(3) this] assms(1)
  obtain ma' found where "run_handlers ord tls (length areas) answers multi_area_new = Some ma'"
    "ma_calls ma' = [(if tls then ord found else sort found, [] \<notin> set answers)]"
    "set found = \<Union> (set ` set answers)" "distinct found"
    by (auto simp: multi_area_new_def)
  with assms(2,4) show ?thesis
    by (intro exI [of _ "if tls then ord found else sort found"]) (simp add: multi_area_calls_def)
qed

theorem multi_area_reports_once_witness:
  "\<exists>found. multi_area_calls rev True [(''CN'', 1), (''US'', 2)] [[5, 6], [6]] = Some [(found, [] \<notin> set [[5, 6], [6 :: u32]])]
     \<and> distinct found \<and> set found = \<Union> (set ` set [[5, 6], [6]]) \<and> (\<not> True \<longrightarrow> sorted found)"
  by (rule multi_area_reports_once) simp_all

text \<open>
  What becomes of a forwarded request, for every behaviour of the network: a failure or timeout
  of either operation reports a missing response, a datagram with bytes reports exactly those
  bytes, and an empty datagram ends the exchange without any report, so that the session that
  waits for it is never completed.
\<close>

theorem forward_udp_calls:
  "fx_calls (forward_run ((e1, t1, b1) # (e2, t2, b2) # evs) (forward_udp timeout now)) =
     (if is_timeout_or_error e1 t1 now timeout \<or> is_timeout_or_error e2 t2 now timeout then [None]
      else if b2 = [] then [] else [Some b2])
   \<and> fx_phase (forward_run ((e1, t1, b1) # (e2, t2, b2) # evs) (forward_udp timeout now)) = None"
  by (simp add: forward_udp_def forward_handler_def forward_complete_def forward_run_done)

end
