(* ===== verification/Client_Io.thy ===== *)
theory Client_Io
  imports Dns_Client
begin

text \<open>
  The life of an exchange of \<open>src/core/dns_client.cpp\<close>: its socket, its buffers and its timer. Every
  exchange starts one asynchronous operation and a timer. The handler of the timer closes the socket
  and posts the release of the socket and the buffers; \<open>complete\<close> deletes the timer, which cancels its
  wait, so that its handler runs as well. A TLS exchange first shuts the stream down and closes the
  socket in the handler of that.

  The client runs its \<open>io_context\<close> in one thread: the ready handlers are a queue. An operation that is
  outstanding when its socket is closed completes with \<open>operation_aborted\<close>; one that is started on a
  closed socket completes with an error. The theory is generic in what the handlers of the operations
  do (\<open>exchange_ops\<close>), and is instantiated with the exchanges of \<open>Dns_Client\<close>.
\<close>

section \<open>Model\<close>

record 'x exchange_ops =
  xo_handler :: "io_error option \<Rightarrow> nat \<Rightarrow> u8 list \<Rightarrow> 'x \<Rightarrow> 'x option"
  xo_fails :: "io_error option \<Rightarrow> nat \<Rightarrow> 'x \<Rightarrow> bool"
  xo_active :: "'x \<Rightarrow> bool"
  xo_calls :: "'x \<Rightarrow> nat"
  xo_tls :: "'x \<Rightarrow> bool"

datatype ready = Op_Handler "io_error option" "u8 list" | Timer_Handler | Shutdown_Handler | Release

text \<open>
  \<open>io_op\<close>: an operation is outstanding; \<open>io_armed\<close>: the timer waits; \<open>io_timer\<close>: the timer is not
  deleted; \<open>io_shutdown\<close>: a TLS shutdown is outstanding; \<open>io_alive\<close>: socket and buffers are not released.
\<close>

record 'x client_io =
  io_ex :: 'x
  io_op :: bool
  io_ready :: "ready list"
  io_armed :: bool
  io_timer :: bool
  io_shutdown :: bool
  io_open :: bool
  io_alive :: bool

datatype io_fault = Use_After_Free | Double_Delete | Handler_Fault

definition io_start :: "'x \<Rightarrow> 'x client_io" where
  "io_start ex = \<lparr>io_ex = ex, io_op = True, io_ready = [], io_armed = True, io_timer = True, io_shutdown = False,
     io_open = True, io_alive = True\<rparr>"

text \<open>The start of \<open>complete\<close>: deleting the timer cancels its wait.\<close>

definition io_complete :: "'x client_io \<Rightarrow> io_fault + 'x client_io" where
  "io_complete s =
     (if \<not> io_timer s then Inl Double_Delete
      else Inr (s\<lparr>io_timer := False, io_armed := False,
                  io_ready := io_ready s @ (if io_armed s then [Timer_Handler] else [])\<rparr>))"

text \<open>Shutting down, cancelling and closing the socket, and posting the release.\<close>

definition io_close :: "'x client_io \<Rightarrow> 'x client_io" where
  "io_close s = s\<lparr>io_open := False, io_op := False,
     io_ready := io_ready s @ (if io_op s then [Op_Handler (Some Operation_Aborted) []] else []) @ [Release]\<rparr>"

definition io_start_op :: "'x client_io \<Rightarrow> 'x client_io" where
  "io_start_op s =
     (if io_open s then s\<lparr>io_op := True\<rparr> else s\<lparr>io_ready := io_ready s @ [Op_Handler (Some Other_Error) []]\<rparr>)"

fun run_handler :: "'x exchange_ops \<Rightarrow> nat \<Rightarrow> ready \<Rightarrow> 'x client_io \<Rightarrow> io_fault + 'x client_io" where
  "run_handler X now (Op_Handler ec bytes) s =
     (if \<not> xo_fails X ec now (io_ex s) \<and> \<not> io_alive s then Inl Use_After_Free
      else (case xo_handler X ec now bytes (io_ex s) of
          None \<Rightarrow> Inl Handler_Fault
        | Some ex \<Rightarrow>
            (let s1 = s\<lparr>io_ex := ex\<rparr> in
             if xo_calls X (io_ex s) < xo_calls X ex then io_complete s1
             else if xo_active X ex then Inr (io_start_op s1) else Inr s1)))"
| "run_handler X now Timer_Handler s =
     (if \<not> io_alive s then Inl Use_After_Free
      else if xo_tls X (io_ex s) then Inr (s\<lparr>io_shutdown := True\<rparr>) else Inr (io_close s))"
| "run_handler X now Shutdown_Handler s = (if \<not> io_alive s then Inl Use_After_Free else Inr (io_close s))"
| "run_handler X now Release s = (if \<not> io_alive s then Inl Double_Delete else Inr (s\<lparr>io_alive := False\<rparr>))"

text \<open>
  The events: the network ends the operation or the shutdown, the timer expires, or the thread runs
  the first ready handler.
\<close>

definition io_expire :: "'x client_io \<Rightarrow> 'x client_io" where
  "io_expire s = (if io_armed s then s\<lparr>io_armed := False, io_ready := io_ready s @ [Timer_Handler]\<rparr> else s)"

inductive io_step :: "'x exchange_ops \<Rightarrow> 'x client_io \<Rightarrow> 'x client_io \<Rightarrow> bool" for X where
  op_done: "io_op s \<Longrightarrow> io_step X s (s\<lparr>io_op := False, io_ready := io_ready s @ [Op_Handler ec bytes]\<rparr>)"
| expire: "io_armed s \<Longrightarrow> io_step X s (io_expire s)"
| shutdown_done: "io_shutdown s \<Longrightarrow> io_step X s (s\<lparr>io_shutdown := False, io_ready := io_ready s @ [Shutdown_Handler]\<rparr>)"
| run: "io_ready s = h # rest \<Longrightarrow> run_handler X now h (s\<lparr>io_ready := rest\<rparr>) = Inr s' \<Longrightarrow> io_step X s s'"

inductive_cases io_step_elim: "io_step X s s'"

text \<open>Running the ready handlers, at most \<open>n\<close> of them, the one with \<open>i\<close> to go at the time \<open>clock i\<close>.\<close>

fun io_drain :: "'x exchange_ops \<Rightarrow> (nat \<Rightarrow> nat) \<Rightarrow> nat \<Rightarrow> 'x client_io \<Rightarrow> io_fault + 'x client_io" where
  "io_drain X clock 0 s = Inr s"
| "io_drain X clock (Suc n) s = (case io_ready s of
     [] \<Rightarrow> Inr s
   | h # rest \<Rightarrow> (case run_handler X (clock n) h (s\<lparr>io_ready := rest\<rparr>) of
         Inl f \<Rightarrow> Inl f
       | Inr s' \<Rightarrow> io_drain X clock n s'))"

subsection \<open>The exchanges\<close>

definition tcp_ops :: "tcp_exchange exchange_ops" where
  "tcp_ops = \<lparr>xo_handler = tcp_handler, xo_fails = (\<lambda>ec now tx. is_timeout_or_error ec now (tx_begin tx) (tx_timeout tx)),
     xo_active = (\<lambda>tx. tx_phase tx \<noteq> None), xo_calls = (\<lambda>tx. length (tx_calls tx)), xo_tls = tx_tls\<rparr>"

definition udp_ops :: "udp_exchange exchange_ops" where
  "udp_ops = \<lparr>xo_handler = udp_handler, xo_fails = (\<lambda>ec now ux. is_timeout_or_error ec now (ux_begin ux) (ux_timeout ux)),
     xo_active = (\<lambda>ux. ux_phase ux \<noteq> None), xo_calls = (\<lambda>ux. length (ux_calls ux)), xo_tls = (\<lambda>ux. False)\<rparr>"

definition forward_ops :: "forward_exchange exchange_ops" where
  "forward_ops = \<lparr>xo_handler = (\<lambda>ec now bytes fx. Some (forward_handler ec now bytes fx)),
     xo_fails = (\<lambda>ec now fx. is_timeout_or_error ec now (fx_begin fx) (fx_timeout fx)),
     xo_active = (\<lambda>fx. fx_phase fx \<noteq> None), xo_calls = (\<lambda>fx. length (fx_calls fx)), xo_tls = (\<lambda>fx. False)\<rparr>"

section \<open>The contract of an exchange\<close>

text \<open>
  An error ends an active exchange with one call; otherwise a handler goes on without a call or ends
  with at most one. Whether it is a TLS exchange does not change.
\<close>

locale exchange =
  fixes X :: "'x exchange_ops"
  assumes fails_error: "ec \<noteq> None \<Longrightarrow> xo_fails X ec now ex"
    and error_ends: "xo_active X ex \<Longrightarrow> xo_fails X ec now ex \<Longrightarrow>
      \<exists>ex'. xo_handler X ec now bytes ex = Some ex' \<and> \<not> xo_active X ex' \<and> xo_calls X ex' = Suc (xo_calls X ex)"
    and goes_on: "xo_active X ex \<Longrightarrow> xo_handler X ec now bytes ex = Some ex' \<Longrightarrow>
      xo_calls X ex' = xo_calls X ex \<or> \<not> xo_active X ex' \<and> xo_calls X ex' = Suc (xo_calls X ex)"
    and same_tls: "xo_handler X ec now bytes ex = Some ex' \<Longrightarrow> xo_tls X ex' = xo_tls X ex"

text \<open>The exchanges that report every end.\<close>

locale reporting_exchange = exchange X for X :: "'x exchange_ops" +
  assumes end_calls: "xo_active X ex \<Longrightarrow> xo_handler X ec now bytes ex = Some ex' \<Longrightarrow> \<not> xo_active X ex' \<Longrightarrow>
      xo_calls X ex' = Suc (xo_calls X ex)"

section \<open>Safety\<close>

text \<open>
  While the exchange is active there is one operation, outstanding or ready. Exactly one thing leads to
  the release: the timer, its handler, the shutdown, its handler, the posted release, or it has
  happened. Behind a release, or after it, only failed operations are ready.
\<close>

definition is_op :: "ready \<Rightarrow> bool" where
  "is_op h \<longleftrightarrow> (case h of Op_Handler ec bytes \<Rightarrow> True | _ \<Rightarrow> False)"

definition ready_ops :: "ready list \<Rightarrow> nat" where
  "ready_ops hs = length (filter is_op hs)"

definition ready_tokens :: "ready list \<Rightarrow> nat" where
  "ready_tokens hs = length (filter (\<lambda>h. \<not> is_op h) hs)"

definition release_tokens :: "'x client_io \<Rightarrow> nat" where
  "release_tokens s = of_bool (io_armed s) + of_bool (io_shutdown s) + of_bool (\<not> io_alive s)
     + ready_tokens (io_ready s)"

fun late_errors :: "bool \<Rightarrow> ready list \<Rightarrow> bool" where
  "late_errors late [] \<longleftrightarrow> True"
| "late_errors late (Op_Handler ec bytes # hs) \<longleftrightarrow> (late \<longrightarrow> ec \<noteq> None) \<and> late_errors late hs"
| "late_errors late (Release # hs) \<longleftrightarrow> late_errors True hs"
| "late_errors late (h # hs) \<longleftrightarrow> late_errors late hs"

definition io_inv :: "'x exchange_ops \<Rightarrow> 'x client_io \<Rightarrow> bool" where
  "io_inv X s \<longleftrightarrow>
     of_bool (io_op s) + ready_ops (io_ready s) = (of_bool (xo_active X (io_ex s)) :: nat)
     \<and> release_tokens s = 1
     \<and> (io_open s \<longleftrightarrow> io_alive s \<and> Release \<notin> set (io_ready s)) \<and> (io_op s \<longrightarrow> io_open s)
     \<and> late_errors (\<not> io_alive s) (io_ready s)
     \<and> (io_timer s \<longleftrightarrow> xo_calls X (io_ex s) = 0) \<and> xo_calls X (io_ex s) \<le> 1
     \<and> (xo_active X (io_ex s) \<longrightarrow> xo_calls X (io_ex s) = 0) \<and> (\<not> io_timer s \<longrightarrow> \<not> io_armed s)
     \<and> (\<not> xo_tls X (io_ex s) \<longrightarrow> \<not> io_shutdown s \<and> Shutdown_Handler \<notin> set (io_ready s))"

lemma is_op_simps [simp]: "is_op (Op_Handler ec bytes)" "\<not> is_op Timer_Handler" "\<not> is_op Shutdown_Handler" "\<not> is_op Release"
  by (simp_all add: is_op_def)

lemma ready_ops_simps [simp]:
  "ready_ops [] = 0" "ready_ops (h # hs) = of_bool (is_op h) + ready_ops hs" "ready_ops (xs @ ys) = ready_ops xs + ready_ops ys"
  by (simp_all add: ready_ops_def)

lemma ready_tokens_simps [simp]:
  "ready_tokens [] = 0" "ready_tokens (h # hs) = of_bool (\<not> is_op h) + ready_tokens hs"
  "ready_tokens (xs @ ys) = ready_tokens xs + ready_tokens ys"
  by (simp_all add: ready_tokens_def)

lemma no_tokens: "ready_tokens hs = 0 \<Longrightarrow> \<not> is_op h \<Longrightarrow> h \<notin> set hs"
  by (auto simp: ready_tokens_def filter_empty_conv)

lemma no_tokens_simps [simp]:
  "ready_tokens hs = 0 \<Longrightarrow> Timer_Handler \<notin> set hs" "ready_tokens hs = 0 \<Longrightarrow> Shutdown_Handler \<notin> set hs"
  "ready_tokens hs = 0 \<Longrightarrow> Release \<notin> set hs"
  by (simp_all add: no_tokens)

lemma late_errors_append [simp]:
  "late_errors late (xs @ ys) \<longleftrightarrow> late_errors late xs \<and> late_errors (late \<or> Release \<in> set xs) ys"
  by (induction late xs rule: late_errors.induct) auto

lemma late_errors_mono: "late_errors True hs \<Longrightarrow> late_errors late hs"
  by (induction late hs rule: late_errors.induct) auto

lemmas io_defs = io_inv_def release_tokens_def of_bool_def

context exchange
begin

lemma inv_start: "xo_active X ex \<Longrightarrow> xo_calls X ex = 0 \<Longrightarrow> io_inv X (io_start ex)"
  by (simp add: io_defs io_start_def)

lemma inv_op_done:
  "io_inv X s \<Longrightarrow> io_op s \<Longrightarrow> io_inv X (s\<lparr>io_op := False, io_ready := io_ready s @ [Op_Handler ec bytes]\<rparr>)"
  by (auto simp: io_defs split: if_splits)

lemma inv_expire: "io_inv X s \<Longrightarrow> io_inv X (io_expire s)"
  by (auto simp: io_defs io_expire_def split: if_splits)

lemma inv_shutdown_done:
  "io_inv X s \<Longrightarrow> io_shutdown s \<Longrightarrow> io_inv X (s\<lparr>io_shutdown := False, io_ready := io_ready s @ [Shutdown_Handler]\<rparr>)"
  by (auto simp: io_defs split: if_splits)

text \<open>A ready operation is the only one, and the exchange is active and has not called.\<close>

lemma ready_op:
  assumes "io_inv X s" and "io_ready s = Op_Handler ec bytes # rest"
  shows "xo_active X (io_ex s)" "\<not> io_op s" "ready_ops rest = 0" "xo_calls X (io_ex s) = 0" "io_timer s"
    "\<not> io_alive s \<Longrightarrow> ec \<noteq> None"
  using assms by (auto simp: io_defs split: if_splits)

lemma run_op:
  assumes inv: "io_inv X s" and r: "io_ready s = Op_Handler ec bytes # rest"
    and "run_handler X now (Op_Handler ec bytes) (s\<lparr>io_ready := rest\<rparr>) = res"
  shows "res = Inl Handler_Fault \<or> (\<exists>s'. res = Inr s' \<and> io_inv X s')"
proof -
  note op = ready_op [OF inv r]
  have alive: "xo_fails X ec now (io_ex s) \<or> io_alive s" using fails_error op(6) by blast
  show ?thesis
  proof (cases "xo_handler X ec now bytes (io_ex s)")
    case None
    with assms(3) alive show ?thesis by auto
  next
    case (Some ex)
    have tls: "xo_tls X ex = xo_tls X (io_ex s)" using same_tls [OF Some] .
    consider (called) "\<not> xo_active X ex" "xo_calls X ex = 1" | (silent) "xo_calls X ex = 0"
      using goes_on [OF op(1) Some] op(4) by auto
    then show ?thesis
    proof cases
      case called
      let ?s = "s\<lparr>io_ready := rest, io_ex := ex\<rparr>"
      from called assms(3) alive Some op(4) have "res = io_complete ?s" by (auto simp: Let_def)
      moreover have "io_complete ?s = Inr (?s\<lparr>io_timer := False, io_armed := False,
          io_ready := rest @ (if io_armed s then [Timer_Handler] else [])\<rparr>)" using op(5) by (simp add: io_complete_def)
      moreover have "io_inv X (?s\<lparr>io_timer := False, io_armed := False,
          io_ready := rest @ (if io_armed s then [Timer_Handler] else [])\<rparr>)"
        using inv r op tls called by (cases "io_armed s") (simp_all add: io_defs)
      ultimately show ?thesis by simp
    next
      case silent
      with assms(3) alive Some op(4) have "res = Inr (if xo_active X ex then io_start_op (s\<lparr>io_ready := rest, io_ex := ex\<rparr>)
          else s\<lparr>io_ready := rest, io_ex := ex\<rparr>)" by (auto simp: Let_def)
      moreover have "io_inv X (s\<lparr>io_ready := rest, io_ex := ex\<rparr>)" if "\<not> xo_active X ex"
        using inv r op tls silent that by (simp add: io_defs)
      moreover have "io_inv X (io_start_op (s\<lparr>io_ready := rest, io_ex := ex\<rparr>))" if "xo_active X ex"
        using inv r op tls silent that by (cases "io_open s") (auto simp: io_defs io_start_op_def split: if_splits)
      ultimately show ?thesis by simp
    qed
  qed
qed

lemma inv_close:
  assumes "io_inv X (s\<lparr>io_ready := h # io_ready s\<rparr>)" and "h = Timer_Handler \<or> h = Shutdown_Handler"
  shows "io_inv X (io_close s)"
  using assms by (auto simp: io_defs io_close_def split: if_splits)

lemma run_handler_safe:
  assumes inv: "io_inv X s" and r: "io_ready s = h # rest"
  shows "run_handler X now h (s\<lparr>io_ready := rest\<rparr>) = Inl Handler_Fault
    \<or> (\<exists>s'. run_handler X now h (s\<lparr>io_ready := rest\<rparr>) = Inr s' \<and> io_inv X s')"
proof -
  have same: "s\<lparr>io_ready := h # rest\<rparr> = s" using r by (cases s) simp
  show ?thesis
  proof (cases h)
  case (Op_Handler ec bytes)
  with run_op [OF inv] r show ?thesis by blast
next
  case Timer_Handler
  have "io_alive s" using inv r Timer_Handler by (simp add: io_defs split: if_splits)
  moreover have "io_inv X (io_close (s\<lparr>io_ready := rest\<rparr>))"
    by (rule inv_close [where h = Timer_Handler]) (use inv same Timer_Handler in simp_all)
  moreover have "io_inv X (s\<lparr>io_ready := rest, io_shutdown := True\<rparr>)" if "xo_tls X (io_ex s)"
    using inv r Timer_Handler that by (auto simp: io_defs split: if_splits)
  ultimately show ?thesis using Timer_Handler by simp
next
  case Shutdown_Handler
  have "io_alive s" using inv r Shutdown_Handler by (simp add: io_defs split: if_splits)
  moreover have "io_inv X (io_close (s\<lparr>io_ready := rest\<rparr>))"
    by (rule inv_close [where h = Shutdown_Handler]) (use inv same Shutdown_Handler in simp_all)
  ultimately show ?thesis using Shutdown_Handler by simp
next
  case Release
  have "io_alive s" using inv r Release by (simp add: io_defs split: if_splits)
  moreover have "io_inv X (s\<lparr>io_ready := rest, io_alive := False\<rparr>)"
    using inv r Release by (auto simp: io_defs split: if_splits)
  ultimately show ?thesis using Release by simp
  qed
qed

lemma inv_step: "io_step X s s' \<Longrightarrow> io_inv X s \<Longrightarrow> io_inv X s'"
proof (induction rule: io_step.induct)
  case (run s h rest now s')
  with run_handler_safe [of s h rest now] show ?case by auto
qed (auto intro: inv_op_done inv_expire inv_shutdown_done)

end

sublocale exchange < io: state_machine "io_step X" "io_inv X"
  by unfold_locales (rule inv_step)

lemma run_ex:
  "run_handler X now h s = Inr s' \<Longrightarrow>
     io_ex s' = io_ex s \<or> (\<exists>ec bytes. h = Op_Handler ec bytes \<and> xo_handler X ec now bytes (io_ex s) = Some (io_ex s'))"
  by (cases h) (auto simp: io_close_def io_complete_def io_start_op_def Let_def split: if_splits option.splits)

section \<open>Timeouts\<close>

text \<open>What is left to run once the timer is not waiting any more.\<close>

fun handler_weight :: "ready \<Rightarrow> nat" where
  "handler_weight (Op_Handler ec bytes) = (if ec = None then 3 else 1)"
| "handler_weight Timer_Handler = 2"
| "handler_weight Shutdown_Handler = 2"
| "handler_weight Release = 1"

definition io_weight :: "'x client_io \<Rightarrow> nat" where
  "io_weight s = (if io_op s then 2 else 0) + sum_list (map handler_weight (io_ready s))"

lemma handler_weight_nonzero [simp]: "handler_weight h \<noteq> 0"
  by (cases h) simp_all

context exchange
begin

text \<open>Whether an exchange runs over TLS never changes.\<close>

lemma plain_stays: "(io_step X)\<^sup>*\<^sup>* s s' \<Longrightarrow> xo_tls X (io_ex s') = xo_tls X (io_ex s)"
proof (induction rule: rtranclp_induct)
  case (step s1 s2)
  have "xo_tls X (io_ex s2) = xo_tls X (io_ex s1)"
    using step(2) by (cases rule: io_step.cases) (auto simp: io_expire_def dest!: run_ex same_tls)
  with step show ?case by simp
qed simp

lemma weight_decreases:
  assumes inv: "io_inv X s" and r: "io_ready s = h # rest" and armed: "\<not> io_armed s" and plain: "\<not> xo_tls X (io_ex s)"
    and run: "run_handler X now h (s\<lparr>io_ready := rest\<rparr>) = Inr s'"
  shows "io_weight s' < io_weight s \<and> \<not> io_armed s' \<and> \<not> xo_tls X (io_ex s')"
proof (cases h)
  case (Op_Handler ec bytes)
  note op = ready_op [OF inv r [unfolded Op_Handler]]
  from run Op_Handler obtain ex where ex: "xo_handler X ec now bytes (io_ex s) = Some ex"
    by (auto split: if_splits option.splits)
  have tls: "\<not> xo_tls X ex" using same_tls [OF ex] plain by simp
  have go_on: "ec = None" if "xo_active X ex"
    using error_ends [OF op(1) fails_error, of ec now bytes] that ex by (cases ec) auto
  from run Op_Handler ex have "s' = io_start_op (s\<lparr>io_ready := rest, io_ex := ex\<rparr>) \<and> xo_active X ex
      \<or> s' = s\<lparr>io_ready := rest, io_ex := ex\<rparr> \<or> io_complete (s\<lparr>io_ready := rest, io_ex := ex\<rparr>) = Inr s'"
    by (auto simp: Let_def split: if_splits)
  with r Op_Handler armed tls op(2) go_on show ?thesis
    by (auto simp: io_weight_def io_start_op_def io_complete_def split: if_splits)
next
  case Timer_Handler
  with run r armed plain show ?thesis by (auto simp: io_weight_def io_close_def split: if_splits)
next
  case Shutdown_Handler
  with inv r plain show ?thesis by (simp add: io_inv_def)
next
  case Release
  with run r armed plain show ?thesis by (auto simp: io_weight_def split: if_splits)
qed

text \<open>A state in which nothing is ready and no timer waits has released everything.\<close>

lemma drained_state:
  assumes "io_inv X s" and "io_ready s = []" and "\<not> io_armed s" and "\<not> xo_tls X (io_ex s)"
  shows "\<not> io_alive s \<and> \<not> io_op s \<and> \<not> xo_active X (io_ex s)"
  using assms by (auto simp: io_defs split: if_splits)

lemma drain_ends:
  assumes "io_inv X s" and "\<not> io_armed s" and "\<not> xo_tls X (io_ex s)" and "io_weight s \<le> n"
  shows "case io_drain X clock n s of
      Inl f \<Rightarrow> f = Handler_Fault
    | Inr s' \<Rightarrow> io_inv X s' \<and> io_ready s' = [] \<and> \<not> io_alive s' \<and> \<not> xo_active X (io_ex s')"
  using assms
proof (induction n arbitrary: s)
  case 0
  then have "io_ready s = []" by (cases "io_ready s") (auto simp: io_weight_def)
  with 0 drained_state [of s] show ?case by simp
next
  case (Suc n)
  show ?case
  proof (cases "io_ready s")
    case Nil
    with Suc.prems drained_state [of s] show ?thesis by simp
  next
    case (Cons h rest)
    let ?r = "run_handler X (clock n) h (s\<lparr>io_ready := rest\<rparr>)"
    consider "?r = Inl Handler_Fault" | s' where "?r = Inr s'" "io_inv X s'"
      using run_handler_safe [OF Suc.prems(1) Cons] by blast
    then show ?thesis
    proof cases
      case 1
      with Cons show ?thesis by simp
    next
      case 2
      note dec = weight_decreases [OF Suc.prems(1) Cons Suc.prems(2,3) 2(1)]
      then have "io_weight s' \<le> n" using Suc.prems(4) by simp
      with Suc.IH [OF 2(2)] dec Cons 2(1) show ?thesis by simp
    qed
  qed
qed

text \<open>Whatever has happened, once the timer has expired the ready handlers bring the exchange to its end.\<close>

lemma weight_bound: "io_inv X s \<Longrightarrow> io_weight s \<le> 5"
proof -
  assume inv: "io_inv X s"
  have "sum_list (map handler_weight hs) \<le> 3 * ready_ops hs + 2 * ready_tokens hs" for hs
    by (induction hs) (auto split: ready.splits simp: is_op_def elim: handler_weight.elims)
  from this [of "io_ready s"] inv show ?thesis
    by (auto simp: io_defs io_weight_def split: if_splits)
qed

lemma timeout_ends:
  assumes "io_inv X s" and "\<not> xo_tls X (io_ex s)"
  shows "case io_drain X clock 5 (io_expire s) of
      Inl f \<Rightarrow> f = Handler_Fault
    | Inr s' \<Rightarrow> io_inv X s' \<and> io_ready s' = [] \<and> \<not> io_alive s' \<and> \<not> xo_active X (io_ex s')"
proof -
  have "io_inv X (io_expire s)" using assms(1) by (rule inv_expire)
  moreover have "\<not> io_armed (io_expire s)" "\<not> xo_tls X (io_ex (io_expire s))" using assms(2) by (simp_all add: io_expire_def)
  ultimately show ?thesis using weight_bound by (intro drain_ends)
qed

end

text \<open>A run of the ready handlers is a run of the exchange.\<close>

lemma drain_steps: "io_drain X clock n s = Inr s' \<Longrightarrow> (io_step X)\<^sup>*\<^sup>* s s'"
proof (induction n arbitrary: s)
  case (Suc n)
  show ?case
  proof (cases "io_ready s")
    case Nil
    with Suc.prems show ?thesis by simp
  next
    case (Cons h rest)
    with Suc.prems obtain s1 where run: "run_handler X (clock n) h (s\<lparr>io_ready := rest\<rparr>) = Inr s1"
      and rest: "io_drain X clock n s1 = Inr s'" by (auto split: sum.splits)
    from io_step.run [OF Cons run] Suc.IH [OF rest] show ?thesis by (rule converse_rtranclp_into_rtranclp)
  qed
qed simp

lemma expire_steps: "(io_step X)\<^sup>*\<^sup>* s (io_expire s)"
proof (cases "io_armed s")
  case True
  then show ?thesis by (intro r_into_rtranclp io_step.expire)
next
  case False
  then show ?thesis by (simp add: io_expire_def)
qed

definition io_reported :: "'x exchange_ops \<Rightarrow> 'x client_io \<Rightarrow> bool" where
  "io_reported X s \<longleftrightarrow> io_inv X s \<and> (\<not> xo_active X (io_ex s) \<longrightarrow> xo_calls X (io_ex s) = 1)"

context reporting_exchange
begin

lemma reported_step: "io_step X s s' \<Longrightarrow> io_reported X s \<Longrightarrow> io_reported X s'"
proof (induction rule: io_step.induct)
  case (run s h rest now s')
  then have inv: "io_inv X s" "io_inv X s'" using inv_step io_step.run [OF run(1,2)] by (auto simp: io_reported_def)
  from run_ex [OF run(2)] show ?case
  proof (elim disjE exE conjE)
    assume "io_ex s' = io_ex (s\<lparr>io_ready := rest\<rparr>)"
    with run(3) inv show ?thesis by (simp add: io_reported_def)
  next
    fix ec bytes
    assume h: "h = Op_Handler ec bytes" and x: "xo_handler X ec now bytes (io_ex (s\<lparr>io_ready := rest\<rparr>)) = Some (io_ex s')"
    from ready_op(1,4) [OF inv(1) run(1) [unfolded h]] x end_calls [of "io_ex s" ec now bytes "io_ex s'"] inv(2)
    show ?thesis by (auto simp: io_reported_def)
  qed
qed (auto simp: io_reported_def io_expire_def inv_op_done inv_shutdown_done dest: inv_expire)

end

sublocale reporting_exchange < reported: state_machine "io_step X" "io_reported X"
  by unfold_locales (rule reported_step)

context reporting_exchange
begin

lemma timeout_reports:
  assumes "xo_active X ex" and "xo_calls X ex = 0" and "(io_step X)\<^sup>*\<^sup>* (io_start ex) s" and "\<not> xo_tls X (io_ex s)"
  shows "case io_drain X clock 5 (io_expire s) of
      Inl f \<Rightarrow> f = Handler_Fault
    | Inr s' \<Rightarrow> io_ready s' = [] \<and> \<not> io_alive s' \<and> \<not> io_timer s' \<and> xo_calls X (io_ex s') = 1"
proof -
  have start: "io_reported X (io_start ex)" using inv_start assms(1,2) by (simp add: io_reported_def io_start_def)
  have s: "io_inv X s" using reported.reachable [OF assms(3) start] by (simp add: io_reported_def)
  note ends = timeout_ends [OF s assms(4), of clock]
  show ?thesis
  proof (cases "io_drain X clock 5 (io_expire s)")
    case (Inl f)
    with ends show ?thesis by simp
  next
    case (Inr s')
    have "(io_step X)\<^sup>*\<^sup>* (io_start ex) s'"
      using assms(3) expire_steps drain_steps [OF Inr] by (blast intro: rtranclp_trans)
    then have "io_reported X s'" using start by (rule reported.reachable)
    with ends Inr show ?thesis by (auto simp: io_reported_def io_inv_def)
  qed
qed

end

section \<open>The exchanges of the client\<close>

interpretation tcp: reporting_exchange tcp_ops
proof
  fix ec now and ex :: tcp_exchange and bytes
  show "ec \<noteq> None \<Longrightarrow> xo_fails tcp_ops ec now ex" by (simp add: tcp_ops_def is_timeout_or_error_def Let_def)
  show "xo_active tcp_ops ex \<Longrightarrow> xo_fails tcp_ops ec now ex \<Longrightarrow>
      \<exists>ex'. xo_handler tcp_ops ec now bytes ex = Some ex' \<and> \<not> xo_active tcp_ops ex' \<and> xo_calls tcp_ops ex' = Suc (xo_calls tcp_ops ex)"
    by (auto simp: tcp_ops_def tcp_handler_def tcp_complete_def)
  fix ex'
  assume h: "xo_handler tcp_ops ec now bytes ex = Some ex'"
  then show "xo_tls tcp_ops ex' = xo_tls tcp_ops ex"
    by (auto simp: tcp_ops_def tcp_handler_def tcp_complete_def tcp_send_def Let_def bind_eq_Some_conv
        split: option.splits if_splits tcp_phase.splits)
  have one: "tx_phase ex' \<noteq> None \<and> length (tx_calls ex') = length (tx_calls ex)
      \<or> tx_phase ex' = None \<and> length (tx_calls ex') = Suc (length (tx_calls ex))" if "tx_phase ex \<noteq> None"
    using h that by (auto simp: tcp_ops_def tcp_handler_def tcp_complete_def tcp_send_def Let_def bind_eq_Some_conv
        split: option.splits if_splits tcp_phase.splits)
  then show "xo_active tcp_ops ex \<Longrightarrow>
      xo_calls tcp_ops ex' = xo_calls tcp_ops ex \<or> \<not> xo_active tcp_ops ex' \<and> xo_calls tcp_ops ex' = Suc (xo_calls tcp_ops ex)"
    "xo_active tcp_ops ex \<Longrightarrow> \<not> xo_active tcp_ops ex' \<Longrightarrow> xo_calls tcp_ops ex' = Suc (xo_calls tcp_ops ex)"
    by (auto simp: tcp_ops_def)
qed

interpretation udp: reporting_exchange udp_ops
proof
  fix ec now and ex :: udp_exchange and bytes
  show "ec \<noteq> None \<Longrightarrow> xo_fails udp_ops ec now ex" by (simp add: udp_ops_def is_timeout_or_error_def Let_def)
  show "xo_active udp_ops ex \<Longrightarrow> xo_fails udp_ops ec now ex \<Longrightarrow>
      \<exists>ex'. xo_handler udp_ops ec now bytes ex = Some ex' \<and> \<not> xo_active udp_ops ex' \<and> xo_calls udp_ops ex' = Suc (xo_calls udp_ops ex)"
    by (auto simp: udp_ops_def udp_handler_def udp_complete_def)
  fix ex'
  assume h: "xo_handler udp_ops ec now bytes ex = Some ex'"
  show "xo_tls udp_ops ex' = xo_tls udp_ops ex" by (simp add: udp_ops_def)
  have one: "ux_phase ex' \<noteq> None \<and> length (ux_calls ex') = length (ux_calls ex)
      \<or> ux_phase ex' = None \<and> length (ux_calls ex') = Suc (length (ux_calls ex))" if "ux_phase ex \<noteq> None"
    using h that by (auto simp: udp_ops_def udp_handler_def udp_complete_def Let_def bind_eq_Some_conv
        split: option.splits if_splits udp_phase.splits)
  then show "xo_active udp_ops ex \<Longrightarrow>
      xo_calls udp_ops ex' = xo_calls udp_ops ex \<or> \<not> xo_active udp_ops ex' \<and> xo_calls udp_ops ex' = Suc (xo_calls udp_ops ex)"
    "xo_active udp_ops ex \<Longrightarrow> \<not> xo_active udp_ops ex' \<Longrightarrow> xo_calls udp_ops ex' = Suc (xo_calls udp_ops ex)"
    by (auto simp: udp_ops_def)
qed

text \<open>A forwarded request keeps the contract but not the promise to report: see \<open>forward_udp_calls\<close>.\<close>

interpretation forward: exchange forward_ops
  by unfold_locales
     (auto simp: forward_ops_def is_timeout_or_error_def forward_handler_def forward_complete_def Let_def
        split: option.splits if_splits udp_phase.splits)

section \<open>Properties\<close>

lemma sample_tcp_start: "\<exists>tx. tcp_start tls ''a.b'' 100 0 7 = Some (tx, 8)"
proof -
  have "query_fits [''a.b'']" by (simp add: query_fits_def wf_host_def wf_label_def)
  from tcp_start_correct [OF this, of tls 100 0 7] show ?thesis by auto
qed

text \<open>
  C18. No exchange over TCP or TLS uses or deletes memory that is gone, whatever the network and the timer
  do: in every reachable state the next handler does not touch a released socket or buffer and deletes
  nothing twice, and the caller's handler has run at most once. (A handler may still fault inside the
  parser.)
\<close>

theorem exchange_memory_safe:
  assumes "tcp_start tls dn timeout begin gen = Some (tx, gen')" and "(io_step tcp_ops)\<^sup>*\<^sup>* (io_start tx) s"
  shows "(\<forall>h rest now f. io_ready s = h # rest \<and> run_handler tcp_ops now h (s\<lparr>io_ready := rest\<rparr>) = Inl f \<longrightarrow> f = Handler_Fault)
    \<and> length (tx_calls (io_ex s)) \<le> 1 \<and> (io_alive s \<or> \<not> io_op s)"
proof -
  have "xo_active tcp_ops tx" "xo_calls tcp_ops tx = 0" using assms(1) by (auto simp: tcp_start_def tcp_ops_def bind_eq_Some_conv)
  then have inv: "io_inv tcp_ops s" using assms(2) by (blast intro: tcp.io.reachable tcp.inv_start)
  then have "length (tx_calls (io_ex s)) \<le> 1" "io_alive s \<or> \<not> io_op s" by (auto simp: io_inv_def tcp_ops_def)
  moreover have "f = Handler_Fault" if "io_ready s = h # rest" and "run_handler tcp_ops now h (s\<lparr>io_ready := rest\<rparr>) = Inl f"
    for h rest now f
    using tcp.run_handler_safe [OF inv that(1), of now] that(2) by auto
  ultimately show ?thesis by blast
qed

theorem exchange_memory_safe_witness:
  "\<exists>tx s. tcp_start True ''a.b'' 100 0 7 = Some (tx, 8) \<and> (io_step tcp_ops)\<^sup>*\<^sup>* (io_start tx) s
     \<and> io_ready s = [Op_Handler None [], Timer_Handler] \<and> length (tx_calls (io_ex s)) \<le> 1
     \<and> (\<forall>f. run_handler tcp_ops 5 (Op_Handler None []) (s\<lparr>io_ready := [Timer_Handler]\<rparr>) = Inl f \<longrightarrow> f = Handler_Fault)"
proof -
  obtain tx where tx: "tcp_start True ''a.b'' 100 0 7 = Some (tx, 8)" using sample_tcp_start by blast
  define s where "s = io_expire ((io_start tx)\<lparr>io_op := False, io_ready := io_ready (io_start tx) @ [Op_Handler None []]\<rparr>)"
  have "io_step tcp_ops (io_start tx) ((io_start tx)\<lparr>io_op := False, io_ready := io_ready (io_start tx) @ [Op_Handler None []]\<rparr>)"
    by (rule io_step.op_done) (simp add: io_start_def)
  then have run: "(io_step tcp_ops)\<^sup>*\<^sup>* (io_start tx) s"
    unfolding s_def by (rule converse_rtranclp_into_rtranclp) (rule expire_steps)
  have "io_ready s = [Op_Handler None [], Timer_Handler]" by (simp add: s_def io_expire_def io_start_def)
  with tx run exchange_memory_safe [OF tx run] show ?thesis by blast
qed

text \<open>
  C19. A timeout ends an exchange over TCP: in whatever state it is when its timer has expired, five further
  handlers are enough to call the caller's handler once, to delete the timer and to release the socket
  and the buffers, and nothing is left to run.
\<close>

theorem tcp_timeout_completes:
  assumes "tcp_start False dn timeout begin gen = Some (tx, gen')" and "(io_step tcp_ops)\<^sup>*\<^sup>* (io_start tx) s"
  shows "case io_drain tcp_ops clock 5 (io_expire s) of
      Inl f \<Rightarrow> f = Handler_Fault
    | Inr s' \<Rightarrow> io_ready s' = [] \<and> \<not> io_alive s' \<and> \<not> io_timer s' \<and> length (tx_calls (io_ex s')) = 1"
proof -
  have tx: "xo_active tcp_ops tx" "xo_calls tcp_ops tx = 0" "\<not> xo_tls tcp_ops tx"
    using assms(1) by (auto simp: tcp_start_def tcp_ops_def bind_eq_Some_conv)
  have "\<not> xo_tls tcp_ops (io_ex s)" using tcp.plain_stays [OF assms(2)] tx(3) by (simp add: io_start_def)
  from tcp.timeout_reports [OF tx(1,2) assms(2) this, of clock] show ?thesis by (simp add: tcp_ops_def split: sum.splits)
qed

theorem tcp_timeout_completes_witness:
  "\<exists>tx s. tcp_start False ''a.b'' 100 0 7 = Some (tx, 8) \<and> io_ready s = [Op_Handler None []]
     \<and> (case io_drain tcp_ops (\<lambda>i. 200) 5 (io_expire s) of
          Inl f \<Rightarrow> f = Handler_Fault
        | Inr s' \<Rightarrow> io_ready s' = [] \<and> \<not> io_alive s' \<and> \<not> io_timer s' \<and> length (tx_calls (io_ex s')) = 1)"
proof -
  obtain tx where tx: "tcp_start False ''a.b'' 100 0 7 = Some (tx, 8)" using sample_tcp_start by blast
  define s where "s = (io_start tx)\<lparr>io_op := False, io_ready := io_ready (io_start tx) @ [Op_Handler None []]\<rparr>"
  have "io_step tcp_ops (io_start tx) s" unfolding s_def by (rule io_step.op_done) (simp add: io_start_def)
  moreover have "io_ready s = [Op_Handler None []]" by (simp add: s_def io_start_def)
  ultimately show ?thesis using tx tcp_timeout_completes [OF tx r_into_rtranclp] by blast
qed

text \<open>
  The same for an exchange over UDP.
\<close>

theorem udp_timeout_completes:
  assumes "udp_dns dn timeout begin gen = Some (ux, req, gen')" and "(io_step udp_ops)\<^sup>*\<^sup>* (io_start ux) s"
  shows "case io_drain udp_ops clock 5 (io_expire s) of
      Inl f \<Rightarrow> f = Handler_Fault
    | Inr s' \<Rightarrow> io_ready s' = [] \<and> \<not> io_alive s' \<and> \<not> io_timer s' \<and> length (ux_calls (io_ex s')) = 1"
proof -
  have ux: "xo_active udp_ops ux" "xo_calls udp_ops ux = 0" "\<not> xo_tls udp_ops (io_ex s)"
    using assms(1) by (auto simp: udp_dns_def udp_ops_def bind_eq_Some_conv)
  from udp.timeout_reports [OF ux(1,2) assms(2) ux(3), of clock] show ?thesis by (simp add: udp_ops_def split: sum.splits)
qed

text \<open>A forwarded request releases its socket, whether it has called back or not.\<close>

theorem forward_timeout_releases:
  assumes "(io_step forward_ops)\<^sup>*\<^sup>* (io_start (forward_udp timeout begin)) s"
  shows "\<exists>s'. io_drain forward_ops clock 5 (io_expire s) = Inr s' \<and> io_ready s' = [] \<and> \<not> io_alive s'"
proof -
  have start: "xo_active forward_ops (forward_udp timeout begin)" "xo_calls forward_ops (forward_udp timeout begin) = 0"
    by (simp_all add: forward_ops_def forward_udp_def)
  have inv: "io_inv forward_ops s" using assms start by (blast intro: forward.io.reachable forward.inv_start)
  have no_fault: "io_drain forward_ops clock n r \<noteq> Inl Handler_Fault" for n r
  proof (induction n arbitrary: r)
    case (Suc n)
    have "run_handler forward_ops now h u \<noteq> Inl Handler_Fault" for now h u
      by (cases h) (auto simp: forward_ops_def io_complete_def Let_def)
    with Suc show ?case by (auto split: list.splits sum.splits)
  qed simp
  from forward.timeout_ends [OF inv, of clock] no_fault [of 5 "io_expire s"] show ?thesis
    by (cases "io_drain forward_ops clock 5 (io_expire s)") (auto simp: forward_ops_def)
qed

text \<open>
  A TLS exchange has no such bound. When its timer expires while an operation is outstanding, the
  handler of the timer only starts a shutdown, which waits for the peer: no handler is ready, no timer
  is left, the caller's handler has not run, and only an answer of the network can change that. With a
  server that accepts a connection and then says nothing, the exchange never ends.
\<close>

theorem tls_timeout_waits_for_peer:
  assumes "tcp_start True dn timeout begin gen = Some (tx, gen')" and "(io_step tcp_ops)\<^sup>*\<^sup>* (io_start tx) s"
    and "io_op s" and "io_armed s" and "io_ready s = []" and "0 < n"
  shows "\<exists>s'. io_drain tcp_ops clock n (io_expire s) = Inr s' \<and> io_ready s' = [] \<and> \<not> io_armed s' \<and> io_alive s'
    \<and> tx_calls (io_ex s') = [] \<and> (\<forall>s''. io_step tcp_ops s' s'' \<longrightarrow> \<not> io_op s'' \<or> \<not> io_shutdown s'')"
proof -
  have tx: "xo_active tcp_ops tx" "xo_calls tcp_ops tx = 0" "xo_tls tcp_ops tx"
    using assms(1) by (auto simp: tcp_start_def tcp_ops_def bind_eq_Some_conv)
  have inv: "io_inv tcp_ops s" using assms(2) tx by (blast intro: tcp.io.reachable tcp.inv_start)
  have tls: "tx_tls (io_ex s)" using tcp.plain_stays [OF assms(2)] tx(3) by (simp add: io_start_def tcp_ops_def)
  have calls: "tx_calls (io_ex s) = []" and alive: "io_alive s"
    using inv assms(3,4) by (auto simp: io_inv_def tcp_ops_def split: if_splits)
  let ?s' = "s\<lparr>io_armed := False, io_ready := [], io_shutdown := True\<rparr>"
  obtain k where n: "n = Suc k" using assms(6) by (cases n) auto
  have drain: "io_drain tcp_ops clock n (io_expire s) = Inr ?s'"
    using assms(4,5) alive tls by (cases k) (simp_all add: n io_expire_def tcp_ops_def)
  have net: "\<not> io_op s'' \<or> \<not> io_shutdown s''" if "io_step tcp_ops ?s' s''" for s''
    using that by (auto elim!: io_step_elim)
  show ?thesis
  proof (intro exI [of _ ?s'] conjI allI impI)
    show "\<not> io_op s'' \<or> \<not> io_shutdown s''" if "io_step tcp_ops ?s' s''" for s''
      using net [OF that] .
  qed (use drain calls alive in simp_all)
qed

theorem tls_timeout_waits_for_peer_witness:
  "\<exists>tx s'. tcp_start True ''a.b'' 100 0 7 = Some (tx, 8) \<and> io_drain tcp_ops (\<lambda>i. 200) 9 (io_expire (io_start tx)) = Inr s'
     \<and> io_ready s' = [] \<and> \<not> io_armed s' \<and> io_alive s' \<and> tx_calls (io_ex s') = []"
proof -
  obtain tx where tx: "tcp_start True ''a.b'' 100 0 7 = Some (tx, 8)" using sample_tcp_start by blast
  have "io_op (io_start tx)" "io_armed (io_start tx)" "io_ready (io_start tx) = []" by (simp_all add: io_start_def)
  from tls_timeout_waits_for_peer [OF tx rtranclp.rtrancl_refl this, of 9] tx show ?thesis by fastforce
qed

end
