(* ===== verification/Lifecycle.thy ===== *)
theory Lifecycle
  imports St_Prelude
begin

text \<open>
  Start and stop of the server (\<open>core/dns_server.cpp\<close>: \<open>start\<close>, \<open>wait_start\<close>, \<open>shutdown\<close>, with what
  \<open>receive\<close>, the replies and \<open>schedule\<close> do to the objects that \<open>shutdown\<close> releases).

  \<open>start\<close> runs on one thread, \<open>shutdown\<close> on another; the handlers run on a pool of threads in
  \<open>ic.run()\<close>, on one thread in \<open>schedule_ic.run()\<close> and, for the answer to a forwarded request, on the
  thread of the client. A step is one statement of one of them, in any interleaving. A step to
  \<open>None\<close> is a use of a pointer that is not set or whose object is gone, or the null pointer of
  \<open>end_session\<close> for a session without a question. What a handler does to the sessions is the matter of
  the theory \<open>Dns_Server\<close>. The thread of the schedule runs one handler at a time.
\<close>

section \<open>State\<close>

datatype ptr = Unset | Live | Freed

text \<open>The next statement of \<open>start\<close> and of \<open>shutdown\<close>.\<close>

datatype start_pc = At_Make_Work | At_Run_Threads | At_Receive | At_Count_Up | At_Make_Timer | At_Schedule
  | At_Join | Start_Returned

datatype stop_pc = Not_Called | At_Mark | At_Cancel_Socket | At_Cancel_Timer | At_Stop | At_Stop_Schedule
  | At_Close | At_Free_Work | At_Free_Schedule_Work | At_Free_Timer | At_Free_Socket | At_Disable | Stop_Returned

text \<open>
  What the handler of \<open>receive\<close> finds: a question it answers at once, one that waits for the timer of a
  cache miss, one that is forwarded, bytes that do not parse, or an error of the socket.
\<close>

datatype arrival = Answered | Missed | Forwarded | Refused | Aborted

datatype worker = Polling | Before_Receive arrival | After_Receive arrival | Replying | Left

datatype scheduler = Sch_Polling | In_Schedule | Sch_Left

record lifecycle =
  lc_state :: "8 word"
  lc_ss :: ptr
  lc_open :: bool
  lc_iw :: ptr
  lc_schedule_iw :: ptr
  lc_timer :: ptr
  lc_ic_stopped :: bool
  lc_schedule_stopped :: bool
  lc_receives :: nat
  lc_aborted :: nat
  lc_misses :: nat
  lc_forwards :: nat
  lc_waits :: nat
  lc_fired :: nat
  lc_workers :: "worker list"
  lc_scheduler :: scheduler
  lc_main :: start_pc
  lc_stop :: stop_pc

text \<open>
  After the constructor. The member \<open>state\<close> has no initialiser, and in C++11 the default constructor of
  \<open>std::atomic\<close> sets no value: it is what the memory held.
\<close>

definition lifecycle_new :: "8 word \<Rightarrow> lifecycle" where
  "lifecycle_new garbage = \<lparr>lc_state = garbage, lc_ss = Live, lc_open = True, lc_iw = Unset, lc_schedule_iw = Unset,
     lc_timer = Unset, lc_ic_stopped = False, lc_schedule_stopped = False, lc_receives = 0, lc_aborted = 0,
     lc_misses = 0, lc_forwards = 0, lc_waits = 0, lc_fired = 0, lc_workers = [], lc_scheduler = Sch_Left,
     lc_main = At_Make_Work, lc_stop = Not_Called\<rparr>"

section \<open>Statements\<close>

text \<open>
  \<open>async_receive_from\<close> on a closed socket completes with an error; \<open>cancel\<close> and \<open>close\<close> complete the
  pending operations with one.
\<close>

definition receive_call :: "lifecycle \<Rightarrow> lifecycle option" where
  "receive_call l =
     (if lc_ss l \<noteq> Live then None
      else if lc_open l then Some (l\<lparr>lc_receives := lc_receives l + 1\<rparr>)
      else Some (l\<lparr>lc_aborted := lc_aborted l + 1\<rparr>))"

definition send_reply :: "lifecycle \<Rightarrow> lifecycle option" where
  "send_reply l = (if lc_ss l \<noteq> Live then None else Some l)"

definition abort_receives :: "lifecycle \<Rightarrow> lifecycle option" where
  "abort_receives l =
     (if lc_ss l \<noteq> Live then None
      else Some (l\<lparr>lc_aborted := lc_aborted l + lc_receives l, lc_receives := 0\<rparr>))"

text \<open>\<open>expires_from_now\<close> cancels the pending waits, whose handlers run then, and \<open>async_wait\<close> adds one.\<close>

definition abort_waits :: "lifecycle \<Rightarrow> lifecycle option" where
  "abort_waits l =
     (if lc_timer l \<noteq> Live then None
      else Some (l\<lparr>lc_fired := lc_fired l + lc_waits l, lc_waits := 0\<rparr>))"

definition rearm_schedule :: "lifecycle \<Rightarrow> lifecycle option" where
  "rearm_schedule l = map_option (\<lambda>l1. l1\<lparr>lc_waits := 1\<rparr>) (abort_waits l)"

definition joined :: "lifecycle \<Rightarrow> bool" where
  "joined l \<longleftrightarrow> list_all (\<lambda>w. w = Left) (lc_workers l) \<and> lc_scheduler l = Sch_Left"

text \<open>\<open>start\<close>: \<open>cpu_count\<close> threads for the handlers and one for the schedule. A join that has to wait leaves the state.\<close>

definition start_step :: "nat \<Rightarrow> lifecycle \<Rightarrow> lifecycle option" where
  "start_step cpu_count l = (case lc_main l of
     At_Make_Work \<Rightarrow> Some (l\<lparr>lc_iw := Live, lc_schedule_iw := Live, lc_main := At_Run_Threads\<rparr>)
   | At_Run_Threads \<Rightarrow>
       Some (l\<lparr>lc_workers := replicate cpu_count Polling, lc_scheduler := Sch_Polling, lc_main := At_Receive\<rparr>)
   | At_Receive \<Rightarrow> map_option (\<lambda>l1. l1\<lparr>lc_main := At_Count_Up\<rparr>) (receive_call l)
   | At_Count_Up \<Rightarrow> Some (l\<lparr>lc_state := lc_state l + 1, lc_main := At_Make_Timer\<rparr>)
   | At_Make_Timer \<Rightarrow> Some (l\<lparr>lc_timer := Live, lc_main := At_Schedule\<rparr>)
   | At_Schedule \<Rightarrow> map_option (\<lambda>l1. l1\<lparr>lc_main := At_Join\<rparr>) (rearm_schedule l)
   | At_Join \<Rightarrow> Some (if joined l then l\<lparr>lc_main := Start_Returned\<rparr> else l)
   | Start_Returned \<Rightarrow> Some l)"

definition delete_ptr :: "ptr \<Rightarrow> ptr option" where
  "delete_ptr p = (if p = Live then Some Freed else None)"

definition shutdown_step :: "lifecycle \<Rightarrow> lifecycle option" where
  "shutdown_step l = (case lc_stop l of
     Not_Called \<Rightarrow> Some l
   | At_Mark \<Rightarrow> Some (l\<lparr>lc_state := 2, lc_stop := At_Cancel_Socket\<rparr>)
   | At_Cancel_Socket \<Rightarrow> map_option (\<lambda>l1. l1\<lparr>lc_stop := At_Cancel_Timer\<rparr>) (abort_receives l)
   | At_Cancel_Timer \<Rightarrow> map_option (\<lambda>l1. l1\<lparr>lc_stop := At_Stop\<rparr>) (abort_waits l)
   | At_Stop \<Rightarrow> Some (l\<lparr>lc_ic_stopped := True, lc_stop := At_Stop_Schedule\<rparr>)
   | At_Stop_Schedule \<Rightarrow> Some (l\<lparr>lc_schedule_stopped := True, lc_stop := At_Close\<rparr>)
   | At_Close \<Rightarrow> map_option (\<lambda>l1. l1\<lparr>lc_open := False, lc_stop := At_Free_Work\<rparr>) (abort_receives l)
   | At_Free_Work \<Rightarrow> map_option (\<lambda>p. l\<lparr>lc_iw := p, lc_stop := At_Free_Schedule_Work\<rparr>) (delete_ptr (lc_iw l))
   | At_Free_Schedule_Work \<Rightarrow>
       map_option (\<lambda>p. l\<lparr>lc_schedule_iw := p, lc_stop := At_Free_Timer\<rparr>) (delete_ptr (lc_schedule_iw l))
   | At_Free_Timer \<Rightarrow> map_option (\<lambda>p. l\<lparr>lc_timer := p, lc_stop := At_Free_Socket\<rparr>) (delete_ptr (lc_timer l))
   | At_Free_Socket \<Rightarrow> map_option (\<lambda>p. l\<lparr>lc_ss := p, lc_stop := At_Disable\<rparr>) (delete_ptr (lc_ss l))
   | At_Disable \<Rightarrow> Some (l\<lparr>lc_stop := Stop_Returned\<rparr>)
   | Stop_Returned \<Rightarrow> Some l)"

text \<open>\<open>wait_start\<close> polls \<open>state\<close> until it is not zero.\<close>

definition wait_start_returns :: "lifecycle \<Rightarrow> bool" where
  "wait_start_returns l \<longleftrightarrow> lc_state l \<noteq> 0"

text \<open>
  The rest of a handler on the thread \<open>i\<close>. The handler of a datagram calls \<open>receive\<close> first; then it answers,
  waits or forwards, or ends a session that has no question.
\<close>

definition worker_step :: "nat \<Rightarrow> lifecycle \<Rightarrow> lifecycle option" where
  "worker_step i l = (case lc_workers l ! i of
     Before_Receive a \<Rightarrow> map_option (\<lambda>l1. l1\<lparr>lc_workers := (lc_workers l1)[i := After_Receive a]\<rparr>) (receive_call l)
   | After_Receive Answered \<Rightarrow> Some (l\<lparr>lc_workers := (lc_workers l)[i := Replying]\<rparr>)
   | After_Receive Missed \<Rightarrow> Some (l\<lparr>lc_misses := lc_misses l + 1, lc_workers := (lc_workers l)[i := Polling]\<rparr>)
   | After_Receive Forwarded \<Rightarrow> Some (l\<lparr>lc_forwards := lc_forwards l + 1, lc_workers := (lc_workers l)[i := Polling]\<rparr>)
   | After_Receive Refused \<Rightarrow> None
   | After_Receive Aborted \<Rightarrow> None
   | Replying \<Rightarrow> map_option (\<lambda>l1. l1\<lparr>lc_workers := (lc_workers l1)[i := Polling]\<rparr>) (send_reply l)
   | Polling \<Rightarrow> Some l
   | Left \<Rightarrow> Some l)"

definition schedule_step :: "lifecycle \<Rightarrow> lifecycle option" where
  "schedule_step l = (case lc_scheduler l of
     In_Schedule \<Rightarrow> map_option (\<lambda>l1. l1\<lparr>lc_scheduler := Sch_Polling\<rparr>) (rearm_schedule l)
   | _ \<Rightarrow> Some l)"

section \<open>Steps\<close>

text \<open>
  The work objects keep \<open>run\<close> from returning before \<open>stop\<close>; after it a thread leaves when its handler is
  done, and no further handler is taken.
\<close>

inductive life_step :: "nat \<Rightarrow> lifecycle \<Rightarrow> lifecycle option \<Rightarrow> bool" for n where
  start: "lc_main l \<noteq> Start_Returned \<Longrightarrow> r = start_step n l \<Longrightarrow> life_step n l r"
| call_shutdown: "lc_stop l = Not_Called \<Longrightarrow> life_step n l (Some (l\<lparr>lc_stop := At_Mark\<rparr>))"
| shutdown: "lc_stop l \<notin> {Not_Called, Stop_Returned} \<Longrightarrow> r = shutdown_step l \<Longrightarrow> life_step n l r"
| datagram: "i < length (lc_workers l) \<Longrightarrow> lc_workers l ! i = Polling \<Longrightarrow> \<not> lc_ic_stopped l \<Longrightarrow> 0 < lc_receives l
    \<Longrightarrow> a \<noteq> Aborted \<Longrightarrow>
    life_step n l (Some (l\<lparr>lc_receives := lc_receives l - 1, lc_workers := (lc_workers l)[i := Before_Receive a]\<rparr>))"
| aborted: "i < length (lc_workers l) \<Longrightarrow> lc_workers l ! i = Polling \<Longrightarrow> \<not> lc_ic_stopped l \<Longrightarrow> 0 < lc_aborted l \<Longrightarrow>
    life_step n l (Some (l\<lparr>lc_aborted := lc_aborted l - 1, lc_workers := (lc_workers l)[i := Before_Receive Aborted]\<rparr>))"
| miss_timer: "i < length (lc_workers l) \<Longrightarrow> lc_workers l ! i = Polling \<Longrightarrow> \<not> lc_ic_stopped l \<Longrightarrow> 0 < lc_misses l \<Longrightarrow>
    life_step n l (Some (l\<lparr>lc_misses := lc_misses l - 1, lc_workers := (lc_workers l)[i := Replying]\<rparr>))"
| worker: "i < length (lc_workers l) \<Longrightarrow> r = worker_step i l \<Longrightarrow> life_step n l r"
| leave: "i < length (lc_workers l) \<Longrightarrow> lc_workers l ! i = Polling \<Longrightarrow> lc_ic_stopped l \<Longrightarrow>
    life_step n l (Some (l\<lparr>lc_workers := (lc_workers l)[i := Left]\<rparr>))"
| forward_answer: "0 < lc_forwards l \<Longrightarrow>
    r = map_option (\<lambda>l1. l1\<lparr>lc_forwards := lc_forwards l1 - 1\<rparr>) (send_reply l) \<Longrightarrow> life_step n l r"
| schedule_expired: "lc_scheduler l = Sch_Polling \<Longrightarrow> \<not> lc_schedule_stopped l \<Longrightarrow> 0 < lc_waits l \<Longrightarrow>
    life_step n l (Some (l\<lparr>lc_waits := lc_waits l - 1, lc_scheduler := In_Schedule\<rparr>))"
| schedule_aborted: "lc_scheduler l = Sch_Polling \<Longrightarrow> \<not> lc_schedule_stopped l \<Longrightarrow> 0 < lc_fired l \<Longrightarrow>
    life_step n l (Some (l\<lparr>lc_fired := lc_fired l - 1, lc_scheduler := In_Schedule\<rparr>))"
| schedule: "r = schedule_step l \<Longrightarrow> life_step n l r"
| schedule_leave: "lc_scheduler l = Sch_Polling \<Longrightarrow> lc_schedule_stopped l \<Longrightarrow>
    life_step n l (Some (l\<lparr>lc_scheduler := Sch_Left\<rparr>))"

definition life_next :: "nat \<Rightarrow> lifecycle \<Rightarrow> lifecycle \<Rightarrow> bool" where
  "life_next n l l' \<longleftrightarrow> life_step n l (Some l')"

section \<open>Invariants\<close>

lemmas life_defs = receive_call_def send_reply_def abort_receives_def abort_waits_def rearm_schedule_def
  start_step_def shutdown_step_def worker_step_def schedule_step_def delete_ptr_def

lemmas life_splits = start_pc.splits stop_pc.splits worker.splits arrival.splits scheduler.splits if_splits

text \<open>Threads leave only after their context was stopped, and \<open>start\<close> returns only when all have left.\<close>

definition threads_inv :: "nat \<Rightarrow> lifecycle \<Rightarrow> bool" where
  "threads_inv n l \<longleftrightarrow>
     (Left \<in> set (lc_workers l) \<longrightarrow> lc_ic_stopped l)
   \<and> (if lc_main l \<in> {At_Make_Work, At_Run_Threads} then lc_workers l = [] \<and> lc_scheduler l = Sch_Left
      else length (lc_workers l) = n \<and> (lc_scheduler l = Sch_Left \<longrightarrow> lc_schedule_stopped l))
   \<and> (lc_main l = Start_Returned \<longrightarrow> joined l)"

lemma in_set_update: "x \<in> set (xs[i := y]) \<Longrightarrow> x \<noteq> y \<Longrightarrow> x \<in> set xs"
  by (metis insertE set_update_subset_insert subset_eq)

lemma joined_polling: "joined l \<Longrightarrow> i < length (lc_workers l) \<Longrightarrow> lc_workers l ! i = Left"
  by (auto simp: joined_def list_all_length)

lemma threads_inv_frame:
  assumes "threads_inv n l" and "lc_workers l' = lc_workers l" and "lc_main l' = lc_main l"
    and "lc_scheduler l' = lc_scheduler l" and "lc_ic_stopped l \<Longrightarrow> lc_ic_stopped l'"
    and "lc_schedule_stopped l \<Longrightarrow> lc_schedule_stopped l'"
  shows "threads_inv n l'"
  using assms by (simp add: threads_inv_def joined_def split: if_splits)

text \<open>A thread that is not done takes the next state of its handler.\<close>

lemma threads_inv_update:
  assumes "threads_inv n l" and "i < length (lc_workers l)" and "lc_workers l ! i \<noteq> Left"
    and "lc_workers l' = (lc_workers l)[i := w]" and "w = Left \<Longrightarrow> lc_ic_stopped l"
    and "lc_main l' = lc_main l" and "lc_scheduler l' = lc_scheduler l" and "lc_ic_stopped l' = lc_ic_stopped l"
    and "lc_schedule_stopped l' = lc_schedule_stopped l"
  shows "threads_inv n l'"
proof -
  have "lc_main l \<noteq> Start_Returned" using assms(1-3) joined_polling by (auto simp: threads_inv_def)
  with assms show ?thesis by (auto simp: threads_inv_def dest: in_set_update split: if_splits)
qed

lemma threads_inv_schedule:
  assumes "threads_inv n l" and "lc_scheduler l \<noteq> Sch_Left"
    and "lc_workers l' = lc_workers l" and "lc_main l' = lc_main l" and "lc_ic_stopped l' = lc_ic_stopped l"
    and "lc_schedule_stopped l' = lc_schedule_stopped l" and "lc_scheduler l' = Sch_Left \<Longrightarrow> lc_schedule_stopped l"
  shows "threads_inv n l'"
  using assms by (auto simp: threads_inv_def joined_def split: if_splits)

lemma threads_inv_shutdown:
  assumes "threads_inv n l" and "shutdown_step l = Some l'"
  shows "threads_inv n l'"
  by (rule threads_inv_frame [OF assms(1)]; use assms(2) in \<open>cases "lc_stop l"; auto simp: life_defs split: if_splits\<close>)

lemma threads_inv_start:
  assumes "threads_inv n l" and "start_step n l = Some l'"
  shows "threads_inv n l'"
  using assms by (cases "lc_main l") (auto simp: life_defs threads_inv_def joined_def split: if_splits)

lemma threads_inv_worker:
  assumes "threads_inv n l" and "i < length (lc_workers l)" and "worker_step i l = Some l'"
  shows "threads_inv n l'"
proof (cases "lc_workers l ! i \<in> {Polling, Left}")
  case True
  with assms show ?thesis by (auto simp: worker_step_def)
next
  case False
  then obtain w where "lc_workers l' = (lc_workers l)[i := w]" "w \<noteq> Left" "lc_main l' = lc_main l"
    "lc_scheduler l' = lc_scheduler l" "lc_ic_stopped l' = lc_ic_stopped l" "lc_schedule_stopped l' = lc_schedule_stopped l"
    using assms(3) by (cases "lc_workers l ! i") (auto simp: life_defs split: arrival.splits if_splits)
  with False show ?thesis by (intro threads_inv_update [OF assms(1,2)]) auto
qed

lemma threads_inv_step: "life_step n l (Some l') \<Longrightarrow> threads_inv n l \<Longrightarrow> threads_inv n l'"
proof (induction l "Some l'" rule: life_step.induct)
  case (schedule l)
  then show ?case
    by (cases "lc_scheduler l") (auto simp: life_defs intro: threads_inv_schedule split: if_splits)
next
  case (forward_answer l)
  then show ?case by (auto simp: send_reply_def intro: threads_inv_frame split: if_splits)
next
  case (start l)
  then show ?case using threads_inv_start by metis
next
  case (call_shutdown l)
  from call_shutdown show ?case by (auto intro: threads_inv_frame [where l = l])
next
  case (shutdown l)
  then show ?case using threads_inv_shutdown by metis
next
  case (datagram i l a)
  from datagram show ?case by (auto intro: threads_inv_update [where l = l and i = i])
next
  case (aborted i l)
  from aborted show ?case by (auto intro: threads_inv_update [where l = l and i = i])
next
  case (miss_timer i l)
  from miss_timer show ?case by (auto intro: threads_inv_update [where l = l and i = i])
next
  case (worker i l)
  then show ?case using threads_inv_worker by metis
next
  case (leave i l)
  from leave show ?case by (auto intro: threads_inv_update [where l = l and i = i])
next
  case (schedule_expired l)
  from schedule_expired show ?case by (auto intro: threads_inv_schedule [where l = l])
next
  case (schedule_aborted l)
  from schedule_aborted show ?case by (auto intro: threads_inv_schedule [where l = l])
next
  case (schedule_leave l)
  from schedule_leave show ?case by (auto intro: threads_inv_schedule [where l = l])
qed

interpretation lifecycle_machine: state_machine "life_next n" "threads_inv n" for n
  by unfold_locales (simp add: life_next_def threads_inv_step)

lemma threads_inv_init: "threads_inv n (lifecycle_new garbage)"
  by (simp add: threads_inv_def lifecycle_new_def)

text \<open>The handlers touch neither the flag nor the threads of \<open>start\<close> and \<open>shutdown\<close>.\<close>

definition same_control :: "lifecycle \<Rightarrow> lifecycle \<Rightarrow> bool" where
  "same_control l l' \<longleftrightarrow> lc_state l' = lc_state l \<and> lc_main l' = lc_main l \<and> lc_stop l' = lc_stop l \<and> lc_ss l' = lc_ss l
     \<and> lc_open l' = lc_open l \<and> lc_iw l' = lc_iw l \<and> lc_schedule_iw l' = lc_schedule_iw l \<and> lc_timer l' = lc_timer l
     \<and> lc_ic_stopped l' = lc_ic_stopped l \<and> lc_schedule_stopped l' = lc_schedule_stopped l"

lemma worker_same_control: "worker_step i l = Some l' \<Longrightarrow> same_control l l'"
  by (cases "lc_workers l ! i") (auto simp: life_defs same_control_def split: arrival.splits if_splits)

lemma schedule_same_control: "schedule_step l = Some l' \<Longrightarrow> same_control l l'"
  by (cases "lc_scheduler l") (auto simp: life_defs same_control_def split: if_splits)

lemma life_step_control:
  assumes "life_step n l (Some l')"
  shows "same_control l l' \<or> lc_main l \<noteq> Start_Returned \<and> start_step n l = Some l'
    \<or> lc_stop l = Not_Called \<and> l' = l\<lparr>lc_stop := At_Mark\<rparr>
    \<or> lc_stop l \<notin> {Not_Called, Stop_Returned} \<and> shutdown_step l = Some l'"
  using assms
proof (induction l "Some l'" rule: life_step.induct)
  case (start l)
  then show ?case by (intro disjI2 disjI1) simp
next
  case (shutdown l)
  then show ?case by (intro disjI2) simp
next
  case (worker i l)
  then show ?case using worker_same_control by metis
next
  case (schedule l)
  then show ?case using schedule_same_control by metis
next
  case (forward_answer l)
  then show ?case by (intro disjI1) (auto simp: same_control_def send_reply_def split: if_splits)
next
  case (call_shutdown l)
  then show ?case by (intro disjI2 disjI1) simp
qed (rule disjI1, clarsimp simp: same_control_def)+

definition counted :: "start_pc \<Rightarrow> bool" where
  "counted pc \<longleftrightarrow> pc \<in> {At_Make_Timer, At_Schedule, At_Join, Start_Returned}"

definition state_inv :: "8 word \<Rightarrow> lifecycle \<Rightarrow> bool" where
  "state_inv garbage l \<longleftrightarrow>
     (lc_stop l = Not_Called \<longrightarrow> lc_state l = (if counted (lc_main l) then garbage + 1 else garbage))"

lemma state_inv_step: "life_next n l l' \<Longrightarrow> state_inv garbage l \<Longrightarrow> state_inv garbage l'"
proof -
  assume inv: "state_inv garbage l" and "life_next n l l'"
  then consider "same_control l l'" | "start_step n l = Some l'" | "l' = l\<lparr>lc_stop := At_Mark\<rparr>"
    | "lc_stop l \<notin> {Not_Called, Stop_Returned}" "shutdown_step l = Some l'"
    unfolding life_next_def using life_step_control by blast
  then show ?thesis
  proof cases
    case 1 with inv show ?thesis by (simp add: same_control_def state_inv_def)
  next
    case 2 with inv show ?thesis
      by (cases "lc_main l") (auto simp: life_defs state_inv_def counted_def split: if_splits)
  next
    case 3 then show ?thesis by (simp add: state_inv_def)
  next
    case 4 then show ?thesis by (cases "lc_stop l") (auto simp: life_defs state_inv_def split: if_splits)
  qed
qed

interpretation started_flag: state_machine "life_next n" "state_inv garbage" for n garbage
  by unfold_locales (rule state_inv_step)

section \<open>Orderly shutdown\<close>

text \<open>
  No handler is at work: \<open>start\<close> waits for its threads, and no forwarded request is open. A run is orderly
  when this holds from the call of \<open>shutdown\<close> on and no datagram is refused.
\<close>

definition quiet :: "lifecycle \<Rightarrow> bool" where
  "quiet l \<longleftrightarrow> lc_main l \<in> {At_Join, Start_Returned} \<and> lc_forwards l = 0
     \<and> set (lc_workers l) \<subseteq> {Polling, Left} \<and> lc_scheduler l \<noteq> In_Schedule"

definition orderly_step :: "nat \<Rightarrow> lifecycle \<Rightarrow> lifecycle \<Rightarrow> bool" where
  "orderly_step n l l' \<longleftrightarrow> life_next n l l' \<and> (lc_stop l' \<noteq> Not_Called \<longrightarrow> quiet l')
     \<and> Before_Receive Refused \<notin> set (lc_workers l')"

definition running_inv :: "lifecycle \<Rightarrow> bool" where
  "running_inv l \<longleftrightarrow> lc_ss l = Live \<and> lc_open l \<and> lc_aborted l = 0
     \<and> set (lc_workers l) \<inter> {Before_Receive Aborted, After_Receive Aborted, Before_Receive Refused, After_Receive Refused} = {}
     \<and> (lc_main l \<noteq> At_Make_Work \<longrightarrow> lc_iw l = Live \<and> lc_schedule_iw l = Live)
     \<and> (if lc_main l \<in> {At_Schedule, At_Join, Start_Returned} then lc_timer l = Live
        else lc_waits l = 0 \<and> lc_fired l = 0 \<and> lc_scheduler l \<noteq> In_Schedule)"

definition stopping_inv :: "lifecycle \<Rightarrow> bool" where
  "stopping_inv l \<longleftrightarrow> quiet l
     \<and> lc_iw l = (if lc_stop l \<in> {At_Free_Schedule_Work, At_Free_Timer, At_Free_Socket, At_Disable, Stop_Returned} then Freed else Live)
     \<and> lc_schedule_iw l = (if lc_stop l \<in> {At_Free_Timer, At_Free_Socket, At_Disable, Stop_Returned} then Freed else Live)
     \<and> lc_timer l = (if lc_stop l \<in> {At_Free_Socket, At_Disable, Stop_Returned} then Freed else Live)
     \<and> lc_ss l = (if lc_stop l \<in> {At_Disable, Stop_Returned} then Freed else Live)"

definition orderly_inv :: "lifecycle \<Rightarrow> bool" where
  "orderly_inv l \<longleftrightarrow> (if lc_stop l = Not_Called then running_inv l else stopping_inv l)"

lemma running_safe:
  assumes "running_inv l"
  shows "worker_step i l = None \<Longrightarrow> i < length (lc_workers l) \<Longrightarrow> False" and "schedule_step l = None \<Longrightarrow> False"
    and "send_reply l = None \<Longrightarrow> False" and "start_step n l = None \<Longrightarrow> False"
proof -
  show "worker_step i l = None \<Longrightarrow> i < length (lc_workers l) \<Longrightarrow> False"
    using assms nth_mem [of i "lc_workers l"]
    by (cases "lc_workers l ! i") (auto simp: life_defs running_inv_def split: arrival.splits)
qed (use assms in \<open>auto simp: life_defs running_inv_def split: start_pc.splits scheduler.splits if_splits\<close>)

lemma running_start:
  assumes "running_inv l" and "start_step n l = Some l'"
  shows "running_inv l' \<and> lc_stop l' = lc_stop l"
  using assms by (cases "lc_main l") (auto simp: life_defs running_inv_def split: if_splits)

definition sound_handlers :: "worker list \<Rightarrow> bool" where
  "sound_handlers ws \<longleftrightarrow>
     set ws \<inter> {Before_Receive Aborted, After_Receive Aborted, Before_Receive Refused, After_Receive Refused} = {}"

lemma running_update:
  assumes "running_inv l" and "lc_workers l' = (lc_workers l)[i := w]" and "sound_handlers [w]"
    and "same_control l l'" and "lc_aborted l' = lc_aborted l" and "lc_waits l' = lc_waits l"
    and "lc_fired l' = lc_fired l" and "lc_scheduler l' = lc_scheduler l"
  shows "running_inv l'"
proof -
  have "set (lc_workers l') \<subseteq> insert w (set (lc_workers l))" using assms(2) set_update_subset_insert by metis
  then have "sound_handlers (lc_workers l')" using assms(1,3) by (auto simp: running_inv_def sound_handlers_def)
  with assms show ?thesis by (simp add: running_inv_def sound_handlers_def same_control_def)
qed

lemma running_worker:
  assumes "running_inv l" and "i < length (lc_workers l)" and "worker_step i l = Some l'"
  shows "running_inv l' \<and> lc_stop l' = lc_stop l"
proof -
  have good: "sound_handlers [lc_workers l ! i]"
    using assms(1) nth_mem [OF assms(2)] by (auto simp: running_inv_def sound_handlers_def)
  have "\<exists>w. lc_workers l' = (lc_workers l)[i := w] \<and> sound_handlers [w]
      \<and> lc_aborted l' = lc_aborted l \<and> lc_waits l' = lc_waits l \<and> lc_fired l' = lc_fired l \<and> lc_scheduler l' = lc_scheduler l"
  proof (cases "lc_workers l ! i")
    case (Before_Receive a)
    with assms good show ?thesis
      by (intro exI [of _ "After_Receive a"]) (auto simp: life_defs sound_handlers_def running_inv_def split: if_splits)
  next
    case (After_Receive a)
    with assms(3) show ?thesis by (cases a) (auto simp: worker_step_def sound_handlers_def)
  next
    case Replying
    with assms(3) show ?thesis by (auto simp: worker_step_def send_reply_def sound_handlers_def split: if_splits)
  next
    case Polling
    with assms(3) have "l' = l" by (simp add: worker_step_def)
    then show ?thesis using good by (intro exI [of _ "lc_workers l ! i"]) simp
  next
    case Left
    with assms(3) have "l' = l" by (simp add: worker_step_def)
    then show ?thesis using good by (intro exI [of _ "lc_workers l ! i"]) simp
  qed
  then have "running_inv l'"
    using running_update [OF assms(1) _ _ worker_same_control [OF assms(3)]] by blast
  then show ?thesis using worker_same_control [OF assms(3)] by (simp add: same_control_def)
qed

lemma running_schedule:
  assumes "running_inv l" and "schedule_step l = Some l'"
  shows "running_inv l' \<and> lc_stop l' = lc_stop l"
  using assms by (cases "lc_scheduler l") (auto simp: life_defs running_inv_def split: if_splits)

text \<open>Before \<open>shutdown\<close> every step keeps the invariant; its call finds all objects alive.\<close>

lemma orderly_running:
  assumes "life_step n l (Some l')" and "running_inv l" and "lc_stop l = Not_Called"
    and "Before_Receive Refused \<notin> set (lc_workers l')" and "lc_stop l' = Not_Called"
  shows "running_inv l'"
  using assms
proof (induction l "Some l'" rule: life_step.induct)
  case (start l)
  then show ?case using running_start by metis
next
  case (datagram i l a)
  have "Before_Receive a \<in> set ((lc_workers l)[i := Before_Receive a])" using datagram by (simp add: set_update_memI)
  with datagram have "a \<noteq> Refused" by auto
  with datagram show ?case
    by (auto intro!: running_update [where l = l and i = i and w = "Before_Receive a"] simp: sound_handlers_def same_control_def)
next
  case (aborted i l)
  then show ?case by (simp add: running_inv_def)
next
  case (miss_timer i l)
  then show ?case
    by (auto intro!: running_update [where l = l and i = i and w = Replying] simp: sound_handlers_def same_control_def)
next
  case (worker i l)
  then show ?case using running_worker by metis
next
  case (leave i l)
  then show ?case
    by (auto intro!: running_update [where l = l and i = i and w = Left] simp: sound_handlers_def same_control_def)
next
  case (forward_answer l)
  then show ?case by (auto simp: send_reply_def running_inv_def split: if_splits)
next
  case (schedule l)
  then show ?case using running_schedule by metis
next
  case (schedule_expired l)
  then show ?case by (auto simp: running_inv_def split: if_splits)
next
  case (schedule_aborted l)
  then show ?case by (auto simp: running_inv_def split: if_splits)
next
  case (schedule_leave l)
  then show ?case by (auto simp: running_inv_def split: if_splits)
qed auto

lemma quiet_worker:
  assumes "quiet l" and "i < length (lc_workers l)"
  shows "worker_step i l = Some l"
proof -
  have "lc_workers l ! i \<in> {Polling, Left}" using assms nth_mem by (auto simp: quiet_def)
  then show ?thesis by (auto simp: worker_step_def)
qed

lemma stopping_safe:
  assumes "stopping_inv l" and "lc_stop l \<noteq> Not_Called"
  shows "\<not> life_step n l None"
proof
  assume "life_step n l None"
  then show False
  proof cases
    case start
    with assms show ?thesis by (auto simp: stopping_inv_def quiet_def start_step_def)
  next
    case shutdown
    with assms show ?thesis
      by (cases "lc_stop l") (auto simp: stopping_inv_def life_defs)
  next
    case (worker i)
    with assms quiet_worker show ?thesis by (fastforce simp: stopping_inv_def)
  next
    case forward_answer
    with assms show ?thesis by (simp add: stopping_inv_def quiet_def)
  next
    case schedule
    with assms show ?thesis by (cases "lc_scheduler l") (auto simp: stopping_inv_def quiet_def schedule_step_def)
  qed
qed

lemma running_no_fault:
  assumes "running_inv l" and "lc_stop l = Not_Called"
  shows "\<not> life_step n l None"
proof
  assume "life_step n l None"
  then show False
    by cases (use running_safe [OF assms(1)] assms(2) in \<open>auto dest: sym\<close>)
qed

lemma orderly_stopping:
  assumes "life_step n l (Some l')" and "stopping_inv l" and "lc_stop l \<noteq> Not_Called" and "quiet l'"
  shows "stopping_inv l' \<and> lc_stop l' \<noteq> Not_Called"
proof -
  consider "same_control l l'" | "start_step n l = Some l'" | "shutdown_step l = Some l'"
    using life_step_control [OF assms(1)] assms(3) by blast
  then show ?thesis
  proof cases
    case 1 with assms show ?thesis by (simp add: stopping_inv_def same_control_def)
  next
    case 2
    have "lc_main l \<in> {At_Join, Start_Returned}" using assms(2) by (simp add: stopping_inv_def quiet_def)
    with 2 have "l' = l \<or> l' = l\<lparr>lc_main := Start_Returned\<rparr>" by (auto simp: start_step_def split: if_splits)
    with assms(2-4) show ?thesis by (elim disjE) (simp_all add: stopping_inv_def)
  next
    case 3
    then show ?thesis
      using assms(2-4) by (cases "lc_stop l"; clarsimp simp: stopping_inv_def life_defs split: if_splits)
  qed
qed

lemma start_stop: "start_step n l = Some l' \<Longrightarrow> lc_stop l' = lc_stop l"
  by (cases "lc_main l") (auto simp: life_defs split: if_splits)

lemma shutdown_called: "shutdown_step l = Some l' \<Longrightarrow> lc_stop l \<noteq> Not_Called \<Longrightarrow> lc_stop l' \<noteq> Not_Called"
  by (cases "lc_stop l") (auto simp: life_defs split: if_splits)

lemma called_stays: "life_step n l (Some l') \<Longrightarrow> lc_stop l \<noteq> Not_Called \<Longrightarrow> lc_stop l' \<noteq> Not_Called"
  using life_step_control [of n l l'] start_stop [of n l l'] shutdown_called [of l l'] by (auto simp: same_control_def)

lemma orderly_inv_step: "orderly_step n l l' \<Longrightarrow> orderly_inv l \<Longrightarrow> orderly_inv l'"
proof -
  assume inv: "orderly_inv l" and "orderly_step n l l'"
  then have step: "life_step n l (Some l')" and quiet: "lc_stop l' \<noteq> Not_Called \<Longrightarrow> quiet l'"
    and sound: "Before_Receive Refused \<notin> set (lc_workers l')"
    by (auto simp: orderly_step_def life_next_def)
  show "orderly_inv l'"
  proof (cases "lc_stop l = Not_Called")
    case stopping: False
    with inv orderly_stopping [OF step _ stopping] quiet called_stays [OF step stopping] show ?thesis
      by (simp add: orderly_inv_def)
  next
    case running: True
    with inv have r: "running_inv l" by (simp add: orderly_inv_def)
    show ?thesis
    proof (cases "lc_stop l' = Not_Called")
      case True
      with orderly_running [OF step r running sound] show ?thesis by (simp add: orderly_inv_def)
    next
      case False
      with running life_step_control [OF step] start_stop [of n l l'] have "l' = l\<lparr>lc_stop := At_Mark\<rparr>" by (auto simp: same_control_def)
      with quiet r show ?thesis by (auto simp: orderly_inv_def stopping_inv_def running_inv_def quiet_def)
    qed
  qed
qed

interpretation orderly: state_machine "orderly_step n" orderly_inv for n
  by unfold_locales (rule orderly_inv_step)

lemma orderly_inv_init: "orderly_inv (lifecycle_new garbage)"
  by (simp add: orderly_inv_def running_inv_def lifecycle_new_def)

text \<open>
  The rest of an orderly run. \<open>shutdown\<close> executes its statements, every thread leaves when its context is
  stopped, and then the join of \<open>start\<close> returns: each of these steps lowers the rank of the state, and one
  of them is possible until both calls have returned.
\<close>

lemma orderly_shutdown_step:
  assumes "stopping_inv l" and "lc_stop l \<notin> {Not_Called, Stop_Returned}"
  obtains l' where "orderly_step n l l'" and "shutdown_step l = Some l'"
proof -
  have "life_step n l (shutdown_step l)" using assms(2) by (rule life_step.shutdown) (rule refl)
  moreover obtain l' where l': "shutdown_step l = Some l'"
    using stopping_safe [OF assms(1)] calculation assms(2) by (cases "shutdown_step l") auto
  moreover have "lc_main l' = lc_main l" "lc_forwards l' = lc_forwards l" "lc_workers l' = lc_workers l"
    "lc_scheduler l' = lc_scheduler l"
    using l' by (cases "lc_stop l"; auto simp: life_defs split: if_splits)+
  moreover have "quiet l" using assms(1) by (simp add: stopping_inv_def)
  ultimately show ?thesis
    by (intro that [of l']) (auto simp: orderly_step_def life_next_def quiet_def)
qed

text \<open>The statements of \<open>shutdown\<close> that are left, and the flags of the contexts.\<close>

fun stop_left :: "stop_pc \<Rightarrow> nat" where
  "stop_left Not_Called = 12"
| "stop_left At_Mark = 11"
| "stop_left At_Cancel_Socket = 10"
| "stop_left At_Cancel_Timer = 9"
| "stop_left At_Stop = 8"
| "stop_left At_Stop_Schedule = 7"
| "stop_left At_Close = 6"
| "stop_left At_Free_Work = 5"
| "stop_left At_Free_Schedule_Work = 4"
| "stop_left At_Free_Timer = 3"
| "stop_left At_Free_Socket = 2"
| "stop_left At_Disable = 1"
| "stop_left Stop_Returned = 0"

lemma shutdown_left: "shutdown_step l = Some l' \<Longrightarrow> lc_stop l \<notin> {Not_Called, Stop_Returned} \<Longrightarrow>
    stop_left (lc_stop l') < stop_left (lc_stop l)"
  by (cases "lc_stop l") (auto simp: life_defs split: if_splits)

definition flags_inv :: "lifecycle \<Rightarrow> bool" where
  "flags_inv l \<longleftrightarrow> (lc_ic_stopped l \<longleftrightarrow> stop_left (lc_stop l) < 8) \<and> (lc_schedule_stopped l \<longleftrightarrow> stop_left (lc_stop l) < 7)"

lemma flags_inv_step: "life_next n l l' \<Longrightarrow> flags_inv l \<Longrightarrow> flags_inv l'"
proof -
  assume inv: "flags_inv l" and "life_next n l l'"
  then consider "same_control l l'" | "start_step n l = Some l'" | "lc_stop l = Not_Called" "l' = l\<lparr>lc_stop := At_Mark\<rparr>"
    | "shutdown_step l = Some l'"
    unfolding life_next_def using life_step_control by blast
  then show ?thesis
  proof cases
    case 1 with inv show ?thesis by (simp add: same_control_def flags_inv_def)
  next
    case 2 with inv show ?thesis by (cases "lc_main l") (auto simp: life_defs flags_inv_def split: if_splits)
  next
    case 3 with inv show ?thesis by (simp add: flags_inv_def)
  next
    case 4 with inv show ?thesis by (cases "lc_stop l"; clarsimp simp: life_defs flags_inv_def split: if_splits)
  qed
qed

interpretation stopped_flags: state_machine "life_next n" flags_inv for n
  by unfold_locales (rule flags_inv_step)

lemma flags_inv_init: "flags_inv (lifecycle_new garbage)"
  by (simp add: flags_inv_def lifecycle_new_def)

lemma orderly_life: "(orderly_step n)\<^sup>*\<^sup>* l l' \<Longrightarrow> (life_next n)\<^sup>*\<^sup>* l l'"
  by (erule rtranclp_mono [THEN predicate2D, rotated]) (auto simp: orderly_step_def)

text \<open>Once both contexts are stopped the threads leave one by one, and \<open>start\<close> returns.\<close>

lemma orderly_leave:
  assumes "stopping_inv l" and "lc_stop l = Stop_Returned" and "flags_inv l"
    and "i < length (lc_workers l)" and "lc_workers l ! i = Polling"
  shows "orderly_step n l (l\<lparr>lc_workers := (lc_workers l)[i := Left]\<rparr>)"
proof -
  have "set ((lc_workers l)[i := Left]) \<subseteq> {Polling, Left}"
    using assms(1) set_update_subset_insert [of "lc_workers l" i Left] by (auto simp: stopping_inv_def quiet_def)
  then have "quiet (l\<lparr>lc_workers := (lc_workers l)[i := Left]\<rparr>)" "Before_Receive Refused \<notin> set ((lc_workers l)[i := Left])"
    using assms(1) by (auto simp: stopping_inv_def quiet_def)
  moreover have "lc_ic_stopped l" using assms(2,3) by (simp add: flags_inv_def)
  ultimately show ?thesis
    using assms(1,4,5) by (auto simp: orderly_step_def life_next_def stopping_inv_def intro: life_step.leave)
qed

definition polling_workers :: "lifecycle \<Rightarrow> nat" where
  "polling_workers l = length (filter (\<lambda>w. w = Polling) (lc_workers l))"

definition stopping_rank :: "lifecycle \<Rightarrow> nat" where
  "stopping_rank l = stop_left (lc_stop l) + polling_workers l + (if lc_scheduler l = Sch_Left then 0 else 1)
     + (if lc_main l = Start_Returned then 0 else 1)"

definition called_inv :: "lifecycle \<Rightarrow> bool" where
  "called_inv l \<longleftrightarrow> stopping_inv l \<and> lc_stop l \<noteq> Not_Called \<and> flags_inv l"

definition all_returned :: "lifecycle \<Rightarrow> bool" where
  "all_returned l \<longleftrightarrow> lc_main l = Start_Returned \<and> lc_stop l = Stop_Returned
     \<and> lc_ss l = Freed \<and> lc_timer l = Freed \<and> lc_iw l = Freed \<and> lc_schedule_iw l = Freed"

lemma called_inv_step: "orderly_step n l l' \<Longrightarrow> called_inv l \<Longrightarrow> called_inv l'"
  using orderly_stopping [of n l l'] flags_inv_step [of n l l'] called_stays [of n l l']
  by (auto simp: called_inv_def orderly_step_def life_next_def)

lemma filter_update_less:
  "i < length xs \<Longrightarrow> P (xs ! i) \<Longrightarrow> \<not> P y \<Longrightarrow> length (filter P (xs[i := y])) < length (filter P xs)"
proof (induction xs arbitrary: i)
  case (Cons x xs)
  then show ?case by (cases i) auto
qed simp

lemma not_quiet_update: "i < length ws \<Longrightarrow> w \<notin> {Polling, Left} \<Longrightarrow> \<not> set (ws[i := w]) \<subseteq> {Polling, Left}"
  using set_update_memI [of i ws w] by blast

lemma orderly_rank:
  assumes "called_inv l" and "orderly_step n l l'" and "l' \<noteq> l"
  shows "stopping_rank l' < stopping_rank l"
proof -
  have q: "quiet l" "quiet l'" and called: "lc_stop l \<noteq> Not_Called"
    using assms(1,2) called_stays [of n l l'] by (auto simp: called_inv_def stopping_inv_def orderly_step_def life_next_def)
  have "life_step n l (Some l')" using assms(2) by (simp add: orderly_step_def life_next_def)
  then show ?thesis
  proof cases
    case start
    then have main: "lc_main l = At_Join" using q(1) by (simp add: quiet_def)
    with start(2) assms(3) have "l' = l\<lparr>lc_main := Start_Returned\<rparr>" by (simp add: start_step_def split: if_splits)
    then show ?thesis by (simp add: stopping_rank_def polling_workers_def main)
  next
    case call_shutdown
    with called show ?thesis by simp
  next
    case shutdown
    then have "shutdown_step l = Some l'" by simp
    moreover from this have "lc_main l' = lc_main l" "lc_workers l' = lc_workers l" "lc_scheduler l' = lc_scheduler l"
      by (cases "lc_stop l"; auto simp: life_defs split: if_splits)+
    ultimately show ?thesis using shutdown_left shutdown(1) by (simp add: stopping_rank_def polling_workers_def)
  next
    case (datagram i a)
    with q(2) not_quiet_update [of i "lc_workers l" "Before_Receive a"] show ?thesis by (simp add: quiet_def)
  next
    case (aborted i)
    with q(2) not_quiet_update [of i "lc_workers l" "Before_Receive Aborted"] show ?thesis by (simp add: quiet_def)
  next
    case (miss_timer i)
    with q(2) not_quiet_update [of i "lc_workers l" Replying] show ?thesis by (simp add: quiet_def)
  next
    case (worker i)
    with quiet_worker [OF q(1)] assms(3) show ?thesis by simp
  next
    case (leave i)
    then show ?thesis
      using filter_update_less [of i "lc_workers l" "\<lambda>w. w = Polling" Left] by (simp add: stopping_rank_def polling_workers_def)
  next
    case forward_answer
    with q(1) show ?thesis by (simp add: quiet_def)
  next
    case schedule_expired
    with q(2) show ?thesis by (simp add: quiet_def)
  next
    case schedule_aborted
    with q(2) show ?thesis by (simp add: quiet_def)
  next
    case schedule
    with q(1) assms(3) show ?thesis by (cases "lc_scheduler l") (simp_all add: quiet_def schedule_step_def)
  next
    case schedule_leave
    then show ?thesis by (simp add: stopping_rank_def polling_workers_def)
  qed
qed

lemma orderly_enabled:
  assumes "called_inv l" and "\<not> all_returned l"
  shows "\<exists>l'. orderly_step n l l' \<and> l' \<noteq> l"
proof -
  have inv: "stopping_inv l" "lc_stop l \<noteq> Not_Called" "flags_inv l" using assms(1) by (simp_all add: called_inv_def)
  have q: "quiet l" using inv(1) by (simp add: stopping_inv_def)
  have ok: "orderly_step n l k" if "life_step n l (Some k)" "quiet k" for k
    using that by (auto simp: orderly_step_def life_next_def quiet_def)
  show ?thesis
  proof (cases "lc_stop l = Stop_Returned")
    case False
    with inv obtain l' where l': "orderly_step n l l'" "shutdown_step l = Some l'" using orderly_shutdown_step by blast
    with shutdown_left [of l l'] inv(2) False have "l' \<noteq> l" by auto
    with l'(1) show ?thesis by blast
  next
    case stopped: True
    show ?thesis
    proof (cases "Polling \<in> set (lc_workers l)")
      case True
      then obtain i where i: "i < length (lc_workers l)" "lc_workers l ! i = Polling" by (auto simp: in_set_conv_nth)
      let ?k = "l\<lparr>lc_workers := (lc_workers l)[i := Left]\<rparr>"
      have "lc_workers ?k ! i \<noteq> lc_workers l ! i" using i by simp
      then have "?k \<noteq> l" by metis
      with orderly_leave [OF inv(1) stopped inv(3) i] show ?thesis by blast
    next
      case False
      then have left: "\<forall>w \<in> set (lc_workers l). w = Left" using q by (auto simp: quiet_def)
      show ?thesis
      proof (cases "lc_scheduler l")
        case Sch_Polling
        let ?k = "l\<lparr>lc_scheduler := Sch_Left\<rparr>"
        have "life_step n l (Some ?k)"
          using Sch_Polling stopped inv(3) by (intro life_step.schedule_leave) (simp_all add: flags_inv_def)
        moreover have "lc_scheduler ?k \<noteq> lc_scheduler l" using Sch_Polling by simp
        then have "?k \<noteq> l" by metis
        ultimately show ?thesis using ok [of ?k] q by (auto simp: quiet_def)
      next
        case Sch_Left
        let ?k = "l\<lparr>lc_main := Start_Returned\<rparr>"
        have main: "lc_main l = At_Join"
          using q assms(2) inv(1) stopped by (auto simp: quiet_def all_returned_def stopping_inv_def)
        have "life_step n l (Some ?k)"
          by (rule life_step.start) (use main left Sch_Left in \<open>auto simp: start_step_def joined_def list_all_iff\<close>)
        moreover have "lc_main ?k \<noteq> lc_main l" using main by simp
        then have "?k \<noteq> l" by metis
        ultimately show ?thesis using ok [of ?k] q by (auto simp: quiet_def)
      qed (use q in \<open>simp add: quiet_def\<close>)
    qed
  qed
qed

lemma all_returned_step: "orderly_step n l l' \<Longrightarrow> all_returned l \<Longrightarrow> all_returned l'"
  using life_step_control [of n l l'] by (auto simp: orderly_step_def life_next_def all_returned_def same_control_def)

interpretation stopping: finishing_machine "orderly_step n" called_inv stopping_rank all_returned for n
  by unfold_locales (auto intro: called_inv_step orderly_rank orderly_enabled all_returned_step)

section \<open>Sample runs\<close>

text \<open>Runs of several statements of one thread.\<close>

primrec statements :: "nat \<Rightarrow> (lifecycle \<Rightarrow> lifecycle option) \<Rightarrow> lifecycle \<Rightarrow> lifecycle option" where
  "statements 0 f l = Some l"
| "statements (Suc k) f l = Option.bind (f l) (statements k f)"

lemma statements_run:
  assumes "\<And>l l'. f l = Some l' \<Longrightarrow> (life_next n)\<^sup>*\<^sup>* l l'"
  shows "statements k f l = Some l' \<Longrightarrow> (life_next n)\<^sup>*\<^sup>* l l'"
  by (induction k arbitrary: l) (auto simp: bind_eq_Some_conv dest: assms intro: rtranclp_trans)

lemma start_statements: "statements k (start_step n) l = Some l' \<Longrightarrow> (life_next n)\<^sup>*\<^sup>* l l'"
proof (rule statements_run)
  fix l l' assume s: "start_step n l = Some l'"
  show "(life_next n)\<^sup>*\<^sup>* l l'"
  proof (cases "lc_main l = Start_Returned")
    case True with s show ?thesis by (simp add: start_step_def)
  next
    case False
    then have "life_step n l (Some l')" by (rule life_step.start) (simp add: s)
    then show ?thesis by (simp add: life_next_def r_into_rtranclp)
  qed
qed

lemma shutdown_statements: "statements k shutdown_step l = Some l' \<Longrightarrow> (life_next n)\<^sup>*\<^sup>* l l'"
proof (rule statements_run)
  fix l l' assume s: "shutdown_step l = Some l'"
  show "(life_next n)\<^sup>*\<^sup>* l l'"
  proof (cases "lc_stop l \<in> {Not_Called, Stop_Returned}")
    case True with s show ?thesis by (auto simp: shutdown_step_def)
  next
    case False
    then have "life_step n l (Some l')" by (rule life_step.shutdown) (simp add: s)
    then show ?thesis by (simp add: life_next_def r_into_rtranclp)
  qed
qed

text \<open>The state in which \<open>start\<close> waits for its threads, and the one after a complete stop.\<close>

definition started :: "nat \<Rightarrow> lifecycle" where
  "started n = (lifecycle_new 0)\<lparr>lc_state := 1, lc_iw := Live, lc_schedule_iw := Live, lc_timer := Live, lc_receives := 1,
     lc_waits := 1, lc_workers := replicate n Polling, lc_scheduler := Sch_Polling, lc_main := At_Join\<rparr>"

lemma started_statements: "statements 6 (start_step n) (lifecycle_new 0) = Some (started n)"
  by (simp add: numeral_eq_Suc life_defs lifecycle_new_def started_def)

lemma started_run: "(life_next n)\<^sup>*\<^sup>* (lifecycle_new 0) (started n)"
  by (rule start_statements [OF started_statements])

lemma orderly_start_statements:
  assumes "statements k (start_step n) l = Some l'" and "lc_stop l = Not_Called" and "Before_Receive Refused \<notin> set (lc_workers l)"
  shows "(orderly_step n)\<^sup>*\<^sup>* l l'"
  using assms
proof (induction k arbitrary: l)
  case (Suc k)
  then obtain l1 where l1: "start_step n l = Some l1" "statements k (start_step n) l1 = Some l'"
    by (auto simp: bind_eq_Some_conv)
  have next1: "lc_stop l1 = Not_Called" "Before_Receive Refused \<notin> set (lc_workers l1)"
    using l1(1) Suc(3,4) by (cases "lc_main l"; auto simp: life_defs split: if_splits)+
  then have "(orderly_step n)\<^sup>*\<^sup>* l1 l'" using Suc(1) [OF l1(2)] by blast
  moreover have "l1 = l \<or> orderly_step n l l1"
  proof (cases "lc_main l = Start_Returned")
    case True with l1(1) show ?thesis by (simp add: start_step_def)
  next
    case False
    then have "life_step n l (Some l1)" by (rule life_step.start) (simp add: l1(1))
    with next1 show ?thesis by (simp add: orderly_step_def life_next_def)
  qed
  ultimately show ?case by (auto intro: converse_rtranclp_into_rtranclp)
qed simp

lemma started_orderly: "(orderly_step n)\<^sup>*\<^sup>* (lifecycle_new 0) ((started n)\<lparr>lc_stop := At_Mark\<rparr>)"
proof -
  have "(orderly_step n)\<^sup>*\<^sup>* (lifecycle_new 0) (started n)"
    by (rule orderly_start_statements [OF started_statements]) (simp_all add: lifecycle_new_def)
  moreover have "life_step n (started n) (Some ((started n)\<lparr>lc_stop := At_Mark\<rparr>))"
    by (rule life_step.call_shutdown) (simp add: started_def lifecycle_new_def)
  then have "orderly_step n (started n) ((started n)\<lparr>lc_stop := At_Mark\<rparr>)"
    by (auto simp: orderly_step_def life_next_def quiet_def started_def lifecycle_new_def)
  ultimately show ?thesis by (rule rtranclp.rtrancl_into_rtrancl)
qed

text \<open>
  The stop of a started server with one thread: the statements of \<open>shutdown\<close>, then the two threads leave and
  \<open>start\<close> returns. Then the run rests.
\<close>

definition sample_stopped :: lifecycle where
  "sample_stopped = (started 1)\<lparr>lc_state := 2, lc_aborted := 1, lc_receives := 0, lc_fired := 1, lc_waits := 0,
     lc_ic_stopped := True, lc_schedule_stopped := True, lc_open := False, lc_iw := Freed, lc_schedule_iw := Freed,
     lc_timer := Freed, lc_ss := Freed, lc_stop := Stop_Returned\<rparr>"

definition sample_stop :: "nat \<Rightarrow> lifecycle" where
  "sample_stop i =
     (if i \<le> 11 then the (statements i shutdown_step ((started 1)\<lparr>lc_stop := At_Mark\<rparr>))
      else if i = 12 then sample_stopped\<lparr>lc_workers := [Left]\<rparr>
      else if i = 13 then sample_stopped\<lparr>lc_workers := [Left], lc_scheduler := Sch_Left\<rparr>
      else sample_stopped\<lparr>lc_workers := [Left], lc_scheduler := Sch_Left, lc_main := Start_Returned\<rparr>)"

lemma statements_end: "statements (Suc k) f l = Option.bind (statements k f l) f"
proof (induction k arbitrary: l)
  case (Suc k)
  then show ?case by (cases "f l") simp_all
next
  case 0
  show ?case by (cases "f l") simp_all
qed

lemma statements_shutdown_state:
  "statements k shutdown_step l = Some l' \<Longrightarrow> called_inv l \<Longrightarrow> k \<le> stop_left (lc_stop l)
     \<Longrightarrow> called_inv l' \<and> stop_left (lc_stop l') = stop_left (lc_stop l) - k \<and> lc_main l' = lc_main l"
proof (induction k arbitrary: l)
  case (Suc k)
  then obtain l1 where l1: "shutdown_step l = Some l1" "statements k shutdown_step l1 = Some l'"
    by (auto simp: bind_eq_Some_conv)
  have pc: "lc_stop l \<notin> {Not_Called, Stop_Returned}" using Suc.prems(2,3) by (auto simp: called_inv_def)
  then have "orderly_step n l l1" for n
    using orderly_shutdown_step [of l n] Suc.prems(2) l1(1) by (auto simp: called_inv_def)
  then have "called_inv l1" using called_inv_step Suc.prems(2) by blast
  moreover have "stop_left (lc_stop l1) = stop_left (lc_stop l) - 1 \<and> lc_main l1 = lc_main l"
    using l1(1) pc by (cases "lc_stop l") (auto simp: life_defs split: if_splits)
  ultimately show ?case using Suc.IH [OF l1(2)] Suc.prems(3) by simp
qed simp

lemma sample_stop_start: "called_inv ((started 1)\<lparr>lc_stop := At_Mark\<rparr>)"
  by (simp add: called_inv_def stopping_inv_def quiet_def flags_inv_def started_def lifecycle_new_def)

lemma sample_stop_statements: "statements 11 shutdown_step ((started 1)\<lparr>lc_stop := At_Mark\<rparr>) = Some sample_stopped"
  by (simp add: numeral_eq_Suc life_defs started_def lifecycle_new_def sample_stopped_def)

lemma sample_stop_shutdown:
  assumes "i \<le> 11"
  obtains l where "statements i shutdown_step ((started 1)\<lparr>lc_stop := At_Mark\<rparr>) = Some l" and "sample_stop i = l"
    and "called_inv l" and "stop_left (lc_stop l) = 11 - i" and "lc_main l = At_Join"
proof -
  let ?s = "(started 1)\<lparr>lc_stop := At_Mark\<rparr>"
  have "statements j shutdown_step ?s = None \<Longrightarrow> statements (j + d) shutdown_step ?s = None" for j d
    by (induction d) (simp_all add: statements_end del: statements.simps)
  from this [of i "11 - i"] sample_stop_statements assms
  obtain l where l: "statements i shutdown_step ?s = Some l" by fastforce
  from statements_shutdown_state [OF l sample_stop_start] assms l show ?thesis
    by (intro that [of l]) (simp_all add: sample_stop_def started_def lifecycle_new_def)
qed

lemma sample_stop_final: "14 \<le> i \<Longrightarrow> sample_stop i = sample_stop 14"
  by (simp add: sample_stop_def)

lemma sample_stop_step: "orderly_step 1 (sample_stop i) (sample_stop (Suc i)) \<or> sample_stop (Suc i) = sample_stop i"
proof -
  note sd = sample_stop_def sample_stopped_def started_def lifecycle_new_def
  consider "i < 11" | "i = 11" | "i = 12" | "i = 13" | "14 \<le> i" by linarith
  then show ?thesis
  proof cases
    case 1
    then obtain l where l: "statements i shutdown_step ((started 1)\<lparr>lc_stop := At_Mark\<rparr>) = Some l" "sample_stop i = l"
      "called_inv l" "stop_left (lc_stop l) = 11 - i" using sample_stop_shutdown [of i] by auto
    with 1 have "lc_stop l \<notin> {Not_Called, Stop_Returned}" by (auto simp: called_inv_def)
    with l(3) obtain l' where l': "orderly_step 1 l l'" "shutdown_step l = Some l'"
      using orderly_shutdown_step by (auto simp: called_inv_def)
    then have "statements (Suc i) shutdown_step ((started 1)\<lparr>lc_stop := At_Mark\<rparr>) = Some l'"
      unfolding statements_end l(1) by simp
    then have "sample_stop (Suc i) = l'" using 1 by (simp add: sample_stop_def del: statements.simps)
    with l' l(2) show ?thesis by simp
  next
    case 2
    have "sample_stop 11 = sample_stopped" using sample_stop_statements by (simp add: sample_stop_def)
    moreover have "life_step 1 sample_stopped (Some (sample_stop 12))"
      using life_step.leave [of 0 sample_stopped 1] by (simp add: sd)
    ultimately show ?thesis using 2 by (simp add: orderly_step_def life_next_def quiet_def sd)
  next
    case 3
    have "life_step 1 (sample_stop 12) (Some (sample_stop 13))"
      using life_step.schedule_leave [of "sample_stop 12" 1] by (simp add: sd)
    with 3 show ?thesis by (simp add: orderly_step_def life_next_def quiet_def sd)
  next
    case 4
    have "life_step 1 (sample_stop 13) (Some (sample_stop 14))"
      by (rule life_step.start) (simp_all add: sd start_step_def joined_def)
    with 4 show ?thesis by (simp add: orderly_step_def life_next_def quiet_def sd)
  next
    case 5
    then show ?thesis by (simp add: sample_stop_def)
  qed
qed

lemma sample_stop_fair: "fair_run (orderly_step 1) sample_stop"
proof -
  have final: "lc_main (sample_stop 14) = Start_Returned" by (simp add: sample_stop_def)
  have "\<exists>j>i. sample_stop j \<noteq> sample_stop i" if "orderly_step 1 (sample_stop i) l" "l \<noteq> sample_stop i" for i l
  proof (cases "14 \<le> i")
    case True
    have "called_inv (sample_stop 14)" "stopping_rank (sample_stop 14) = 0"
      by (simp_all add: called_inv_def stopping_inv_def quiet_def flags_inv_def stopping_rank_def polling_workers_def
          sample_stop_def sample_stopped_def started_def lifecycle_new_def)
    with that orderly_rank show ?thesis by (metis sample_stop_final [OF True] not_less_zero)
  next
    case False
    have "lc_main (sample_stop i) = At_Join"
    proof (cases "i \<le> 11")
      case True
      then show ?thesis using sample_stop_shutdown by metis
    next
      case False
      with \<open>\<not> 14 \<le> i\<close> show ?thesis by (auto simp: sample_stop_def sample_stopped_def started_def lifecycle_new_def)
    qed
    with final have "sample_stop 14 \<noteq> sample_stop i" by auto
    with False show ?thesis by (intro exI [of _ 14]) simp
  qed
  then show ?thesis using sample_stop_step by (auto simp: fair_run_def)
qed

text \<open>A run in which a request is forwarded and the server stops before its answer.\<close>

lemma forwarded_run:
  "\<exists>l. (life_next 1)\<^sup>*\<^sup>* (lifecycle_new 0) l \<and> lc_main l = Start_Returned \<and> lc_stop l = Stop_Returned
     \<and> 0 < lc_forwards l \<and> lc_ss l = Freed"
proof -
  let ?a = "(started 1)\<lparr>lc_receives := 0, lc_workers := [Before_Receive Forwarded]\<rparr>"
  let ?b = "(started 1)\<lparr>lc_workers := [After_Receive Forwarded]\<rparr>"
  let ?c = "(started 1)\<lparr>lc_forwards := 1\<rparr>"
  let ?d = "?c\<lparr>lc_stop := At_Mark\<rparr>"
  let ?e = "?c\<lparr>lc_state := 2, lc_aborted := 1, lc_receives := 0, lc_fired := 1, lc_waits := 0, lc_ic_stopped := True,
     lc_schedule_stopped := True, lc_open := False, lc_iw := Freed, lc_schedule_iw := Freed, lc_timer := Freed,
     lc_ss := Freed, lc_stop := Stop_Returned\<rparr>"
  let ?f = "?e\<lparr>lc_workers := [Left]\<rparr>"
  let ?g = "?f\<lparr>lc_scheduler := Sch_Left\<rparr>"
  let ?h = "?g\<lparr>lc_main := Start_Returned\<rparr>"
  note sd = started_def lifecycle_new_def
  have "life_step 1 (started 1) (Some ?a)"
    using life_step.datagram [of 0 "started 1" Forwarded 1] by (simp add: sd)
  moreover have "life_step 1 ?a (Some ?b)" by (rule life_step.worker [of 0]) (simp_all add: sd life_defs)
  moreover have "life_step 1 ?b (Some ?c)" by (rule life_step.worker [of 0]) (simp_all add: sd life_defs)
  moreover have "life_step 1 ?c (Some ?d)" by (rule life_step.call_shutdown) (simp add: sd)
  ultimately have "(life_next 1)\<^sup>*\<^sup>* (started 1) ?d"
    unfolding life_next_def [symmetric] by (meson rtranclp.rtrancl_into_rtrancl rtranclp.rtrancl_refl)
  moreover have "statements 11 shutdown_step ?d = Some ?e"
    by (simp add: numeral_eq_Suc life_defs sd)
  then have "(life_next 1)\<^sup>*\<^sup>* ?d ?e" by (rule shutdown_statements)
  moreover have "life_step 1 ?e (Some ?f)" using life_step.leave [of 0 ?e 1] by (simp add: sd)
  moreover have "life_step 1 ?f (Some ?g)" by (rule life_step.schedule_leave) (simp_all add: sd)
  moreover have "life_step 1 ?g (Some ?h)" by (rule life_step.start) (simp_all add: sd life_defs joined_def)
  ultimately have "(life_next 1)\<^sup>*\<^sup>* (lifecycle_new 0) ?h"
    unfolding life_next_def [symmetric] using started_run [of 1]
    by (meson rtranclp.rtrancl_into_rtrancl rtranclp_trans)
  moreover have "lc_main ?h = Start_Returned" "lc_stop ?h = Stop_Returned" "0 < lc_forwards ?h" "lc_ss ?h = Freed" by simp_all
  ultimately show ?thesis by blast
qed

section \<open>Properties\<close>

text \<open>
  \<open>start\<close> returns only after \<open>shutdown\<close> has stopped the context of the schedule, and with every thread
  gone, whatever the order of the steps of all threads.
\<close>

theorem start_returns_last:
  assumes "(life_next n)\<^sup>*\<^sup>* (lifecycle_new garbage) l" and "lc_main l = Start_Returned"
  shows "lc_workers l = replicate n Left \<and> lc_scheduler l = Sch_Left
           \<and> lc_stop l \<notin> {Not_Called, At_Mark, At_Cancel_Socket, At_Cancel_Timer, At_Stop, At_Stop_Schedule}"
proof -
  have "threads_inv n l" "flags_inv l"
    using lifecycle_machine.reachable [OF assms(1) threads_inv_init] stopped_flags.reachable [OF assms(1) flags_inv_init]
    by blast+
  with assms(2) have "joined l" "length (lc_workers l) = n" "stop_left (lc_stop l) < 7"
    by (auto simp: threads_inv_def joined_def flags_inv_def)
  then show ?thesis by (auto simp: joined_def list_all_iff intro: replicate_eqI)
qed

theorem start_returns_last_witness:
  "\<exists>l :: lifecycle. lc_workers l = replicate 1 Left \<and> lc_scheduler l = Sch_Left \<and> lc_main l = Start_Returned
     \<and> lc_stop l \<notin> {Not_Called, At_Mark, At_Cancel_Socket, At_Cancel_Timer, At_Stop, At_Stop_Schedule}"
proof -
  obtain l where l: "(life_next 1)\<^sup>*\<^sup>* (lifecycle_new 0) l" "lc_main l = Start_Returned" using forwarded_run by blast
  from start_returns_last [OF l] l(2) show ?thesis by blast
qed

text \<open>
  C21. The synchronisation that a stop needs. A run is orderly if \<open>shutdown\<close> is called when \<open>start\<close> waits for
  its threads, no handler is at work from then on, and no datagram was refused before. In an orderly run no
  released object is used and nothing is deleted twice. Once \<open>shutdown\<close> was called, every fair orderly run
  reaches a state from which on both calls have returned and every object is released; and such a run can
  be continued from every state.
\<close>

theorem orderly_shutdown:
  assumes "(orderly_step n)\<^sup>*\<^sup>* (lifecycle_new garbage) l"
  shows "\<not> life_step n l None
    \<and> (lc_stop l \<noteq> Not_Called \<longrightarrow>
         (\<forall>run. fair_run (orderly_step n) run \<and> run 0 = l \<longrightarrow> (\<exists>k. \<forall>j\<ge>k. all_returned (run j)))
       \<and> (\<exists>l'. (orderly_step n)\<^sup>*\<^sup>* l l' \<and> all_returned l'))"
proof (intro conjI impI)
  have inv: "orderly_inv l" using orderly.reachable [OF assms orderly_inv_init] .
  then show "\<not> life_step n l None"
    using running_no_fault stopping_safe by (auto simp: orderly_inv_def split: if_splits)
  assume "lc_stop l \<noteq> Not_Called"
  moreover have "flags_inv l" by (rule stopped_flags.reachable [OF orderly_life [OF assms] flags_inv_init])
  ultimately have called: "called_inv l" using inv by (simp add: called_inv_def orderly_inv_def)
  then show "\<forall>run. fair_run (orderly_step n) run \<and> run 0 = l \<longrightarrow> (\<exists>k. \<forall>j\<ge>k. all_returned (run j))"
    using stopping.finishes by blast
  show "\<exists>l'. (orderly_step n)\<^sup>*\<^sup>* l l' \<and> all_returned l'" using stopping.can_finish [OF called] .
qed

theorem orderly_shutdown_witness:
  "fair_run (orderly_step 1) sample_stop \<and> lc_stop (sample_stop 0) = At_Mark
     \<and> (\<exists>k. \<forall>j. all_returned (sample_stop (k + j))) \<and> \<not> all_returned (sample_stop 13)"
proof -
  have start: "sample_stop 0 = (started 1)\<lparr>lc_stop := At_Mark\<rparr>" by (simp add: sample_stop_def)
  have "(orderly_step 1)\<^sup>*\<^sup>* (lifecycle_new 0) (sample_stop 0)" unfolding start by (rule started_orderly)
  from orderly_shutdown [OF this] sample_stop_fair start obtain k where "\<forall>j\<ge>k. all_returned (sample_stop j)" by auto
  then have "\<exists>k. \<forall>j. all_returned (sample_stop (k + j))" by (intro exI [of _ k]) simp
  moreover have "\<not> all_returned (sample_stop 13)" by (simp add: sample_stop_def all_returned_def sample_stopped_def started_def lifecycle_new_def)
  ultimately show ?thesis using sample_stop_fair start by simp
qed

text \<open>
  When \<open>wait_start\<close> can return before a stop: after the step of \<open>start\<close> that counts the flag up, provided the
  flag was zero. If the memory held another value it returns at once; if it held 255, not even then.
\<close>

theorem wait_start_returns_iff:
  assumes "(life_next n)\<^sup>*\<^sup>* (lifecycle_new garbage) l" and "lc_stop l = Not_Called"
  shows "wait_start_returns l \<longleftrightarrow>
    (if lc_main l \<in> {At_Make_Timer, At_Schedule, At_Join, Start_Returned} then garbage \<noteq> 255 else garbage \<noteq> 0)"
proof -
  have "state_inv garbage (lifecycle_new garbage)" by (simp add: state_inv_def lifecycle_new_def counted_def)
  from started_flag.reachable [OF assms(1) this] assms(2)
  have "lc_state l = (if counted (lc_main l) then garbage + 1 else garbage)" by (simp add: state_inv_def)
  moreover have "garbage + 1 = 0 \<longleftrightarrow> garbage = 255"
  proof
    assume "garbage + 1 = 0"
    then have "garbage = - 1" by (simp add: eq_neg_iff_add_eq_0)
    then show "garbage = 255" by simp
  qed simp
  ultimately show ?thesis by (auto simp: wait_start_returns_def counted_def)
qed

theorem wait_start_returns_iff_witness:
  "(life_next 2)\<^sup>*\<^sup>* (lifecycle_new 0) (started 2) \<and> lc_stop (started 2) = Not_Called \<and> wait_start_returns (started 2)
   \<and> \<not> wait_start_returns (lifecycle_new 0) \<and> wait_start_returns (lifecycle_new 7)"
proof -
  have "lc_stop (started 2) = Not_Called" by (simp add: started_def lifecycle_new_def)
  with wait_start_returns_iff [OF started_run [of 2]] wait_start_returns_iff [OF rtranclp.rtrancl_refl, of 0]
    wait_start_returns_iff [OF rtranclp.rtrancl_refl, of 7] started_run [of 2] show ?thesis
    by (simp add: started_def lifecycle_new_def)
qed

text \<open>
  \<open>wait_start\<close> is no synchronisation for a stop: it can return while \<open>start\<close> has yet to create the timer
  of the schedule, and a stop that follows it uses the pointer before it is set.
\<close>

theorem stop_after_wait_start_faults:
  "\<exists>l l'. (life_next n)\<^sup>*\<^sup>* (lifecycle_new 0) l \<and> lc_stop l = Not_Called \<and> wait_start_returns l
     \<and> statements 2 shutdown_step (l\<lparr>lc_stop := At_Mark\<rparr>) = Some l' \<and> shutdown_step l' = None"
proof -
  let ?l = "(lifecycle_new 0)\<lparr>lc_state := 1, lc_iw := Live, lc_schedule_iw := Live, lc_receives := 1,
     lc_workers := replicate n Polling, lc_scheduler := Sch_Polling, lc_main := At_Make_Timer\<rparr>"
  let ?l' = "?l\<lparr>lc_state := 2, lc_aborted := 1, lc_receives := 0, lc_stop := At_Cancel_Timer\<rparr>"
  have "statements 4 (start_step n) (lifecycle_new 0) = Some ?l"
    by (simp add: numeral_eq_Suc life_defs lifecycle_new_def)
  then have "(life_next n)\<^sup>*\<^sup>* (lifecycle_new 0) ?l" by (rule start_statements)
  moreover have "statements 2 shutdown_step (?l\<lparr>lc_stop := At_Mark\<rparr>) = Some ?l'" "shutdown_step ?l' = None"
    "lc_stop ?l = Not_Called" "wait_start_returns ?l"
    by (simp_all add: numeral_eq_Suc life_defs lifecycle_new_def wait_start_returns_def)
  ultimately show ?thesis by blast
qed

text \<open>
  \<open>cancel\<close> completes the pending receive with an error. If a thread takes that handler before the context
  is stopped, the handler ends a session that has no question, and the server crashes during its stop.
\<close>

theorem cancelled_receive_faults:
  assumes "0 < lc_aborted l" and "i < length (lc_workers l)" and "lc_workers l ! i = Polling"
    and "\<not> lc_ic_stopped l" and "lc_ss l = Live"
  shows "\<exists>l1 l2. life_step n l (Some l1) \<and> worker_step i l1 = Some l2 \<and> worker_step i l2 = None"
proof -
  let ?l1 = "l\<lparr>lc_aborted := lc_aborted l - 1, lc_workers := (lc_workers l)[i := Before_Receive Aborted]\<rparr>"
  have "life_step n l (Some ?l1)" using assms by (intro life_step.aborted)
  moreover have "\<exists>l2. worker_step i ?l1 = Some l2 \<and> lc_workers l2 = (lc_workers l)[i := After_Receive Aborted]"
    using assms by (cases "lc_open l") (simp_all add: worker_step_def receive_call_def)
  then obtain l2 where "worker_step i ?l1 = Some l2" "lc_workers l2 = (lc_workers l)[i := After_Receive Aborted]" by blast
  moreover from this(2) have "worker_step i l2 = None" using assms by (simp add: worker_step_def)
  ultimately show ?thesis by blast
qed

theorem cancelled_receive_faults_witness:
  "\<exists>l l1 l2. (life_next 1)\<^sup>*\<^sup>* (lifecycle_new 0) l \<and> lc_stop l = At_Cancel_Timer
     \<and> life_step 1 l (Some l1) \<and> worker_step 0 l1 = Some l2 \<and> worker_step 0 l2 = None"
proof -
  let ?l = "(started 1)\<lparr>lc_state := 2, lc_aborted := 1, lc_receives := 0, lc_stop := At_Cancel_Timer\<rparr>"
  have "life_next 1 (started 1) ((started 1)\<lparr>lc_stop := At_Mark\<rparr>)"
    unfolding life_next_def by (rule life_step.call_shutdown) (simp add: started_def lifecycle_new_def)
  moreover have "statements 2 shutdown_step ((started 1)\<lparr>lc_stop := At_Mark\<rparr>) = Some ?l"
    by (simp add: numeral_eq_Suc life_defs started_def lifecycle_new_def)
  ultimately have "(life_next 1)\<^sup>*\<^sup>* (lifecycle_new 0) ?l"
    using started_run [of 1] shutdown_statements by (meson rtranclp.rtrancl_into_rtrancl rtranclp_trans)
  moreover have "\<exists>l1 l2. life_step 1 ?l (Some l1) \<and> worker_step 0 l1 = Some l2 \<and> worker_step 0 l2 = None"
    by (rule cancelled_receive_faults) (simp_all add: started_def lifecycle_new_def)
  moreover have "lc_stop ?l = At_Cancel_Timer" by simp
  ultimately show ?thesis by blast
qed

text \<open>
  The answer to a forwarded request arrives on the thread of the client, which no stop waits for: even
  after \<open>start\<close> and \<open>shutdown\<close> have both returned it makes the server send a reply on the deleted socket.
\<close>

theorem forwarded_answer_after_stop_faults:
  "\<exists>l. (life_next 1)\<^sup>*\<^sup>* (lifecycle_new 0) l \<and> lc_main l = Start_Returned \<and> lc_stop l = Stop_Returned \<and> life_step 1 l None"
proof -
  obtain l where l: "(life_next 1)\<^sup>*\<^sup>* (lifecycle_new 0) l" "lc_main l = Start_Returned" "lc_stop l = Stop_Returned"
    "0 < lc_forwards l" "lc_ss l = Freed" using forwarded_run by blast
  have "life_step 1 l None" by (rule life_step.forward_answer [OF l(4)]) (simp add: send_reply_def l(5))
  with l show ?thesis by blast
qed

end
