(* ===== verification/Dns_Server.thy ===== *)
theory Dns_Server
  imports Dns_Client Record_Manager Task_Queue "HOL-Library.Signed_Division"
begin

text \<open>
  The server, \<open>src/core/dns_server.h\<close>, \<open>dns_server.cpp\<close>, \<open>session.h\<close> and \<open>session.cpp\<close>: receiving a
  datagram, answering it from the cache, dropping or forwarding it, and keeping the cache fresh
  through the task queue.

  A session is in one of three stages while the server waits for an event on it: the timer of
  100 ms after a miss, the answer to a forwarded request, or the completion of its reply. The
  bytes handed to the socket are collected with the id of the session. An operation is \<open>None\<close> when
  it dereferences a null pointer, accesses memory out of bounds or lets an exception escape.
  Logging and the measurements of the logger are not modelled.
\<close>

section \<open>Model\<close>

subsection \<open>Sessions\<close>

datatype process_type = QUERY | FORWARD | DROP

record session =
  se_id :: nat
  se_time :: nat
  se_request :: udp_request
  se_record :: dns_record
  se_type :: process_type
  se_response :: "udp_response option"

definition session_new :: "nat \<Rightarrow> session" where
  "session_new ident = \<lparr>se_id = ident, se_time = 0, se_request = udp_request_alloc 1024, se_record = dns_record_empty,
     se_type = QUERY, se_response = None\<rparr>"

definition session_get_host :: "session \<Rightarrow> string" where
  "session_get_host se = udp_request_get_host (se_request se)"

definition session_get_query_type :: "session \<Rightarrow> u16 option" where
  "session_get_query_type se = udp_request_get_query_type (se_request se)"

datatype stage = Waiting_Cache | Waiting_Forward | Responding

subsection \<open>The server\<close>

text \<open>The libraries and orders that the cache depends on.\<close>

record 'd server_env =
  en_db :: "'d leveldb_ops"
  en_values :: value_codec
  en_records :: records_codec
  en_regex :: regex_match
  en_sort :: "dns_ip_record list \<Rightarrow> dns_ip_record list"
  en_shuffle :: "u32 list \<Rightarrow> u32 list"
  en_areas :: "string list"

text \<open>
  The payload of a synchronisation task is a domain and a server. The code keeps a pointer to the
  server; its only field that changes is read back from the configuration when the task runs.
\<close>

record 'd dns_server =
  ds_config :: config
  ds_records :: "'d dns_record_manager"
  ds_areas :: area_manager
  ds_tasks :: "(string \<times> remote_dns_server) queue_system"
  ds_rid :: nat
  ds_counter :: nat
  ds_receiving :: session
  ds_sessions :: "(session \<times> stage) list"
  ds_sent :: "(nat \<times> u8 list) list"

definition dns_server_new :: "config \<Rightarrow> 'd dns_record_manager \<Rightarrow> area_manager \<Rightarrow> nat \<Rightarrow> nat \<Rightarrow> 'd dns_server" where
  "dns_server_new conf rm m gen now = \<lparr>ds_config = conf, ds_records = rm, ds_areas = m, ds_tasks = queue_init 100 100 gen,
     ds_rid = now + 1, ds_counter = 0, ds_receiving = session_new now, ds_sessions = [], ds_sent = []\<rparr>"

definition cal_expire :: "config \<Rightarrow> dns_record \<Rightarrow> u32" where
  "cal_expire conf record =
     (let expire = cf_cache_expire conf;
          expire = (if \<not> dr_match_area record then 1 else expire);
          expire = max expire (1 * 10)
      in min expire (10 * 60))"

subsection \<open>The cache\<close>

definition server_resolve :: "'d server_env \<Rightarrow> nat \<Rightarrow> string \<Rightarrow> 'd dns_server \<Rightarrow> (dns_record \<times> 'd dns_server) option" where
  "server_resolve E now dn srv = do {
     (record, rm, m) \<leftarrow> record_manager_resolve (en_db E) (en_values E) (en_records E) (en_regex E) (en_sort E)
        (en_shuffle E) now (en_areas E) (cf_servers (ds_config srv)) dn (ds_records srv) (ds_areas srv);
     Some (record, srv\<lparr>ds_records := rm, ds_areas := m\<rparr>) }"

definition query_record_from_cache :: "'d server_env \<Rightarrow> nat \<Rightarrow> string \<Rightarrow> 'd dns_server \<Rightarrow> (dns_record \<times> 'd dns_server) option" where
  "query_record_from_cache E now host srv = do {
     (record, srv1) \<leftarrow> server_resolve E now host srv;
     if dr_ips record = [] then
       (let fiDomain = getFIDomain host in
        if fiDomain = ''LAN'' \<or> fiDomain = ''lan'' then do {
          (record2, srv2) \<leftarrow> server_resolve E now (removeFIDomain host) srv1;
          Some (record2\<lparr>dr_domain := host\<rparr>, srv2) }
        else Some (record, srv1))
     else Some (record, srv1) }"

subsection \<open>Synchronisation\<close>

definition MAX_PRIORITY :: nat where
  "MAX_PRIORITY = 100"

text \<open>The loop that submits one task per server, with a \<open>uint32_t\<close> priority that counts down.\<close>

fun submit_servers :: "string \<Rightarrow> nat \<Rightarrow> remote_dns_server list \<Rightarrow> 'd dns_server \<Rightarrow> 'd dns_server" where
  "submit_servers dn priority [] srv = srv"
| "submit_servers dn priority (server # servers) srv =
     (let (task, gen) = priority_task_new (dn, server) priority (dn @ ''/'' @ server_id server) (qs_gen (ds_tasks srv));
          (ok, q) = queue_submit task (qs_queue (ds_tasks srv))
      in submit_servers dn (minus_u32 priority 1) servers
           (srv\<lparr>ds_tasks := (ds_tasks srv)\<lparr>qs_queue := q, qs_gen := gen\<rparr>\<rparr>))"

definition sync_dns_record_from_remote :: "'d server_env \<Rightarrow> string \<Rightarrow> 'd dns_server \<Rightarrow> 'd dns_server option" where
  "sync_dns_record_from_remote E dn srv = do {
     servers \<leftarrow> select_servers (en_regex E) dn (cf_servers (ds_config srv));
     Some (if servers = [] then srv else submit_servers dn MAX_PRIORITY servers srv) }"

definition sync_loss_dns_record_from_remote :: "'d server_env \<Rightarrow> string \<Rightarrow> dns_record \<Rightarrow> 'd dns_server \<Rightarrow> 'd dns_server option" where
  "sync_loss_dns_record_from_remote E host record srv = do {
     servers \<leftarrow> select_servers (en_regex E) host (cf_servers (ds_config srv));
     Some (submit_servers host MAX_PRIORITY (filter (\<lambda>server. server_id server \<notin> set (dr_servers record)) servers) srv) }"

text \<open>
  What a running task asks of the client, and what the handler of its answer does. The handler
  reports completion to the queue; the task is then no longer among the started ones.
\<close>

datatype remote_call =
    Tcp_Tls_Dns string string int int "(string \<times> u16) list"
  | Tcp_Dns string string int int "(string \<times> u16) list"
  | Udp_Dns string string int int
  | No_Call

definition sync_from_server :: "config \<Rightarrow> string \<times> remote_dns_server \<Rightarrow> remote_call" where
  "sync_from_server conf task_input =
     (let (host, server) = task_input;
          areas = (case find (\<lambda>s. server_id s = server_id server) (cf_servers conf) of
              Some s \<Rightarrow> resolve_optimize_areas s | None \<Rightarrow> resolve_optimize_areas server)
      in if sv_type server = ''TCP_SSL'' then Tcp_Tls_Dns host (sv_ip server) (sv_port server) (sv_timeout server) areas
         else if sv_type server = ''TCP'' then Tcp_Dns host (sv_ip server) (sv_port server) (sv_timeout server) areas
         else if sv_type server = ''UDP'' then Udp_Dns host (sv_ip server) (sv_port server) (sv_timeout server)
         else No_Call)"

definition multi_area_complete_handler ::
  "'d server_env \<Rightarrow> nat \<Rightarrow> (string \<times> remote_dns_server) priority_task \<Rightarrow> u32 list \<Rightarrow> bool \<Rightarrow> 'd dns_server \<Rightarrow> 'd dns_server option" where
  "multi_area_complete_handler E now task ips load_all srv = do {
     let (host, server) = t_in task;
     let srv1 =
       (if ips \<noteq> [] then
          (let (rm, m) = record_manager_add (en_db E) (en_values E) (en_records E) now host ips (server_id server)
                 (if load_all then sv_cache_expire server else sv_cache_expire server sdiv 2) (ds_records srv) (ds_areas srv)
           in srv\<lparr>ds_records := rm, ds_areas := m\<rparr>)
        else srv);
     (record, srv2) \<leftarrow> server_resolve E now host srv1;
     Some (srv2\<lparr>ds_tasks := (ds_tasks srv2)\<lparr>qs_queue := queue_complete task (qs_queue (ds_tasks srv2)),
                                            qs_started := remove1 task (qs_started (ds_tasks srv2))\<rparr>\<rparr>) }"

subsection \<open>Answering\<close>

text \<open>The \<open>complete\<close> handler of \<open>process_session\<close>: build a response unless there is one, and send it.\<close>

definition session_complete :: "session \<Rightarrow> 'd dns_server \<Rightarrow> (session \<times> stage \<times> 'd dns_server) option" where
  "session_complete se srv = do {
     resp \<leftarrow> (case se_response se of
         None \<Rightarrow> udp_response_new (se_request se) (dr_ips (se_record se)) (cal_expire (ds_config srv) (se_record se))
       | Some resp \<Rightarrow> Some resp);
     Some (se\<lparr>se_response := Some resp\<rparr>, Responding,
           srv\<lparr>ds_sent := ds_sent srv @ [(se_id se, take (rs_len resp) (drop (rs_data resp) (rs_buf resp)))]\<rparr>) }"

text \<open>The one of \<open>query_dns_record\<close> builds the response first.\<close>

definition query_complete :: "session \<Rightarrow> 'd dns_server \<Rightarrow> (session \<times> stage \<times> 'd dns_server) option" where
  "query_complete se srv = do {
     resp \<leftarrow> udp_response_new (se_request se) (dr_ips (se_record se)) (cal_expire (ds_config srv) (se_record se));
     session_complete (se\<lparr>se_response := Some resp\<rparr>) srv }"

definition query_dns_record :: "'d server_env \<Rightarrow> nat \<Rightarrow> session \<Rightarrow> 'd dns_server \<Rightarrow> (session \<times> stage \<times> 'd dns_server) option" where
  "query_dns_record E now se srv =
     (let host = session_get_host se in
      if host = ''localhost'' then
        query_complete (se\<lparr>se_record := (se_record se)\<lparr>dr_server := ''st-dns'', dr_domain := host,
                          dr_expire_time := 2 ^ 64 - 1\<rparr>\<rparr>) srv
      else do {
        (record, srv1) \<leftarrow> query_record_from_cache E now host srv;
        if dr_ips record = [] then do {
          srv2 \<leftarrow> sync_dns_record_from_remote E host srv1;
          Some (se, Waiting_Cache, srv2) }
        else do {
          (se1, stage, srv2) \<leftarrow> query_complete (se\<lparr>se_record := record\<rparr>) srv1;
          srv3 \<leftarrow> (if dr_expire record \<or> \<not> dr_match_area record
                   then sync_dns_record_from_remote E host srv2
                   else sync_loss_dns_record_from_remote E host record srv2);
          Some (se1, stage, srv3) } })"

definition cache_timer :: "'d server_env \<Rightarrow> nat \<Rightarrow> session \<Rightarrow> 'd dns_server \<Rightarrow> (session \<times> stage \<times> 'd dns_server) option" where
  "cache_timer E now se srv = do {
     (record, srv1) \<leftarrow> query_record_from_cache E now (session_get_host se) srv;
     query_complete (se\<lparr>se_record := record\<rparr>) srv1 }"

definition forward_dns_request :: "session \<Rightarrow> 'd dns_server \<Rightarrow> (session \<times> stage \<times> 'd dns_server) option" where
  "forward_dns_request se srv =
     (case find (\<lambda>it. sv_type it = ''UDP'') (cf_servers (ds_config srv)) of
        Some server \<Rightarrow> Some (se, Waiting_Forward, srv)
      | None \<Rightarrow> session_complete se srv)"

text \<open>The callback of \<open>forward_udp\<close>: \<open>None\<close> is the null response of a failure.\<close>

definition forward_callback :: "u8 list option \<Rightarrow> session \<Rightarrow> 'd dns_server \<Rightarrow> (session \<times> stage \<times> 'd dns_server) option" where
  "forward_callback answer se srv = do {
     response \<leftarrow> (case answer of
         None \<Rightarrow> Some None
       | Some bytes \<Rightarrow> map_option (\<lambda>buf. Some (udp_response_at buf 0 (length bytes))) (wr_n (replicate 1024 0) 0 bytes));
     session_complete (se\<lparr>se_response := response\<rparr>) srv }"

definition process_session :: "'d server_env \<Rightarrow> nat \<Rightarrow> session \<Rightarrow> 'd dns_server \<Rightarrow> (session \<times> stage \<times> 'd dns_server) option" where
  "process_session E now se srv = do {
     let se1 = se\<lparr>se_record := (se_record se)\<lparr>dr_domain := session_get_host se\<rparr>\<rparr>;
     query_type \<leftarrow> session_get_query_type se1;
     if query_type = type_A then query_dns_record E now se1 srv
     else if query_type = type_AAAA then session_complete (se1\<lparr>se_type := DROP\<rparr>) srv
     else forward_dns_request (se1\<lparr>se_type := FORWARD\<rparr>) srv }"

text \<open>\<open>end_session\<close> reads the query type again; it reports success and releases the session.\<close>

definition end_session :: "'d server_env \<Rightarrow> session \<Rightarrow> 'd dns_server \<Rightarrow> (bool \<times> 'd dns_server) option" where
  "end_session E se srv = do {
     let success = (se_response se \<noteq> None \<and> (se_type se = QUERY \<longrightarrow> dr_ips (se_record se) \<noteq> []));
     let m = (case se_response se of
         None \<Rightarrow> ds_areas srv
       | Some resp \<Rightarrow>
           (let (a, m1) = fist_ip_area (en_areas E) resp (ds_areas srv); (as, m2) = ip_areas (en_areas E) (rs_ips resp) m1
            in m2));
     query_type \<leftarrow> session_get_query_type se;
     Some (success, srv\<lparr>ds_areas := m\<rparr>) }"

text \<open>\<open>receive\<close> prepares the next session; its handler gets an error or the bytes of a datagram.\<close>

definition receive :: "'d dns_server \<Rightarrow> 'd dns_server" where
  "receive srv = srv\<lparr>ds_receiving := session_new (ds_rid srv), ds_rid := ds_rid srv + 1\<rparr>"

definition receive_handler :: "'d server_env \<Rightarrow> io_error option \<Rightarrow> nat \<Rightarrow> u8 list \<Rightarrow> 'd dns_server \<Rightarrow> 'd dns_server option" where
  "receive_handler E errorCode now bytes srv = do {
     let se0 = ds_receiving srv;
     let srv1 = receive srv;
     let srv2 = srv1\<lparr>ds_counter := ds_counter srv1 + 1\<rparr>;
     buf \<leftarrow> wr_n (rq_buf (se_request se0)) 0 bytes;
     let se1 = se0\<lparr>se_time := now, se_request := (se_request se0)\<lparr>rq_buf := buf\<rparr>\<rparr>;
     if errorCode = None \<and> 0 < length bytes then do {
       (request, parsed) \<leftarrow> udp_request_parse (se_request se1) (length bytes);
       let se2 = se1\<lparr>se_request := request\<rparr>;
       if parsed then do {
         (se3, stage, srv3) \<leftarrow> process_session E now se2 srv2;
         Some (srv3\<lparr>ds_sessions := (se3, stage) # ds_sessions srv3\<rparr>) }
       else map_option snd (end_session E se2 srv2) }
     else map_option snd (end_session E se1 srv2) }"

section \<open>Steps\<close>

text \<open>
  The events of a running server: a datagram or an error on its socket, the timer of a session,
  the answer to a forwarded request, the completion of a reply, a round or a tick of the task
  queue, and the answer of an upstream server to a running task.
\<close>

inductive server_step :: "'d server_env \<Rightarrow> 'd dns_server \<Rightarrow> 'd dns_server \<Rightarrow> bool" for E where
  datagram: "length bytes \<le> 1024 \<Longrightarrow> receive_handler E errorCode now bytes srv = Some srv' \<Longrightarrow> server_step E srv srv'"
| timer: "ds_sessions srv = ses1 @ (se, Waiting_Cache) # ses2 \<Longrightarrow>
    cache_timer E now se (srv\<lparr>ds_sessions := ses1 @ ses2\<rparr>) = Some (se', stage, srv') \<Longrightarrow>
    server_step E srv (srv'\<lparr>ds_sessions := (se', stage) # ds_sessions srv'\<rparr>)"
| forwarded: "ds_sessions srv = ses1 @ (se, Waiting_Forward) # ses2 \<Longrightarrow>
    forward_callback answer se (srv\<lparr>ds_sessions := ses1 @ ses2\<rparr>) = Some (se', stage, srv') \<Longrightarrow>
    server_step E srv (srv'\<lparr>ds_sessions := (se', stage) # ds_sessions srv'\<rparr>)"
| responded: "ds_sessions srv = ses1 @ (se, Responding) # ses2 \<Longrightarrow>
    end_session E se (srv\<lparr>ds_sessions := ses1 @ ses2\<rparr>) = Some (ok, srv') \<Longrightarrow> server_step E srv srv'"
| tick: "server_step E srv (srv\<lparr>ds_tasks := (ds_tasks srv)\<lparr>qs_queue := generate_key (qs_queue (ds_tasks srv))\<rparr>\<rparr>)"
| dispatch: "heap_top top_of \<Longrightarrow> queue_dispatch top_of (qs_queue (ds_tasks srv)) = Some q \<Longrightarrow>
    server_step E srv (srv\<lparr>ds_tasks := (ds_tasks srv)\<lparr>qs_queue := q\<rparr>\<rparr>)"
| start: "posted (qs_queue (ds_tasks srv)) = task # rest \<Longrightarrow>
    server_step E srv (srv\<lparr>ds_tasks := (ds_tasks srv)\<lparr>qs_queue := (qs_queue (ds_tasks srv))\<lparr>posted := rest\<rparr>,
                                                     qs_started := task # qs_started (ds_tasks srv)\<rparr>\<rparr>)"
| answer: "task \<in> set (qs_started (ds_tasks srv)) \<Longrightarrow> sync_from_server (ds_config srv) (t_in task) \<noteq> No_Call \<Longrightarrow>
    multi_area_complete_handler E now task ips load_all srv = Some srv' \<Longrightarrow> server_step E srv srv'"

inductive_cases server_step_elim: "server_step E srv srv'"

section \<open>Frames\<close>

text \<open>What the operations leave alone.\<close>

definition same_sessions :: "'d dns_server \<Rightarrow> 'd dns_server \<Rightarrow> bool" where
  "same_sessions srv srv' \<longleftrightarrow> ds_config srv' = ds_config srv \<and> ds_rid srv' = ds_rid srv \<and> ds_receiving srv' = ds_receiving srv
     \<and> ds_sessions srv' = ds_sessions srv \<and> ds_sent srv' = ds_sent srv"

lemma same_sessions_refl [simp]: "same_sessions srv srv"
  by (simp add: same_sessions_def)

lemma same_sessions_trans [trans]: "same_sessions a b \<Longrightarrow> same_sessions b c \<Longrightarrow> same_sessions a c"
  by (simp add: same_sessions_def)

lemma server_resolve_same: "server_resolve E now dn srv = Some (r, srv') \<Longrightarrow> same_sessions srv srv' \<and> ds_tasks srv' = ds_tasks srv"
  by (auto simp: server_resolve_def same_sessions_def bind_eq_Some_conv)

lemma query_record_same:
  "query_record_from_cache E now dn srv = Some (r, srv') \<Longrightarrow> same_sessions srv srv' \<and> ds_tasks srv' = ds_tasks srv"
  by (auto simp: query_record_from_cache_def bind_eq_Some_conv Let_def split: if_splits
      dest!: server_resolve_same intro: same_sessions_trans)

lemma submit_servers_same:
  "same_sessions srv (submit_servers dn p servers srv) \<and> ds_records (submit_servers dn p servers srv) = ds_records srv
     \<and> ds_areas (submit_servers dn p servers srv) = ds_areas srv"
  by (induction dn p servers srv rule: submit_servers.induct) (auto simp: same_sessions_def Let_def split: prod.splits)

lemma sync_same: "sync_dns_record_from_remote E dn srv = Some srv' \<Longrightarrow> same_sessions srv srv'"
  by (auto simp: sync_dns_record_from_remote_def bind_eq_Some_conv submit_servers_same)

lemma sync_loss_same: "sync_loss_dns_record_from_remote E dn r srv = Some srv' \<Longrightarrow> same_sessions srv srv'"
  by (auto simp: sync_loss_dns_record_from_remote_def bind_eq_Some_conv submit_servers_same)

section \<open>One reply per session\<close>

text \<open>
  A handler of a session either leaves it waiting and sends nothing, or sends one reply under its
  id and leaves it responding.
\<close>

definition one_reply :: "session \<Rightarrow> 'd dns_server \<Rightarrow> session \<times> stage \<times> 'd dns_server \<Rightarrow> bool" where
  "one_reply se srv res \<longleftrightarrow> (case res of (se', stage, srv') \<Rightarrow>
     se_id se' = se_id se \<and> se_request se' = se_request se \<and> ds_rid srv' = ds_rid srv \<and> ds_receiving srv' = ds_receiving srv
     \<and> ds_config srv' = ds_config srv \<and> ds_sessions srv' = ds_sessions srv
     \<and> (if stage = Responding then \<exists>bs. ds_sent srv' = ds_sent srv @ [(se_id se, bs)] else ds_sent srv' = ds_sent srv))"

lemma one_reply_before: "same_sessions srv srv1 \<Longrightarrow> one_reply se srv1 res \<Longrightarrow> one_reply se srv res"
  by (auto simp: one_reply_def same_sessions_def split: prod.splits if_splits)

lemma one_reply_after: "one_reply se srv (se', stage, srv1) \<Longrightarrow> same_sessions srv1 srv2 \<Longrightarrow> one_reply se srv (se', stage, srv2)"
  by (auto simp: one_reply_def same_sessions_def split: if_splits)

lemma one_reply_session: "one_reply (se\<lparr>se_record := r\<rparr>) srv res \<Longrightarrow> one_reply se srv res"
  "one_reply (se\<lparr>se_type := t\<rparr>) srv res \<Longrightarrow> one_reply se srv res"
  "one_reply (se\<lparr>se_response := x\<rparr>) srv res \<Longrightarrow> one_reply se srv res"
  by (auto simp: one_reply_def split: prod.splits if_splits)

lemma session_complete_reply: "session_complete se srv = Some res \<Longrightarrow> one_reply se srv res"
  by (auto simp: session_complete_def one_reply_def bind_eq_Some_conv)

lemma query_complete_reply: "query_complete se srv = Some res \<Longrightarrow> one_reply se srv res"
  by (auto simp: query_complete_def bind_eq_Some_conv dest!: session_complete_reply intro: one_reply_session)

lemma query_dns_record_reply: "query_dns_record E now se srv = Some res \<Longrightarrow> one_reply se srv res"
proof (cases "session_get_host se = ''localhost''")
  case True
  assume "query_dns_record E now se srv = Some res"
  with True show ?thesis
    by (auto simp: query_dns_record_def Let_def dest!: query_complete_reply intro: one_reply_session)
next
  case False
  assume run: "query_dns_record E now se srv = Some res"
  with False obtain r srv1 where q: "query_record_from_cache E now (session_get_host se) srv = Some (r, srv1)"
    by (auto simp: query_dns_record_def Let_def bind_eq_Some_conv)
  note same = query_record_same [OF q, THEN conjunct1]
  show ?thesis
  proof (cases "dr_ips r = []")
    case True
    with run False q obtain srv2 where "sync_dns_record_from_remote E (session_get_host se) srv1 = Some srv2"
      "res = (se, Waiting_Cache, srv2)"
      by (auto simp: query_dns_record_def Let_def bind_eq_Some_conv)
    with same sync_same show ?thesis by (fastforce simp: one_reply_def same_sessions_def)
  next
    case ips: False
    with run False q obtain se1 stage srv2 srv3 where
      c: "query_complete (se\<lparr>se_record := r\<rparr>) srv1 = Some (se1, stage, srv2)" and res: "res = (se1, stage, srv3)"
      and "(if dr_expire r \<or> \<not> dr_match_area r then sync_dns_record_from_remote E (session_get_host se) srv2
            else sync_loss_dns_record_from_remote E (session_get_host se) r srv2) = Some srv3"
      by (auto simp: query_dns_record_def Let_def bind_eq_Some_conv)
    then have "same_sessions srv2 srv3" using sync_same sync_loss_same by (auto split: if_splits)
    with one_reply_session(1) [OF query_complete_reply [OF c]] res same show ?thesis
      by (blast intro: one_reply_before one_reply_after)
  qed
qed

lemma cache_timer_reply: "cache_timer E now se srv = Some res \<Longrightarrow> one_reply se srv res"
  by (auto simp: cache_timer_def bind_eq_Some_conv dest!: query_complete_reply query_record_same
      intro: one_reply_before one_reply_session)

lemma forward_dns_request_reply: "forward_dns_request se srv = Some res \<Longrightarrow> one_reply se srv res"
  by (auto simp: forward_dns_request_def one_reply_def [of _ _ "(se, Waiting_Forward, srv)"] dest!: session_complete_reply
      split: option.splits)

lemma forward_callback_reply: "forward_callback a se srv = Some res \<Longrightarrow> one_reply se srv res"
  by (auto simp: forward_callback_def bind_eq_Some_conv dest!: session_complete_reply intro: one_reply_session)

lemma process_session_reply: "process_session E now se srv = Some res \<Longrightarrow> one_reply se srv res"
  by (auto simp: process_session_def Let_def bind_eq_Some_conv split: if_splits
      dest!: query_dns_record_reply session_complete_reply forward_dns_request_reply intro: one_reply_session)

text \<open>
  The invariant on sessions: the ids of open sessions and of sent replies are smaller than that of
  the session that receives, no session is open twice, no reply is sent twice, and an open session
  is responding iff its reply was sent.
\<close>

abbreviation session_ids :: "(session \<times> stage) list \<Rightarrow> nat list" where
  "session_ids ses \<equiv> map (\<lambda>x. se_id (fst x)) ses"

definition open_inv :: "nat \<Rightarrow> (session \<times> stage) list \<Rightarrow> (nat \<times> u8 list) list \<Rightarrow> bool" where
  "open_inv n ses sent \<longleftrightarrow> distinct (session_ids ses) \<and> distinct (map fst sent)
     \<and> (\<forall>i \<in> set (session_ids ses). i < n) \<and> (\<forall>i \<in> fst ` set sent. i < n)
     \<and> (\<forall>x \<in> set ses. snd x = Responding \<longleftrightarrow> se_id (fst x) \<in> fst ` set sent)"

definition session_inv :: "'d dns_server \<Rightarrow> bool" where
  "session_inv srv \<longleftrightarrow> ds_rid srv = Suc (se_id (ds_receiving srv))
     \<and> open_inv (se_id (ds_receiving srv)) (ds_sessions srv) (ds_sent srv)"

lemma open_inv_add:
  assumes inv: "open_inv n ses sent" and i: "se_id se = i" "i < n" and fresh: "i \<notin> set (session_ids ses)" "i \<notin> fst ` set sent"
    and sent: "if stage = Responding then \<exists>bs. sent' = sent @ [(i, bs)] else sent' = sent"
  shows "open_inv n ((se, stage) # ses) sent'"
proof (cases "stage = Responding")
  case False
  with assms show ?thesis by (simp add: open_inv_def)
next
  case True
  with sent have ids: "set (map fst sent') = insert i (fst ` set sent)" "distinct (map fst sent') = distinct (map fst sent)"
    using fresh(2) by auto
  have "\<forall>x \<in> set ses. se_id (fst x) \<noteq> i" using fresh(1) by auto
  with inv have "\<forall>x \<in> set ses. snd x = Responding \<longleftrightarrow> se_id (fst x) \<in> insert i (fst ` set sent)"
    by (simp add: open_inv_def)
  with True inv i fresh(1) ids show ?thesis unfolding open_inv_def set_map by simp
qed

lemma open_inv_mono: "open_inv n ses sent \<Longrightarrow> n \<le> n' \<Longrightarrow> open_inv n' ses sent"
  unfolding open_inv_def by (auto intro: less_le_trans)

lemma open_inv_drop: "open_inv n (ses1 @ x # ses2) sent \<Longrightarrow> open_inv n (ses1 @ ses2) sent"
  unfolding open_inv_def by auto

lemma open_inv_reply:
  assumes "open_inv n (ses1 @ (se, stage0) # ses2) sent" and "stage0 \<noteq> Responding" and "se_id se' = se_id se"
    and "if stage = Responding then \<exists>bs. sent' = sent @ [(se_id se, bs)] else sent' = sent"
  shows "open_inv n ((se', stage) # ses1 @ ses2) sent'"
  using open_inv_drop [OF assms(1)] assms(3) _ _ _ assms(4) by (rule open_inv_add) (use assms(1,2) in \<open>auto simp: open_inv_def\<close>)

lemma open_inv_new:
  assumes "open_inv n ses sent" and "se_id se = n" and "n < n'"
    and "if stage = Responding then \<exists>bs. sent' = sent @ [(n, bs)] else sent' = sent"
  shows "open_inv n' ((se, stage) # ses) sent'"
  using open_inv_mono [OF assms(1) less_imp_le [OF assms(3)]] assms(2,3) _ _ assms(4)
  by (rule open_inv_add) (use assms(1) in \<open>auto simp: open_inv_def\<close>)

lemma end_session_same: "end_session E se srv = Some (ok, srv') \<Longrightarrow> same_sessions srv srv' \<and> ds_tasks srv' = ds_tasks srv"
  by (auto simp: end_session_def bind_eq_Some_conv Let_def same_sessions_def)

text \<open>A datagram is either processed as the request that it parses to, or its session is ended.\<close>

definition after_receive :: "'d dns_server \<Rightarrow> 'd dns_server" where
  "after_receive srv = (receive srv)\<lparr>ds_counter := ds_counter (receive srv) + 1\<rparr>"

lemma receive_handler_cases:
  assumes "receive_handler E ec now bytes srv = Some srv'"
  obtains (ended) se ok where "end_session E se (after_receive srv) = Some (ok, srv')" "se_id se = se_id (ds_receiving srv)"
  | (processed) se se' stage srv3 where "process_session E now se (after_receive srv) = Some (se', stage, srv3)"
      "se_id se = se_id (ds_receiving srv)" "srv' = srv3\<lparr>ds_sessions := (se', stage) # ds_sessions srv3\<rparr>"
proof -
  from assms obtain buf where buf: "wr_n (rq_buf (se_request (ds_receiving srv))) 0 bytes = Some buf"
    by (auto simp: receive_handler_def Let_def bind_eq_Some_conv)
  define se1 where "se1 = (ds_receiving srv)\<lparr>se_time := now, se_request := (se_request (ds_receiving srv))\<lparr>rq_buf := buf\<rparr>\<rparr>"
  have id1: "se_id se1 = se_id (ds_receiving srv)" by (simp add: se1_def)
  note run = assms [unfolded receive_handler_def Let_def buf bind.bind_lunit, folded after_receive_def se1_def]
  show thesis
  proof (cases "ec = None \<and> 0 < length bytes")
    case False
    with run obtain ok where "end_session E se1 (after_receive srv) = Some (ok, srv')" by auto
    then show thesis using id1 by (rule ended)
  next
    case True
    with run obtain request parsed where p: "udp_request_parse (se_request se1) (length bytes) = Some (request, parsed)"
      by (auto simp: bind_eq_Some_conv)
    show thesis
    proof (cases parsed)
      case False
      with run True p obtain ok where "end_session E (se1\<lparr>se_request := request\<rparr>) (after_receive srv) = Some (ok, srv')"
        by auto
      then show thesis using id1 by (intro ended [of "se1\<lparr>se_request := request\<rparr>" ok]) simp_all
    next
      case ok: True
      with run True p obtain se' stage srv3 where
        "process_session E now (se1\<lparr>se_request := request\<rparr>) (after_receive srv) = Some (se', stage, srv3)"
        "srv' = srv3\<lparr>ds_sessions := (se', stage) # ds_sessions srv3\<rparr>" by (auto simp: bind_eq_Some_conv)
      then show thesis using id1 by (intro processed [of "se1\<lparr>se_request := request\<rparr>" se' stage srv3]) simp_all
    qed
  qed
qed

lemma receive_handler_inv:
  assumes "receive_handler E ec now bytes srv = Some srv'" and "session_inv srv"
  shows "session_inv srv'"
proof -
  let ?n = "se_id (ds_receiving srv)" and ?s = "after_receive srv"
  have s: "ds_rid ?s = Suc (ds_rid srv)" "se_id (ds_receiving ?s) = Suc ?n" "ds_sessions ?s = ds_sessions srv"
    "ds_sent ?s = ds_sent srv"
    using assms(2) by (simp_all add: after_receive_def receive_def session_new_def session_inv_def)
  have inv: "session_inv ?s" using assms(2) s by (auto simp: session_inv_def intro: open_inv_mono)
  from assms(1) show ?thesis
  proof (cases rule: receive_handler_cases)
    case (ended se ok)
    with end_session_same [OF ended(1)] inv show ?thesis by (auto simp: same_sessions_def session_inv_def)
  next
    case (processed se se' stage srv3)
    have reply: "one_reply se ?s (se', stage, srv3)" by (rule process_session_reply [OF processed(1)])
    have "open_inv (Suc ?n) ((se', stage) # ds_sessions srv) (ds_sent srv3)"
      using assms(2) reply processed(2) s
      by (intro open_inv_new [of ?n _ "ds_sent srv"]) (auto simp: session_inv_def one_reply_def)
    with reply s processed(3) assms(2) show ?thesis by (simp add: session_inv_def one_reply_def)
  qed
qed

lemma handled_inv:
  assumes "ds_sessions srv = ses1 @ (se, stage0) # ses2" and "stage0 \<noteq> Responding" and "session_inv srv"
    and "one_reply se (srv\<lparr>ds_sessions := ses1 @ ses2\<rparr>) (se', stage, srv')"
  shows "session_inv (srv'\<lparr>ds_sessions := (se', stage) # ds_sessions srv'\<rparr>)"
proof -
  have "open_inv (se_id (ds_receiving srv)) ((se', stage) # ses1 @ ses2) (ds_sent srv')"
    using assms by (intro open_inv_reply [of _ ses1 se stage0 ses2 "ds_sent srv"]) (auto simp: session_inv_def one_reply_def)
  with assms(3,4) show ?thesis by (simp add: session_inv_def one_reply_def)
qed

lemma answer_same:
  assumes "multi_area_complete_handler E now task ips all srv = Some srv'"
  shows "same_sessions srv srv' \<and> ds_tasks srv' = (ds_tasks srv)\<lparr>qs_queue := queue_complete task (qs_queue (ds_tasks srv)),
           qs_started := remove1 task (qs_started (ds_tasks srv))\<rparr>"
proof -
  obtain host server where t: "t_in task = (host, server)" by fastforce
  define srv1 where "srv1 = (if ips \<noteq> [] then
          (let (rm, m) = record_manager_add (en_db E) (en_values E) (en_records E) now host ips (server_id server)
                 (if all then sv_cache_expire server else sv_cache_expire server sdiv 2) (ds_records srv) (ds_areas srv)
           in srv\<lparr>ds_records := rm, ds_areas := m\<rparr>) else srv)"
  have srv1: "same_sessions srv srv1 \<and> ds_tasks srv1 = ds_tasks srv"
    by (auto simp: srv1_def same_sessions_def Let_def split: prod.splits)
  from assms obtain r srv2 where "server_resolve E now host srv1 = Some (r, srv2)"
    and "srv' = srv2\<lparr>ds_tasks := (ds_tasks srv2)\<lparr>qs_queue := queue_complete task (qs_queue (ds_tasks srv2)),
                                            qs_started := remove1 task (qs_started (ds_tasks srv2))\<rparr>\<rparr>"
    by (auto simp: multi_area_complete_handler_def t srv1_def [symmetric] bind_eq_Some_conv)
  with srv1 server_resolve_same [OF this(1)] show ?thesis by (simp add: same_sessions_def)
qed

lemma session_inv_same: "same_sessions srv srv' \<Longrightarrow> session_inv srv \<Longrightarrow> session_inv srv'"
  by (simp add: same_sessions_def session_inv_def)

lemma session_inv_step: "server_step E srv srv' \<Longrightarrow> session_inv srv \<Longrightarrow> session_inv srv'"
proof (induction rule: server_step.induct)
  case (datagram bytes errorCode now srv srv')
  then show ?case by (blast intro: receive_handler_inv)
next
  case (timer srv ses1 se ses2 now se' stage srv')
  then show ?case by (blast intro: handled_inv [OF timer(1)] cache_timer_reply)
next
  case (forwarded srv ses1 se ses2 answer se' stage srv')
  then show ?case by (blast intro: handled_inv [OF forwarded(1)] forward_callback_reply)
next
  case (responded srv ses1 se ses2 ok srv')
  then have "session_inv (srv\<lparr>ds_sessions := ses1 @ ses2\<rparr>)" by (auto simp: session_inv_def intro: open_inv_drop)
  with end_session_same [OF responded(2)] show ?case by (blast intro: session_inv_same)
next
  case (answer task srv now ips all srv')
  then show ?case by (blast dest: answer_same intro: session_inv_same)
qed (simp_all add: session_inv_def)

interpretation session_machine: state_machine "server_step E" session_inv for E
  by unfold_locales (rule session_inv_step)

section \<open>The task queue of the server\<close>

text \<open>Every step of the server is a sequence of steps of its queue.\<close>

lemma submit_servers_queue: "queue_step\<^sup>*\<^sup>* (ds_tasks srv) (ds_tasks (submit_servers dn p servers srv))"
proof (induction dn p servers srv rule: submit_servers.induct)
  case (1 dn p srv)
  then show ?case by simp
next
  case (2 dn p s servers srv)
  obtain task gen where t: "priority_task_new (dn, s) p (dn @ ''/'' @ server_id s) (qs_gen (ds_tasks srv)) = (task, gen)"
    by fastforce
  obtain ok q where q: "queue_submit task (qs_queue (ds_tasks srv)) = (ok, q)" by fastforce
  have "queue_step (ds_tasks srv) ((ds_tasks srv)\<lparr>qs_queue := q, qs_gen := gen\<rparr>)" by (rule queue_step.submit [OF t q])
  moreover have "queue_step\<^sup>*\<^sup>* ((ds_tasks srv)\<lparr>qs_queue := q, qs_gen := gen\<rparr>) (ds_tasks (submit_servers dn p (s # servers) srv))"
    using "2.IH" [OF t [symmetric] refl q [symmetric] refl] by (simp add: t [simplified] q)
  ultimately show ?case by (rule converse_rtranclp_into_rtranclp)
qed

lemma sync_queue:
  "sync_dns_record_from_remote E dn srv = Some srv' \<Longrightarrow> queue_step\<^sup>*\<^sup>* (ds_tasks srv) (ds_tasks srv')"
  "sync_loss_dns_record_from_remote E dn r srv = Some srv' \<Longrightarrow> queue_step\<^sup>*\<^sup>* (ds_tasks srv) (ds_tasks srv')"
  by (auto simp: sync_dns_record_from_remote_def sync_loss_dns_record_from_remote_def bind_eq_Some_conv
      intro: submit_servers_queue)

lemma complete_tasks:
  "session_complete se srv = Some (se', stage, srv') \<Longrightarrow> ds_tasks srv' = ds_tasks srv"
  "query_complete se srv = Some (se', stage, srv') \<Longrightarrow> ds_tasks srv' = ds_tasks srv"
  by (auto simp: session_complete_def query_complete_def bind_eq_Some_conv)

lemma query_dns_record_queue:
  assumes "query_dns_record E now se srv = Some (se', stage, srv')"
  shows "queue_step\<^sup>*\<^sup>* (ds_tasks srv) (ds_tasks srv')"
proof (cases "session_get_host se = ''localhost''")
  case True
  with assms have "ds_tasks srv' = ds_tasks srv" by (auto simp: query_dns_record_def Let_def dest: complete_tasks)
  then show ?thesis by simp
next
  case False
  with assms obtain r srv1 where "query_record_from_cache E now (session_get_host se) srv = Some (r, srv1)"
    by (auto simp: query_dns_record_def Let_def bind_eq_Some_conv)
  with query_record_same [OF this] False assms show ?thesis
    by (auto simp: query_dns_record_def Let_def bind_eq_Some_conv dest!: complete_tasks sync_queue split: if_splits)
qed

lemma process_session_queue:
  "process_session E now se srv = Some (se', stage, srv') \<Longrightarrow> queue_step\<^sup>*\<^sup>* (ds_tasks srv) (ds_tasks srv')"
  by (auto simp: process_session_def forward_dns_request_def Let_def bind_eq_Some_conv split: if_splits option.splits
      dest!: query_dns_record_queue complete_tasks)

lemma server_step_queue: "server_step E srv srv' \<Longrightarrow> queue_step\<^sup>*\<^sup>* (ds_tasks srv) (ds_tasks srv')"
proof (induction rule: server_step.induct)
  case (datagram bytes errorCode now srv srv')
  have after: "ds_tasks (after_receive srv) = ds_tasks srv" by (simp add: after_receive_def receive_def)
  from datagram(2) show ?case
  proof (cases rule: receive_handler_cases)
    case (ended se ok)
    with end_session_same [OF ended(1)] after show ?thesis by simp
  next
    case (processed se se' stage srv3)
    with process_session_queue [OF processed(1)] after show ?thesis by simp
  qed
next
  case (timer srv ses1 se ses2 now se' stage srv')
  then show ?case
    by (auto simp: cache_timer_def bind_eq_Some_conv dest!: complete_tasks query_record_same)
next
  case (forwarded srv ses1 se ses2 answer se' stage srv')
  then show ?case by (auto simp: forward_callback_def bind_eq_Some_conv dest!: complete_tasks)
next
  case (responded srv ses1 se ses2 ok srv')
  then show ?case by (auto dest!: end_session_same)
next
  case (answer task srv now ips all srv')
  with answer_same [OF answer(3)] queue_step.complete [OF answer(1)] show ?case by auto
qed (auto intro: queue_step.intros)

interpretation server_queue: refined_machine "server_step E" queue_step ds_tasks queue_inv for E
  by unfold_locales (rule server_step_queue)

section \<open>Requests that are answered at once\<close>

text \<open>The cache is read through three components of the state only.\<close>

definition same_cache :: "'d dns_server \<Rightarrow> 'd dns_server \<Rightarrow> bool" where
  "same_cache srv srv' \<longleftrightarrow> ds_config srv' = ds_config srv \<and> ds_records srv' = ds_records srv \<and> ds_areas srv' = ds_areas srv"

lemma same_cache_after_receive: "same_cache srv (after_receive srv)"
  by (simp add: same_cache_def after_receive_def receive_def)

lemma server_resolve_cong:
  "server_resolve E now dn srv = Some (r, s1) \<Longrightarrow> same_cache srv srv' \<Longrightarrow>
     \<exists>s1'. server_resolve E now dn srv' = Some (r, s1') \<and> same_cache s1 s1'"
  by (auto simp: server_resolve_def same_cache_def bind_eq_Some_conv)

lemma query_record_cong:
  assumes "query_record_from_cache E now dn srv = Some (r, s1)" and "same_cache srv srv'"
  shows "\<exists>s1'. query_record_from_cache E now dn srv' = Some (r, s1') \<and> same_cache s1 s1'"
proof -
  from assms(1) obtain r0 s0 where q0: "server_resolve E now dn srv = Some (r0, s0)"
    by (auto simp: query_record_from_cache_def bind_eq_Some_conv)
  then obtain s0' where q1: "server_resolve E now dn srv' = Some (r0, s0')" "same_cache s0 s0'"
    using server_resolve_cong assms(2) by blast
  show ?thesis
  proof (cases "dr_ips r0 = [] \<and> getFIDomain dn \<in> {''LAN'', ''lan''}")
    case False
    with assms(1) q0 q1 show ?thesis by (auto simp: query_record_from_cache_def Let_def split: if_splits)
  next
    case True
    with assms(1) q0 obtain r2 where q2: "server_resolve E now (removeFIDomain dn) s0 = Some (r2, s1)" "r = r2\<lparr>dr_domain := dn\<rparr>"
      by (auto simp: query_record_from_cache_def Let_def bind_eq_Some_conv)
    from server_resolve_cong [OF q2(1) q1(2)] True q1 q2(2) show ?thesis
      by (auto simp: query_record_from_cache_def Let_def)
  qed
qed

text \<open>A datagram with well-formed questions reaches \<open>process_session\<close> as a request that asks them.\<close>

lemma receive_well_formed:
  assumes "wf_questions qs" and "qs \<noteq> []" and "msg = header_bytes ident (length qs) 0 0 False @ questions_bytes qs"
    and "length msg \<le> 1024" and "ds_receiving srv = session_new i"
  shows "\<exists>se. receive_handler E None now msg srv = map_option (\<lambda>(se', stage, srv3). srv3\<lparr>ds_sessions := (se', stage) # ds_sessions srv3\<rparr>)
             (process_session E now se (after_receive srv))
           \<and> se_id se = i \<and> se_type se = QUERY \<and> se_response se = None \<and> se_record se = dns_record_empty
           \<and> asks (se_request se) ident qs \<and> session_get_host se = fst (hd qs)
           \<and> session_get_query_type se = Some (fst (snd (hd qs)))"
proof -
  let ?rest = "replicate (1024 - length msg) 0"
  have "length (questions_bytes qs) < 2 ^ 16" using assms(3,4) by simp
  from received_parse [OF assms(1,2) this assms(3), of ?rest] obtain req where
    req: "udp_request_parse (received msg ?rest) (length msg) = Some (req, True)" "asks req ident qs"
      "udp_request_get_host req = fst (hd qs)" "udp_request_get_query_type req = Some (fst (snd (hd qs)))" by blast
  have wr: "wr_n (replicate 1024 0) 0 msg = Some (msg @ ?rest)" using wr_n_in_bounds [of 0 msg "replicate 1024 0"] assms(4) by simp
  have ne: "0 < length msg" by (simp add: assms(3))
  define se where "se = (session_new i)\<lparr>se_time := now, se_request := req\<rparr>"
  have "rq_buf (udp_request_alloc 1024) = replicate 1024 0" by (simp add: udp_request_alloc_def)
  with wr have w: "wr_n (rq_buf (se_request (session_new i))) 0 msg = Some (msg @ ?rest)" by (simp add: session_new_def)
  have p: "udp_request_parse ((se_request (session_new i))\<lparr>rq_buf := msg @ ?rest\<rparr>) (length msg) = Some (req, True)"
    using req(1) by (simp add: received_def session_new_def)
  have "receive_handler E None now msg srv =
      (process_session E now se (after_receive srv) \<bind>
         (\<lambda>(se3, stage, srv3). Some (srv3\<lparr>ds_sessions := (se3, stage) # ds_sessions srv3\<rparr>)))"
    unfolding receive_handler_def Let_def after_receive_def [symmetric] assms(5) w using ne p by (simp add: se_def)
  also have "\<dots> = map_option (\<lambda>(se', stage, srv3). srv3\<lparr>ds_sessions := (se', stage) # ds_sessions srv3\<rparr>)
      (process_session E now se (after_receive srv))"
    by (cases "process_session E now se (after_receive srv)") auto
  finally have "receive_handler E None now msg srv = \<dots>" .
  with req(2-4) show ?thesis
    by (intro exI [of _ se]) (simp add: se_def session_new_def session_get_host_def session_get_query_type_def)
qed

text \<open>The answer that \<open>session_complete\<close> sends for a request, as a client reads it.\<close>

definition client_reads :: "u8 list \<Rightarrow> u16 \<Rightarrow> u32 list \<Rightarrow> u32 \<Rightarrow> bool" where
  "client_reads bs ident ips expire \<longleftrightarrow> length bs < 512 \<and> (\<forall>rest n. \<exists>r.
     udp_response_parse (udp_response_at (bs @ rest) 0 n) (length bs) = Some r \<and> rs_valid r \<and> rs_ips r = ips
     \<and> map_option h_id (rs_header r) = Some ident \<and> (\<forall>a \<in> set (answerZones r). liveTime a = expire))"

lemma session_complete_answers:
  assumes "asks (se_request se) ident qs" and "wf_questions qs" and "qs \<noteq> []" and "se_response se = None"
    and "12 + length (questions_bytes qs) + 16 * min 5 (length (dr_ips (se_record se))) < 512"
  shows "\<exists>resp bs. session_complete se srv = Some (se\<lparr>se_response := Some resp\<rparr>, Responding, srv\<lparr>ds_sent := ds_sent srv @ [(se_id se, bs)]\<rparr>)
           \<and> query_complete se srv = session_complete se srv
           \<and> client_reads bs ident (take 5 (dr_ips (se_record se))) (cal_expire (ds_config srv) (se_record se))"
proof -
  obtain resp where resp: "udp_response_new (se_request se) (dr_ips (se_record se)) (cal_expire (ds_config srv) (se_record se)) = Some resp"
    "rs_len resp < 512" "rs_data resp = 0" "rs_len resp \<le> length (rs_buf resp)"
    "\<forall>rest n. \<exists>r. udp_response_parse (udp_response_at (take (rs_len resp) (rs_buf resp) @ rest) 0 n) (rs_len resp) = Some r
       \<and> rs_valid r \<and> rs_ips r = take 5 (dr_ips (se_record se)) \<and> map_option h_id (rs_header r) = Some ident
       \<and> (\<forall>a \<in> set (answerZones r). liveTime a = cal_expire (ds_config srv) (se_record se))"
    using asks_answered [OF assms(1-3,5)] by blast
  have "client_reads (take (rs_len resp) (rs_buf resp)) ident (take 5 (dr_ips (se_record se))) (cal_expire (ds_config srv) (se_record se))"
    using resp(2,4,5) by (simp add: client_reads_def min_absorb2)
  with resp(1,3) assms(4) show ?thesis
    by (intro exI [of _ resp] exI [of _ "take (rs_len resp) (rs_buf resp)"]) (simp add: session_complete_def query_complete_def)
qed

section \<open>Started tasks\<close>

lemma server_step_config: "server_step E srv srv' \<Longrightarrow> ds_config srv' = ds_config srv"
proof (induction rule: server_step.induct)
  case (datagram bytes errorCode now srv srv')
  have after: "ds_config (after_receive srv) = ds_config srv" by (simp add: after_receive_def receive_def)
  from datagram(2) show ?case
  proof (cases rule: receive_handler_cases)
    case (ended se ok)
    with end_session_same [OF ended(1)] after show ?thesis by (simp add: same_sessions_def)
  next
    case (processed se se' stage srv3)
    with process_session_reply [OF processed(1)] after show ?thesis by (simp add: one_reply_def)
  qed
next
  case (timer srv ses1 se ses2 now se' stage srv')
  with cache_timer_reply [OF timer(2)] show ?case by (simp add: one_reply_def)
next
  case (forwarded srv ses1 se ses2 answer se' stage srv')
  with forward_callback_reply [OF forwarded(2)] show ?case by (simp add: one_reply_def)
next
  case (responded srv ses1 se ses2 ok srv')
  with end_session_same [OF responded(2)] show ?case by (simp add: same_sessions_def)
next
  case (answer task srv now ips all srv')
  with answer_same [OF answer(3)] show ?case by (simp add: same_sessions_def)
qed simp_all

text \<open>Submitting tasks does not touch those that run.\<close>

lemma submit_servers_started: "qs_started (ds_tasks (submit_servers dn p servers srv)) = qs_started (ds_tasks srv)"
  by (induction dn p servers srv rule: submit_servers.induct) (auto simp: Let_def split: prod.splits)

lemma sync_started:
  "sync_dns_record_from_remote E dn srv = Some srv' \<Longrightarrow> qs_started (ds_tasks srv') = qs_started (ds_tasks srv)"
  "sync_loss_dns_record_from_remote E dn r srv = Some srv' \<Longrightarrow> qs_started (ds_tasks srv') = qs_started (ds_tasks srv)"
  by (auto simp: sync_dns_record_from_remote_def sync_loss_dns_record_from_remote_def bind_eq_Some_conv submit_servers_started)

lemma process_session_started:
  assumes "process_session E now se srv = Some (se', stage, srv')"
  shows "qs_started (ds_tasks srv') = qs_started (ds_tasks srv)"
proof -
  have q: "qs_started (ds_tasks srv') = qs_started (ds_tasks srv)"
    if "query_dns_record E now se1 srv = Some (se', stage, srv')" for se1
  proof (cases "session_get_host se1 = ''localhost''")
    case True
    with that complete_tasks show ?thesis by (fastforce simp: query_dns_record_def Let_def)
  next
    case False
    with that obtain r srv1 where "query_record_from_cache E now (session_get_host se1) srv = Some (r, srv1)"
      by (auto simp: query_dns_record_def Let_def bind_eq_Some_conv)
    with query_record_same [OF this] False that show ?thesis
      by (auto simp: query_dns_record_def Let_def bind_eq_Some_conv dest!: complete_tasks sync_started split: if_splits)
  qed
  from assms show ?thesis
    by (auto simp: process_session_def forward_dns_request_def Let_def bind_eq_Some_conv split: if_splits option.splits
        dest!: q complete_tasks)
qed

lemma server_step_started:
  assumes "server_step E srv srv'" and "task \<in> set (qs_started (ds_tasks srv))"
    and "sync_from_server (ds_config srv) (t_in task) = No_Call"
  shows "task \<in> set (qs_started (ds_tasks srv'))"
  using assms
proof (induction rule: server_step.induct)
  case (datagram bytes errorCode now srv srv')
  have after: "ds_tasks (after_receive srv) = ds_tasks srv" by (simp add: after_receive_def receive_def)
  from datagram(2) show ?case
  proof (cases rule: receive_handler_cases)
    case (ended se ok)
    with end_session_same [OF ended(1)] after datagram(3) show ?thesis by simp
  next
    case (processed se se' stage srv3)
    with process_session_started [OF processed(1)] after datagram(3) show ?thesis by simp
  qed
next
  case (timer srv ses1 se ses2 now se' stage srv')
  then show ?case by (auto simp: cache_timer_def bind_eq_Some_conv dest!: complete_tasks query_record_same)
next
  case (forwarded srv ses1 se ses2 answer se' stage srv')
  then show ?case by (auto simp: forward_callback_def bind_eq_Some_conv dest!: complete_tasks)
next
  case (responded srv ses1 se ses2 ok srv')
  then show ?case by (auto dest!: end_session_same)
next
  case (answer other srv now ips all srv')
  then have "other \<noteq> task" by auto
  with answer_same [OF answer(3)] answer(4) show ?case by (simp add: in_set_remove1)
qed simp_all

section \<open>A sample server\<close>

text \<open>
  One server over UDP, and a database whose only entry holds an answer of that server for \<open>a.cn\<close>.
\<close>

definition sample_codec :: records_codec where
  "sample_codec = \<lparr>rc_serialize = (\<lambda>r. ''x''),
     rc_parse = (\<lambda>s. \<lparr>ps_domain = ''a.cn'', ps_map = [(server_id sample_server, \<lparr>pr_expire = 9999, pr_ips = [7]\<rparr>)]\<rparr>),
     rv_serialize = (\<lambda>r. []), rv_parse = (\<lambda>s. \<lparr>rr_ip = 0, rr_domains = []\<rparr>)\<rparr>"

definition sample_env :: "records_codec \<Rightarrow> (string \<times> string) list server_env" where
  "sample_env R = \<lparr>en_db = list_db, en_values = unary_codec, en_records = R, en_regex = (\<lambda>_ _. Some False),
     en_sort = insertion_sort, en_shuffle = rev, en_areas = []\<rparr>"

definition sample_dns_server :: "(string \<times> string) list \<Rightarrow> (string \<times> string) list dns_server" where
  "sample_dns_server db = dns_server_new (config_default\<lparr>cf_servers := [sample_server]\<rparr>) \<lparr>rm_db = db, rm_reverse = []\<rparr>
     sample_manager 0 1000"

lemma sample_select: "select_servers (\<lambda>_ _. Some False) ''a.cn'' [sample_server] = Some [sample_server]"
  by code_simp

lemma sample_query:
  "\<exists>record srv1. query_record_from_cache (sample_env sample_codec) 5000 ''a.cn'' (sample_dns_server [(''a.cn'', '':x'')]) = Some (record, srv1)
     \<and> dr_ips record = [7]"
proof -
  have "map_option (dr_ips \<circ> fst)
      (query_record_from_cache (sample_env sample_codec) 5000 ''a.cn'' (sample_dns_server [(''a.cn'', '':x'')])) = Some [7]"
    by code_simp
  then show ?thesis by auto
qed

section \<open>Properties\<close>

text \<open>What the invariant says of the replies.\<close>

lemma session_inv_replies:
  assumes "session_inv srv"
  shows "distinct (map fst (ds_sent srv)) \<and> distinct (map (\<lambda>x. se_id (fst x)) (ds_sessions srv))
       \<and> (\<forall>i \<in> fst ` set (ds_sent srv). i < ds_rid srv)
       \<and> (\<forall>(se, stage) \<in> set (ds_sessions srv). stage = Responding \<longleftrightarrow> se_id se \<in> fst ` set (ds_sent srv))"
proof -
  from assms have inv: "open_inv (se_id (ds_receiving srv)) (ds_sessions srv) (ds_sent srv)"
    "ds_rid srv = Suc (se_id (ds_receiving srv))" by (simp_all add: session_inv_def)
  then have "\<forall>i \<in> fst ` set (ds_sent srv). i < ds_rid srv" by (auto simp: open_inv_def)
  with inv show ?thesis unfolding open_inv_def by (simp add: case_prod_beta)
qed

lemma session_inv_new: "session_inv (dns_server_new conf rm m gen start)"
  by (simp add: session_inv_def dns_server_new_def session_new_def open_inv_def)

text \<open>What the invariant of the queue says of the tasks of a server.\<close>

lemma server_tasks_safe:
  assumes "queue_step\<^sup>*\<^sup>* (queue_init 100 100 gen) (ds_tasks srv)" and "heap_top top_of"
  shows "length (posted (qs_queue (ds_tasks srv))) + length (qs_started (ds_tasks srv)) \<le> 100
       \<and> distinct (filter (\<lambda>k. k \<noteq> []) (map t_pk (queue_all (qs_queue (ds_tasks srv)))))
       \<and> queue_dispatch top_of (qs_queue (ds_tasks srv)) \<noteq> None"
proof -
  have inv: "queue_inv (ds_tasks srv)" using assms(1) by (rule queue_machine.reachable) (rule queue_inv_init)
  have "max_running (qs_queue (ds_tasks srv)) = 100"
    using queue_steps_max_running [OF assms(1)] by (simp add: queue_init_def queue_new_def)
  then have "length (posted (qs_queue (ds_tasks srv))) + length (qs_started (ds_tasks srv)) \<le> 100"
    using inv by (simp add: inv_defs)
  then show ?thesis using queue_inv_pks [OF inv] dispatch_total [OF inv assms(2)] by blast
qed

text \<open>
  C3. In every run of the server, whatever arrives and in whatever order: at most one reply is sent for
  a datagram, a session that still waits has not been answered, and a session whose reply is under
  way has been answered.
\<close>

theorem server_replies_once:
  assumes "(server_step E)\<^sup>*\<^sup>* (dns_server_new conf rm m gen start) srv"
  shows "distinct (map fst (ds_sent srv)) \<and> distinct (map (\<lambda>x. se_id (fst x)) (ds_sessions srv))
       \<and> (\<forall>i \<in> fst ` set (ds_sent srv). i < ds_rid srv)
       \<and> (\<forall>(se, stage) \<in> set (ds_sessions srv). stage = Responding \<longleftrightarrow> se_id se \<in> fst ` set (ds_sent srv))"
  by (rule session_inv_replies, rule session_machine.reachable [OF assms session_inv_new])

text \<open>
  C5. The server's use of the task queue is within the contract of the queue: its runs are runs of the
  queue, so at most 100 synchronisations are under way, no two tasks in the queue concern the same
  domain and server, and the dispatcher does not throw.
\<close>

theorem server_refines_queue:
  assumes "(server_step E)\<^sup>*\<^sup>* (dns_server_new conf rm m gen start) srv" and "heap_top top_of"
  shows "queue_step\<^sup>*\<^sup>* (queue_init 100 100 gen) (ds_tasks srv)
       \<and> length (posted (qs_queue (ds_tasks srv))) + length (qs_started (ds_tasks srv)) \<le> 100
       \<and> distinct (filter (\<lambda>k. k \<noteq> []) (map t_pk (queue_all (qs_queue (ds_tasks srv)))))
       \<and> queue_dispatch top_of (qs_queue (ds_tasks srv)) \<noteq> None"
proof -
  have run: "queue_step\<^sup>*\<^sup>* (queue_init 100 100 gen) (ds_tasks srv)"
    using server_queue.simulated [OF assms(1)] by (simp add: dns_server_new_def)
  then show ?thesis using server_tasks_safe [OF run assms(2)] by blast
qed

text \<open>A question that the cache does not answer: the task of its only server waits in the queue.\<close>

theorem server_refines_queue_witness:
  "\<exists>srv. (server_step (sample_env sample_codec))\<^sup>*\<^sup>* (sample_dns_server []) srv
     \<and> map t_pk (queue_all (qs_queue (ds_tasks srv))) = [''a.cn/1_1_1_1_53'']
     \<and> queue_step\<^sup>*\<^sup>* (queue_init 100 100 0) (ds_tasks srv)
     \<and> length (posted (qs_queue (ds_tasks srv))) + length (qs_started (ds_tasks srv)) \<le> 100
     \<and> queue_dispatch max_entry (qs_queue (ds_tasks srv)) \<noteq> None"
proof -
  let ?msg = "header_bytes 9 1 0 0 False @ questions_bytes [(''a.cn'', type_A, 1)]"
  have "map_option (\<lambda>srv. map t_pk (queue_all (qs_queue (ds_tasks srv))))
      (receive_handler (sample_env sample_codec) None 5000 ?msg (sample_dns_server [])) = Some [''a.cn/1_1_1_1_53'']"
    by code_simp
  then obtain srv where recv: "receive_handler (sample_env sample_codec) None 5000 ?msg (sample_dns_server []) = Some srv"
    and task: "map t_pk (queue_all (qs_queue (ds_tasks srv))) = [''a.cn/1_1_1_1_53'']" by auto
  have "length ?msg \<le> 1024" by code_simp
  then have "server_step (sample_env sample_codec) (sample_dns_server []) srv" by (rule server_step.datagram [OF _ recv])
  then have run: "(server_step (sample_env sample_codec))\<^sup>*\<^sup>* (sample_dns_server []) srv" by (rule r_into_rtranclp)
  note safe = server_refines_queue [OF run [unfolded sample_dns_server_def] max_entry_top]
  show ?thesis using run task safe by (intro exI [of _ srv]) (simp only: simp_thms)
qed

text \<open>
  The time to live handed to clients is between 10 seconds and 10 minutes, 10 seconds for an
  answer that matches no area, and otherwise the configured value where it lies in that range.
\<close>

theorem cal_expire_range:
  "10 \<le> cal_expire conf record \<and> cal_expire conf record \<le> 600
   \<and> (\<not> dr_match_area record \<longrightarrow> cal_expire conf record = 10)
   \<and> (dr_match_area record \<and> 10 \<le> cf_cache_expire conf \<and> cf_cache_expire conf \<le> 600
        \<longrightarrow> cal_expire conf record = cf_cache_expire conf)"
  by (auto simp: cal_expire_def Let_def max_def min_def)

theorem cal_expire_range_witness:
  "cal_expire (config_default\<lparr>cf_cache_expire := 77\<rparr>) (dns_record_empty\<lparr>dr_match_area := True\<rparr>) = 77
   \<and> cal_expire config_default dns_record_empty = 10"
  using cal_expire_range [of "config_default\<lparr>cf_cache_expire := 77\<rparr>" "dns_record_empty\<lparr>dr_match_area := True\<rparr>"]
    cal_expire_range [of config_default dns_record_empty]
  by (simp add: dns_record_empty_def)

text \<open>A datagram that the cache can answer, from the socket to the reply.\<close>

lemma cached_query_reply:
  assumes "wf_questions qs" and "qs \<noteq> []" and "hd qs = (host, type_A, cls)" and "host \<noteq> ''localhost''"
    and "msg = header_bytes ident (length qs) 0 0 False @ questions_bytes qs" and "ds_receiving srv = session_new i"
    and "query_record_from_cache E now host srv = Some (record, srv1)" and "dr_ips record \<noteq> []"
    and "12 + length (questions_bytes qs) + 16 * min 5 (length (dr_ips record)) < 512"
    and "select_servers (en_regex E) host (cf_servers (ds_config srv)) = Some servers"
  shows "\<exists>srv' bs. receive_handler E None now msg srv = Some srv' \<and> ds_sent srv' = ds_sent srv @ [(i, bs)]
           \<and> client_reads bs ident (take 5 (dr_ips record)) (cal_expire (ds_config srv) record)"
proof -
  have "length msg \<le> 1024" using assms(5,9) by simp
  from receive_well_formed [OF assms(1,2,5) this assms(6), of E now] obtain se where
    recv: "receive_handler E None now msg srv = map_option (\<lambda>(se', stage, srv3). srv3\<lparr>ds_sessions := (se', stage) # ds_sessions srv3\<rparr>)
             (process_session E now se (after_receive srv))"
    and se: "se_id se = i" "se_response se = None" "asks (se_request se) ident qs" "session_get_host se = host"
      "session_get_query_type se = Some type_A" using assms(3) by auto
  obtain srv1' where q: "query_record_from_cache E now host (after_receive srv) = Some (record, srv1')"
    using query_record_cong [OF assms(7) same_cache_after_receive] by blast
  have same: "same_sessions (after_receive srv) srv1'" using query_record_same [OF q] by blast
  then have frame: "ds_config srv1' = ds_config srv" "ds_sent srv1' = ds_sent srv"
    by (simp_all add: same_sessions_def after_receive_def receive_def)
  define se1 where "se1 = se\<lparr>se_record := (se_record se)\<lparr>dr_domain := host\<rparr>\<rparr>"
  have se1: "session_get_host se1 = host" "session_get_query_type se1 = Some type_A" "asks (se_request (se1\<lparr>se_record := record\<rparr>)) ident qs"
    "se_response (se1\<lparr>se_record := record\<rparr>) = None" "se_id se1 = i"
    using se by (simp_all add: se1_def session_get_host_def session_get_query_type_def)
  have room: "12 + length (questions_bytes qs) + 16 * min 5 (length (dr_ips (se_record (se1\<lparr>se_record := record\<rparr>)))) < 512"
    using assms(9) by simp
  obtain se2 bs where c: "query_complete (se1\<lparr>se_record := record\<rparr>) srv1' = Some (se2, Responding, srv1'\<lparr>ds_sent := ds_sent srv1' @ [(i, bs)]\<rparr>)"
    and reads: "client_reads bs ident (take 5 (dr_ips record)) (cal_expire (ds_config srv) record)"
    using session_complete_answers [OF se1(3) assms(1,2) se1(4) room, of srv1'] se1(5) frame(1) by auto
  let ?srv2 = "srv1'\<lparr>ds_sent := ds_sent srv1' @ [(i, bs)]\<rparr>"
  have "\<exists>srv3. (if dr_expire record \<or> \<not> dr_match_area record then sync_dns_record_from_remote E host ?srv2
            else sync_loss_dns_record_from_remote E host record ?srv2) = Some srv3"
    using assms(10) frame(1) by (simp add: sync_dns_record_from_remote_def sync_loss_dns_record_from_remote_def)
  then obtain srv3 where s: "(if dr_expire record \<or> \<not> dr_match_area record then sync_dns_record_from_remote E host ?srv2
            else sync_loss_dns_record_from_remote E host record ?srv2) = Some srv3" ..
  then have "same_sessions ?srv2 srv3" using sync_same sync_loss_same by (auto split: if_splits)
  then have sent: "ds_sent srv3 = ds_sent srv @ [(i, bs)]" using frame(2) by (simp add: same_sessions_def)
  have "process_session E now se (after_receive srv) = query_dns_record E now se1 (after_receive srv)"
    using se se1(2) by (simp add: process_session_def Let_def se1_def)
  also have "\<dots> = Some (se2, Responding, srv3)"
    using se1(1) assms(4,8) q c s by (simp add: query_dns_record_def)
  finally show ?thesis
    using recv sent reads by (intro exI [of _ "srv3\<lparr>ds_sessions := (se2, Responding) # ds_sessions srv3\<rparr>"] exI [of _ bs]) simp
qed

text \<open>
  C4. A question for an address that the cache can answer, from the datagram to the bytes sent back: the
  server replies at once, to this client, with the id of the question, the first five addresses
  of the cached record and its time to live, in less than 512 bytes.
\<close>

theorem cached_query_answered:
  assumes "wf_questions qs" and "qs \<noteq> []" and "hd qs = (host, type_A, cls)" and "host \<noteq> ''localhost''"
    and "msg = header_bytes ident (length qs) 0 0 False @ questions_bytes qs" and "ds_receiving srv = session_new i"
    and "query_record_from_cache E now host srv = Some (record, srv1)" and "dr_ips record \<noteq> []"
    and "12 + length (questions_bytes qs) + 16 * min 5 (length (dr_ips record)) < 512"
    and "select_servers (en_regex E) host (cf_servers (ds_config srv)) = Some servers"
  shows "\<exists>srv' bs. receive_handler E None now msg srv = Some srv' \<and> ds_sent srv' = ds_sent srv @ [(i, bs)]
           \<and> client_reads bs ident (take 5 (dr_ips record)) (cal_expire (ds_config srv) record)"
  using assms by (rule cached_query_reply)

theorem cached_query_answered_witness:
  "\<exists>srv' bs expire. receive_handler (sample_env sample_codec) None 5000
       (header_bytes 9 (length [(''a.cn'', type_A, 1 :: u16)]) 0 0 False @ questions_bytes [(''a.cn'', type_A, 1)])
       (sample_dns_server [(''a.cn'', '':x'')]) = Some srv'
     \<and> ds_sent srv' = ds_sent (sample_dns_server [(''a.cn'', '':x'')]) @ [(1000, bs)] \<and> client_reads bs 9 [7] expire"
proof -
  obtain r0 srv1 where q: "query_record_from_cache (sample_env sample_codec) 5000 ''a.cn'' (sample_dns_server [(''a.cn'', '':x'')])
      = Some (r0, srv1)" and ips: "dr_ips r0 = [7]" using sample_query by blast
  have sel: "select_servers (en_regex (sample_env sample_codec)) ''a.cn''
      (cf_servers (ds_config (sample_dns_server [(''a.cn'', '':x'')]))) = Some [sample_server]"
    using sample_select by (simp add: sample_env_def sample_dns_server_def dns_server_new_def)
  have recv: "ds_receiving (sample_dns_server [(''a.cn'', '':x'')]) = session_new 1000"
    by (simp add: sample_dns_server_def dns_server_new_def)
  have wf: "wf_questions [(''a.cn'', type_A, 1 :: u16)]" by (simp add: wf_host_def wf_label_def)
  from cached_query_answered [OF wf _ _ _ refl recv q _ _ sel, where cls = 1 and ident = 9] ips
  show ?thesis by auto
qed

text \<open>
  A question for an IPv6 address is answered at once with an empty answer that carries its id; the
  cache, the areas and the task queue stay as they are.
\<close>

theorem aaaa_query_dropped:
  assumes "wf_questions qs" and "qs \<noteq> []" and "hd qs = (host, type_AAAA, cls)"
    and "msg = header_bytes ident (length qs) 0 0 False @ questions_bytes qs" and "ds_receiving srv = session_new i"
    and "12 + length (questions_bytes qs) < 512"
  shows "\<exists>srv' bs. receive_handler E None now msg srv = Some srv' \<and> ds_sent srv' = ds_sent srv @ [(i, bs)]
           \<and> client_reads bs ident [] 10
           \<and> ds_records srv' = ds_records srv \<and> ds_areas srv' = ds_areas srv \<and> ds_tasks srv' = ds_tasks srv"
proof -
  have "length msg \<le> 1024" using assms(4,6) by simp
  from receive_well_formed [OF assms(1,2,4) this assms(5), of E now] obtain se where
    recv: "receive_handler E None now msg srv = map_option (\<lambda>(se', stage, srv3). srv3\<lparr>ds_sessions := (se', stage) # ds_sessions srv3\<rparr>)
             (process_session E now se (after_receive srv))"
    and se: "se_id se = i" "se_response se = None" "asks (se_request se) ident qs" "session_get_host se = host"
      "session_get_query_type se = Some type_AAAA" "se_record se = dns_record_empty" using assms(3) by auto
  define se1 where "se1 = se\<lparr>se_record := (se_record se)\<lparr>dr_domain := host\<rparr>, se_type := DROP\<rparr>"
  have se1: "asks (se_request se1) ident qs" "se_response se1 = None" "dr_ips (se_record se1) = []" "se_id se1 = i"
    "cal_expire (ds_config srv) (se_record se1) = 10"
    using se by (simp_all add: se1_def dns_record_empty_def cal_expire_def)
  have "12 + length (questions_bytes qs) + 16 * min 5 (length (dr_ips (se_record se1))) < 512"
    using assms(6) se1(3) by simp
  from session_complete_answers [OF se1(1) assms(1,2) se1(2) this, of "after_receive srv"] obtain resp bs where
    c: "session_complete se1 (after_receive srv) = Some (se1\<lparr>se_response := Some resp\<rparr>, Responding,
          (after_receive srv)\<lparr>ds_sent := ds_sent srv @ [(i, bs)]\<rparr>)"
    and reads: "client_reads bs ident [] 10"
    using se1 by (auto simp: after_receive_def receive_def)
  have "process_session E now se (after_receive srv) = session_complete se1 (after_receive srv)"
    using se by (simp add: process_session_def Let_def se1_def session_get_query_type_def type_A_def type_AAAA_def)
  with recv c reads show ?thesis
    by (intro exI [of _ "(after_receive srv)\<lparr>ds_sent := ds_sent srv @ [(i, bs)],
           ds_sessions := (se1\<lparr>se_response := Some resp\<rparr>, Responding) # ds_sessions (after_receive srv)\<rparr>"] exI [of _ bs])
       (simp add: after_receive_def receive_def)
qed

theorem aaaa_query_dropped_witness:
  "\<exists>srv' bs. receive_handler (sample_env sample_codec) None 5000
       (header_bytes 9 (length [(''a.cn'', type_AAAA, 1 :: u16)]) 0 0 False @ questions_bytes [(''a.cn'', type_AAAA, 1)])
       (sample_dns_server []) = Some srv'
     \<and> ds_sent srv' = ds_sent (sample_dns_server []) @ [(1000, bs)] \<and> client_reads bs 9 [] 10
     \<and> ds_records srv' = ds_records (sample_dns_server []) \<and> ds_areas srv' = ds_areas (sample_dns_server [])
     \<and> ds_tasks srv' = ds_tasks (sample_dns_server [])"
  by (rule aaaa_query_dropped [OF _ _ _ refl, where host = "''a.cn''" and cls = 1])
     (simp_all add: wf_host_def wf_label_def sample_dns_server_def dns_server_new_def)

theorem server_replies_once_witness:
  "\<exists>srv bs. (server_step (sample_env sample_codec))\<^sup>*\<^sup>* (sample_dns_server []) srv \<and> ds_sent srv = [(1000, bs)]
     \<and> distinct (map fst (ds_sent srv)) \<and> distinct (map (\<lambda>x. se_id (fst x)) (ds_sessions srv))"
proof -
  let ?msg = "header_bytes 9 (length [(''a.cn'', type_AAAA, 1 :: u16)]) 0 0 False @ questions_bytes [(''a.cn'', type_AAAA, 1)]"
  have "wf_questions [(''a.cn'', type_AAAA, 1 :: u16)]" by (simp add: wf_host_def wf_label_def)
  from aaaa_query_dropped [OF this _ _ refl, where host = "''a.cn''" and cls = 1 and srv = "sample_dns_server []" and i = 1000]
  obtain srv bs where recv: "receive_handler (sample_env sample_codec) None 5000 ?msg (sample_dns_server []) = Some srv"
    and sent: "ds_sent srv = [(1000, bs)]" by (fastforce simp: sample_dns_server_def dns_server_new_def)
  have "server_step (sample_env sample_codec) (sample_dns_server []) srv" using recv by (intro server_step.datagram) simp_all
  then have run: "(server_step (sample_env sample_codec))\<^sup>*\<^sup>* (sample_dns_server []) srv" by (rule r_into_rtranclp)
  from server_replies_once [OF this [unfolded sample_dns_server_def]] run sent show ?thesis by blast
qed

text \<open>
  C40. Any datagram that the parser refuses, an empty datagram, and an error of the socket bring the
  server down: \<open>end_session\<close> reads the query type of a question section that does not exist.
\<close>

theorem refused_datagram_faults:
  assumes "ds_receiving srv = session_new i" and "length bytes \<le> 1024"
    and "errorCode \<noteq> None \<or> bytes = [] \<or>
           (\<exists>req. udp_request_parse (received bytes (replicate (1024 - length bytes) 0)) (length bytes) = Some (req, False))"
  shows "receive_handler E errorCode now bytes srv = None"
proof -
  let ?req = "received bytes (replicate (1024 - length bytes) 0)"
  have "rq_buf (udp_request_alloc 1024) = replicate 1024 0" by (simp add: udp_request_alloc_def)
  then have w: "wr_n (rq_buf (se_request (session_new i))) 0 bytes = Some (bytes @ replicate (1024 - length bytes) 0)"
    using wr_n_in_bounds [of 0 bytes "replicate 1024 0"] assms(2) by (simp add: session_new_def)
  have fault: "end_session E se srv' = None" if "session_get_query_type se = None" for se and srv' :: "'a dns_server"
    using that by (simp add: end_session_def Let_def)
  have fresh: "udp_request_get_query_type ?req = None" "rq_valid ?req" "rq_zone ?req = None"
    by (simp_all add: received_def udp_request_alloc_def udp_request_get_query_type_def)
  have bad: "udp_request_get_query_type req = None" if "udp_request_parse ?req (length bytes) = Some (req, False)" for req
    using udp_request_parse_query_type [OF that fresh(2,3)] by simp
  have r: "(se_request (session_new i))\<lparr>rq_buf := bytes @ replicate (1024 - length bytes) 0\<rparr> = ?req"
    by (simp add: received_def session_new_def)
  show ?thesis
    unfolding receive_handler_def Let_def assms(1) w bind.bind_lunit r
    using assms(3) fresh(1) bad by (auto simp: fault session_get_query_type_def r split: if_splits)
qed

theorem refused_datagram_faults_witness:
  "receive_handler (sample_env sample_codec) None 5000 [] (sample_dns_server []) = None
   \<and> receive_handler (sample_env sample_codec) None 5000 [1, 2, 3] (sample_dns_server []) = None"
proof -
  have recv: "ds_receiving (sample_dns_server []) = session_new 1000" by (simp add: sample_dns_server_def dns_server_new_def)
  have "case udp_request_parse (received [1, 2, 3] (replicate (1024 - length [1, 2, 3 :: u8]) 0)) (length [1, 2, 3 :: u8]) of
      Some (req, ok) \<Rightarrow> \<not> ok | None \<Rightarrow> False"
    by (simp add: udp_request_parse_def header_len_def udp_request_mark_invalid_def)
  then have "\<exists>req. udp_request_parse (received [1, 2, 3] (replicate (1024 - length [1, 2, 3 :: u8]) 0)) (length [1, 2, 3 :: u8])
      = Some (req, False)" by (auto split: option.splits)
  with refused_datagram_faults [OF recv, of "[1, 2, 3]" None] refused_datagram_faults [OF recv, of "[]" None] show ?thesis by simp
qed

text \<open>
  A task for a server whose type is none of \<open>TCP_SSL\<close>, \<open>TCP\<close> and \<open>UDP\<close> is never completed: once it
  has started it stays among the running tasks in every further run, so it holds one of the 100
  places of the queue for good.
\<close>

theorem unsupported_server_holds_place:
  assumes "(server_step E)\<^sup>*\<^sup>* srv srv'" and "task \<in> set (qs_started (ds_tasks srv))"
    and "sync_from_server (ds_config srv) (t_in task) = No_Call"
  shows "task \<in> set (qs_started (ds_tasks srv')) \<and> sync_from_server (ds_config srv') (t_in task) = No_Call"
  using assms
proof (induction rule: rtranclp_induct)
  case base
  then show ?case by simp
next
  case (step srv1 srv2)
  then have IH: "task \<in> set (qs_started (ds_tasks srv1))" "sync_from_server (ds_config srv1) (t_in task) = No_Call" by simp_all
  have "ds_config srv2 = ds_config srv1" by (rule server_step_config [OF step.hyps(2)])
  moreover have "task \<in> set (qs_started (ds_tasks srv2))" using step.hyps(2) IH by (rule server_step_started)
  ultimately show ?case using IH(2) by simp
qed

theorem unsupported_server_holds_place_witness:
  "let task = \<lparr>t_in = (''a.cn'', sample_server\<lparr>sv_type := ''DOH''\<rparr>), t_priority = 100, t_id = 0, t_pk = ''k'', t_status = RUNNING\<rparr>;
       srv = (sample_dns_server [])\<lparr>ds_tasks := (ds_tasks (sample_dns_server []))\<lparr>qs_started := [task]\<rparr>\<rparr>;
       srv' = srv\<lparr>ds_tasks := (ds_tasks srv)\<lparr>qs_queue := generate_key (qs_queue (ds_tasks srv))\<rparr>\<rparr>
   in task \<in> set (qs_started (ds_tasks srv')) \<and> sync_from_server (ds_config srv') (t_in task) = No_Call"
proof -
  let ?task = "\<lparr>t_in = (''a.cn'', sample_server\<lparr>sv_type := ''DOH''\<rparr>), t_priority = 100, t_id = 0, t_pk = ''k'', t_status = RUNNING\<rparr>"
  let ?srv = "(sample_dns_server [])\<lparr>ds_tasks := (ds_tasks (sample_dns_server []))\<lparr>qs_started := [?task]\<rparr>\<rparr>"
  have "server_step (sample_env sample_codec) ?srv
      (?srv\<lparr>ds_tasks := (ds_tasks ?srv)\<lparr>qs_queue := generate_key (qs_queue (ds_tasks ?srv))\<rparr>\<rparr>)" by (rule server_step.tick)
  note run = r_into_rtranclp [of "server_step (sample_env sample_codec)", OF this]
  have "sync_from_server (ds_config ?srv) (t_in ?task) = No_Call" by (simp add: sync_from_server_def)
  from unsupported_server_holds_place [OF run _ this] show ?thesis by (simp add: Let_def)
qed

text \<open>The handler of a task that brought addresses, and the look into the cache after it.\<close>

lemma learnt_record:
  assumes "leveldb_laws (en_db E)" and "value_codec_laws (en_values E)" and "records_codec_laws (en_records E)"
    and "sort_laws (en_sort E)" and "shuffle_laws (en_shuffle E)"
    and "t_in task = (host, server)" and "host \<noteq> []" and "ips \<noteq> []"
    and "select_servers (en_regex E) host (cf_servers (ds_config srv)) = Some servers" and "server \<in> set servers"
    and "old = fst (get_dns_records_pb (en_db E) (en_values E) (en_records E) now host (ds_records srv))"
    and "new = old\<lparr>ps_domain := host, ps_map := map_set (server_id server)
           \<lparr>pr_expire = word_of_int ((if load_all then sv_cache_expire server else sv_cache_expire server sdiv 2)
              + int (now div 1000)), pr_ips = ips\<rparr> (ps_map old)\<rparr>"
    and "CHR 0x00 \<notin> set (rc_serialize (en_records E) new)" and "now \<le> t"
  shows "\<exists>srv' record srv''. multi_area_complete_handler E now task ips load_all srv = Some srv'
           \<and> qs_started (ds_tasks srv') = remove1 task (qs_started (ds_tasks srv))
           \<and> t_pk task \<notin> set (task_pks (qs_queue (ds_tasks srv'))) \<and> same_sessions srv srv'
           \<and> query_record_from_cache E t host srv' = Some (record, srv'') \<and> dr_ips record \<noteq> []
           \<and> set (dr_ips record) \<subseteq> answered_ips servers new"
proof -
  define expire where "expire = (if load_all then sv_cache_expire server else sv_cache_expire server sdiv 2)"
  obtain rm m where add: "record_manager_add (en_db E) (en_values E) (en_records E) now host ips (server_id server) expire
      (ds_records srv) (ds_areas srv) = (rm, m)" by fastforce
  let ?srv1 = "srv\<lparr>ds_records := rm, ds_areas := m\<rparr>"
  let ?cached = "\<lambda>u s. fst (get_dns_records_pb (en_db E) (en_values E) (en_records E) u host (ds_records s))"
  have cached: "?cached u ?srv1 = new" if "now \<le> u" for u
    using add_get [OF assms(1-3,7,11) assms(12) [folded expire_def] assms(13) that, where dn' = host and m = "ds_areas srv"] add
    by simp
  have stored: "map_of (ps_map new) (server_id server) \<noteq> None"
    "pr_ips (the (map_of (ps_map new) (server_id server))) = ips"
    using add_get [OF assms(1-3,7,11) assms(12) [folded expire_def] assms(13) order_refl] by simp_all
  have find: "\<exists>r srv'. server_resolve E u host s = Some (r, srv') \<and> dr_ips r \<noteq> [] \<and> set (dr_ips r) \<subseteq> answered_ips servers new"
    if conf: "ds_config s = ds_config srv" and cached: "?cached u s = new" for s u
  proof -
    obtain rm' where g: "get_dns_records_pb (en_db E) (en_values E) (en_records E) u host (ds_records s) = (new, rm')"
      using cached by (metis prod.collapse)
    from stored obtain rec where "map_of (ps_map new) (server_id server) = Some rec" "pr_ips rec \<noteq> []"
      using assms(8) by auto
    then have "\<exists>r m'. manager_transform (en_regex E) (en_sort E) (en_shuffle E) u (en_areas E) (cf_servers (ds_config s)) new (ds_areas s)
        = Some (r, m') \<and> dr_ips r \<noteq> [] \<and> set (dr_ips r) \<subseteq> answered_ips servers new"
      using assms(9,12) conf by (intro transform_nonempty [OF assms(4,5) _ assms(10)]) simp_all
    with g show ?thesis by (auto simp: server_resolve_def record_manager_resolve_def Let_def)
  qed
  obtain r srv2 where r: "server_resolve E now host ?srv1 = Some (r, srv2)" using find [of ?srv1 now] cached by auto
  define srv' where "srv' = srv2\<lparr>ds_tasks := (ds_tasks srv2)\<lparr>qs_queue := queue_complete task (qs_queue (ds_tasks srv2)),
                                            qs_started := remove1 task (qs_started (ds_tasks srv2))\<rparr>\<rparr>"
  have run: "multi_area_complete_handler E now task ips load_all srv = Some srv'"
    using assms(6,8) add r by (simp add: multi_area_complete_handler_def Let_def expire_def srv'_def)
  have same: "same_sessions ?srv1 srv2 \<and> ds_tasks srv2 = ds_tasks ?srv1" by (rule server_resolve_same [OF r])
  have "ds_records srv2 = snd (get_dns_records_pb (en_db E) (en_values E) (en_records E) now host rm)"
    using r by (auto simp: server_resolve_def record_manager_resolve_def Let_def bind_eq_Some_conv split: prod.splits)
  then have "?cached t srv' = new" using get_get_records [OF assms(1,2,14)] cached [OF assms(14)] by (simp add: srv'_def)
  moreover have frame: "same_sessions srv srv'" using same by (simp add: srv'_def same_sessions_def)
  ultimately obtain r' srv'' where "server_resolve E t host srv' = Some (r', srv'')" "dr_ips r' \<noteq> []"
    "set (dr_ips r') \<subseteq> answered_ips servers new"
    using find [of srv' t] by (auto simp: same_sessions_def)
  then have "query_record_from_cache E t host srv' = Some (r', srv'')" "dr_ips r' \<noteq> []" "set (dr_ips r') \<subseteq> answered_ips servers new"
    by (simp_all add: query_record_from_cache_def)
  moreover have "qs_started (ds_tasks srv') = remove1 task (qs_started (ds_tasks srv))"
    "t_pk task \<notin> set (task_pks (qs_queue (ds_tasks srv')))"
    using same by (simp_all add: srv'_def queue_complete_def)
  ultimately show ?thesis using run frame by blast
qed

end
