(* ===== verification/Upstream.thy ===== *)
theory Upstream
  imports Dns_Server
begin

text \<open>
  A running task and the client together: what \<open>sync_dns_record_from_remote\<close> of \<open>core/dns_server.cpp\<close> asks
  of \<open>core/dns_client.cpp\<close>, from the call to the handler that it passes. Each exchange sees its own
  events of the network; the exchanges of several areas end in any order.
\<close>

section \<open>Calls of the client\<close>

type_synonym net_events = "(io_error option \<times> nat \<times> u8 list) list"

text \<open>The \<open>int\<close> of the configuration becomes a \<open>uint64_t\<close>.\<close>

definition call_timeout :: "int \<Rightarrow> nat" where
  "call_timeout timeout = unat (word_of_int timeout :: u64)"

text \<open>One exchange for each area, started one after the other.\<close>

fun start_exchanges :: "bool \<Rightarrow> string \<Rightarrow> nat \<Rightarrow> nat \<Rightarrow> (string \<times> u16) list \<Rightarrow> u16 \<Rightarrow> (tcp_exchange list \<times> u16) option" where
  "start_exchanges tls dn timeout now [] gen = Some ([], gen)"
| "start_exchanges tls dn timeout now (area # areas) gen = do {
     (tx, gen1) \<leftarrow> tcp_start tls dn timeout now gen;
     (txs, gen2) \<leftarrow> start_exchanges tls dn timeout now areas gen1;
     Some (tx # txs, gen2) }"

fun run_exchanges :: "net_events list \<Rightarrow> tcp_exchange list \<Rightarrow> tcp_exchange list option" where
  "run_exchanges (net # nets) (tx # txs) = do {
     tx' \<leftarrow> tcp_run net tx; txs' \<leftarrow> run_exchanges nets txs; Some (tx' # txs') }"
| "run_exchanges nets txs = Some txs"

text \<open>
  The calls of the handler, with the flag whether every area has answered. \<open>arrive\<close> is the order in which
  the exchanges end, \<open>ord\<close> the iteration order of the set of addresses.
\<close>

definition tcp_call ::
  "(u32 list \<Rightarrow> u32 list) \<Rightarrow> (tcp_exchange list \<Rightarrow> tcp_exchange list) \<Rightarrow> bool \<Rightarrow> string \<Rightarrow> nat \<Rightarrow> nat \<Rightarrow> (string \<times> u16) list
     \<Rightarrow> u16 \<Rightarrow> net_events list \<Rightarrow> ((u32 list \<times> bool) list \<times> u16) option" where
  "tcp_call ord arrive tls dn timeout now areas gen nets = do {
     (txs, gen') \<leftarrow> start_exchanges tls dn timeout now (if areas = [] then [no_area] else areas) gen;
     txs' \<leftarrow> run_exchanges nets txs;
     calls \<leftarrow> multi_area_calls ord tls areas (concat (map tx_calls (arrive txs')));
     Some (calls, gen') }"

definition udp_call :: "string \<Rightarrow> nat \<Rightarrow> nat \<Rightarrow> u16 \<Rightarrow> net_events \<Rightarrow> ((u32 list \<times> bool) list \<times> u16) option" where
  "udp_call dn timeout now gen net = do {
     (ux, req, gen') \<leftarrow> udp_dns dn timeout now gen;
     ux' \<leftarrow> udp_run net ux;
     Some (map (\<lambda>ips. (ips, True)) (ux_calls ux'), gen') }"

definition remote_answers ::
  "(u32 list \<Rightarrow> u32 list) \<Rightarrow> (tcp_exchange list \<Rightarrow> tcp_exchange list) \<Rightarrow> nat \<Rightarrow> u16 \<Rightarrow> net_events list \<Rightarrow> remote_call
     \<Rightarrow> ((u32 list \<times> bool) list \<times> u16) option" where
  "remote_answers ord arrive now gen nets call = (case call of
     Tcp_Tls_Dns host ip port timeout areas \<Rightarrow> tcp_call ord arrive True host (call_timeout timeout) now areas gen nets
   | Tcp_Dns host ip port timeout areas \<Rightarrow> tcp_call ord arrive False host (call_timeout timeout) now areas gen nets
   | Udp_Dns host ip port timeout \<Rightarrow> udp_call host (call_timeout timeout) now gen (concat (take 1 nets))
   | No_Call \<Rightarrow> Some ([], gen))"

section \<open>At most one answer\<close>

lemma start_exchanges_once:
  "start_exchanges tls dn timeout now areas gen = Some (txs, gen') \<Longrightarrow> length txs = length areas \<and> (\<forall>tx \<in> set txs. tcp_once tx)"
proof (induction areas arbitrary: gen txs gen')
  case (Cons a areas)
  then show ?case using tcp_start_once by (fastforce simp: bind_eq_Some_conv)
qed simp

lemma run_exchanges_once:
  "run_exchanges nets txs = Some txs' \<Longrightarrow> \<forall>tx \<in> set txs. tcp_once tx \<Longrightarrow> length txs' = length txs \<and> (\<forall>tx \<in> set txs'. tcp_once tx)"
proof (induction nets txs arbitrary: txs' rule: run_exchanges.induct)
  case (1 net nets tx txs)
  then show ?case using tcp_run_once by (fastforce simp: bind_eq_Some_conv)
qed simp_all

lemma once_calls: "\<forall>tx \<in> set txs. tcp_once tx \<Longrightarrow> length (concat (map tx_calls txs)) \<le> length txs"
proof (induction txs)
  case (Cons tx txs)
  then have "length (tx_calls tx) \<le> 1" by (auto simp: tcp_once_def split: if_splits)
  with Cons show ?case by simp
qed simp

text \<open>Fewer answers than areas: the handler is not called.\<close>

lemma run_handlers_partial:
  assumes "unat (ma_counter ma) + length answers < areas" and "areas < 2 ^ 16" and "\<not> ma_deleted ma"
  shows "\<exists>ma'. run_handlers ord tls areas answers ma = Some ma' \<and> ma_calls ma' = ma_calls ma"
  using assms
proof (induction answers arbitrary: ma)
  case (Cons ips answers)
  have c: "unat (ma_counter ma + 1) = Suc (unat (ma_counter ma))"
    using Cons.prems(1,2) by (subst unat_word_ariths) (simp add: less_eq_Suc_le)
  obtain ma1 where ma1: "each_handler ord tls areas ips ma = Some ma1" "ma_counter ma1 = ma_counter ma + 1"
    "\<not> ma_deleted ma1" "ma_calls ma1 = ma_calls ma"
    using Cons.prems c by (auto simp: each_handler_def Let_def)
  with Cons.IH [of ma1] Cons.prems c show ?case by simp
qed simp

lemma multi_area_at_most_once:
  assumes "multi_area_calls ord tls areas answers = Some calls" and "length answers \<le> max 1 (length areas)"
    and "length areas < 2 ^ 16"
  shows "length calls \<le> 1"
proof (cases "length areas \<le> 1")
  case True
  with assms show ?thesis by (auto simp: multi_area_calls_def)
next
  case False
  show ?thesis
  proof (cases "length answers = length areas")
    case True
    then have "answers \<noteq> []" using False by auto
    with run_handlers_correct [of multi_area_new answers "length areas" ord tls] True assms(1,3) False show ?thesis
      by (auto simp: multi_area_calls_def multi_area_new_def)
  next
    case less: False
    with run_handlers_partial [of multi_area_new answers "length areas" ord tls] assms False show ?thesis
      by (auto simp: multi_area_calls_def multi_area_new_def)
  qed
qed

definition udp_once :: "udp_exchange \<Rightarrow> bool" where
  "udp_once ux \<longleftrightarrow> (if ux_phase ux = None then length (ux_calls ux) = 1 else ux_calls ux = [])"

lemma udp_handler_once: "udp_handler ec now bytes ux = Some ux' \<Longrightarrow> udp_once ux \<Longrightarrow> udp_once ux'"
  by (auto simp: udp_handler_def udp_once_def udp_complete_def bind_eq_Some_conv Let_def
      split: option.splits if_splits udp_phase.splits)

lemma udp_run_once: "udp_run evs ux = Some ux' \<Longrightarrow> udp_once ux \<Longrightarrow> udp_once ux'"
  by (induction evs ux rule: udp_run.induct) (auto simp: bind_eq_Some_conv dest: udp_handler_once)

lemma tcp_call_at_most_once:
  assumes "tcp_call ord arrive tls dn timeout now areas gen nets = Some (calls, gen')"
    and "\<And>txs. mset (arrive txs) = mset txs" and "length areas < 2 ^ 16"
  shows "length calls \<le> 1"
proof -
  let ?areas = "if areas = [] then [no_area] else areas"
  from assms(1) obtain txs txs' where start: "start_exchanges tls dn timeout now ?areas gen = Some (txs, gen')"
    and run: "run_exchanges nets txs = Some txs'"
    and calls: "multi_area_calls ord tls areas (concat (map tx_calls (arrive txs'))) = Some calls"
    by (auto simp: tcp_call_def bind_eq_Some_conv)
  from start_exchanges_once [OF start] have txs: "length txs = length ?areas" "\<forall>tx \<in> set txs. tcp_once tx" by auto
  have len: "length txs' = length ?areas" and once: "\<forall>tx \<in> set txs'. tcp_once tx"
    using run_exchanges_once [OF run txs(2)] txs(1) by auto
  have "set (arrive txs') = set txs'" "length (arrive txs') = length txs'"
    using assms(2) [of txs'] by (metis set_mset_mset) (metis assms(2) size_mset)
  with once_calls [of "arrive txs'"] once len have "length (concat (map tx_calls (arrive txs'))) \<le> max 1 (length areas)"
    by (auto split: if_splits)
  from multi_area_at_most_once [OF calls this assms(3)] show ?thesis .
qed

section \<open>A server that answers\<close>

text \<open>The events of an exchange that goes well: every operation ends at the time \<open>t\<close>, the last one with the answer.\<close>

definition answered_by :: "remote_dns_server \<Rightarrow> nat \<Rightarrow> u8 list \<Rightarrow> net_events" where
  "answered_by server t bs =
     (if sv_type server = ''UDP'' then [(None, t, []), (None, t, bs)]
      else replicate (if sv_type server = ''TCP_SSL'' then 2 else 1) (None, t, [])
           @ [(None, t, []), (None, t, int_bytes (word_of_nat (length bs) :: u16)), (None, t, bs)])"

text \<open>At most one exchange: no areas, or one.\<close>

definition one_exchange :: "config \<Rightarrow> remote_dns_server \<Rightarrow> bool" where
  "one_exchange conf server \<longleftrightarrow> length (case find (\<lambda>s. server_id s = server_id server) (cf_servers conf) of
     Some s \<Rightarrow> resolve_optimize_areas s | None \<Rightarrow> resolve_optimize_areas server) \<le> 1"

lemma tcp_run_append: "tcp_run (evs1 @ evs2) tx = do { tx' \<leftarrow> tcp_run evs1 tx; tcp_run evs2 tx' }"
proof (induction evs1 tx rule: tcp_run.induct)
  case (2 ec now bytes evs tx)
  then show ?case by (cases "tcp_handler ec now bytes tx") simp_all
qed simp

lemma tcp_call_one:
  assumes "tcp_start tls dn timeout now gen = Some (tx, gen')" and "tcp_run net tx = Some tx'" and "tx_calls tx' = [ips]"
    and "length areas \<le> 1" and "\<And>txs. mset (arrive txs) = mset txs"
  shows "tcp_call ord arrive tls dn timeout now areas gen [net] = Some ([(ips, True)], gen')"
proof -
  have "length (if areas = [] then [no_area] else areas) = 1" using assms(4) by (cases areas) auto
  then obtain a where "(if areas = [] then [no_area] else areas) = [a]" by (auto simp: length_Suc_conv)
  moreover have "arrive [tx'] = [tx']" using assms(5) [of "[tx']"] by simp
  ultimately show ?thesis using assms(1-4) by (simp add: tcp_call_def multi_area_calls_def)
qed

text \<open>Such an exchange ends with one call on the addresses of the answer.\<close>

lemma answered_exchange:
  assumes "query_fits [dn]" and "wf_questions qs" and "qs \<noteq> []" and "length (answer_bytes gen qs expire ips) \<le> 1024"
    and "\<not> is_timeout_or_error None t now timeout" and "\<And>txs. mset (arrive txs) = mset txs" and "length areas \<le> 1"
  shows "sv_type server \<noteq> ''UDP'' \<Longrightarrow>
           tcp_call ord arrive (sv_type server = ''TCP_SSL'') dn timeout now areas gen [answered_by server t (answer_bytes gen qs expire ips)]
             = Some ([(ips, True)], gen + 1)"
    and "sv_type server = ''UDP'' \<Longrightarrow>
           udp_call dn timeout now gen (answered_by server t (answer_bytes gen qs expire ips)) = Some ([(ips, True)], gen + 1)"
proof -
  let ?tls = "sv_type server = ''TCP_SSL''"
  have in_time: "\<forall>t' \<in> {t, t, t, t}. \<not> is_timeout_or_error None t' now timeout" using assms(5) by simp
  show "tcp_call ord arrive ?tls dn timeout now areas gen [answered_by server t (answer_bytes gen qs expire ips)]
      = Some ([(ips, True)], gen + 1)" if tcp: "sv_type server \<noteq> ''UDP''"
  proof -
    from tcp_exchange_resolves [OF assms(1-4) in_time, where tls = ?tls and gen = gen] obtain tx tx1 tx2 where
      start: "tcp_start ?tls dn timeout now gen = Some (tx, gen + 1)"
      and "tcp_run (replicate (if ?tls then 2 else 1) (None, t, [])) tx = Some tx1"
      and "tcp_run [(None, t, []), (None, t, int_bytes (word_of_nat (length (answer_bytes gen qs expire ips)) :: u16)),
                    (None, t, answer_bytes gen qs expire ips)] tx1 = Some tx2"
      and calls: "tx_calls tx2 = [ips]" by (auto simp del: tcp_run.simps be_bytes.simps)
    then have "tcp_run (answered_by server t (answer_bytes gen qs expire ips)) tx = Some tx2"
      using tcp by (simp only: answered_by_def tcp_run_append if_False Option.bind.bind_lunit)
    from tcp_call_one [OF start this calls assms(7,6)] show ?thesis .
  qed
  show "udp_call dn timeout now gen (answered_by server t (answer_bytes gen qs expire ips)) = Some ([(ips, True)], gen + 1)"
    if "sv_type server = ''UDP''"
    using udp_exchange_resolves [OF assms(1-5,5), where gen = gen] that
    by (auto simp: udp_call_def answered_by_def simp del: udp_run.simps)
qed

text \<open>
  A task for a server of one of the three types, with no areas or one, gets exactly the addresses that its
  server answers in time, in one call.
\<close>

lemma remote_answers_served:
  assumes "query_fits [host]" and "wf_questions qs" and "qs \<noteq> []" and "length (answer_bytes gen qs expire ips) \<le> 1024"
    and "\<not> is_timeout_or_error None t now (call_timeout (sv_timeout server))"
    and "\<And>txs. mset (arrive txs) = mset txs" and "one_exchange conf server"
    and "sv_type server \<in> {''UDP'', ''TCP'', ''TCP_SSL''}"
  shows "remote_answers ord arrive now gen [answered_by server t (answer_bytes gen qs expire ips)]
           (sync_from_server conf (host, server)) = Some ([(ips, True)], gen + 1)"
proof -
  define areas where "areas = (case find (\<lambda>s. server_id s = server_id server) (cf_servers conf) of
      Some s \<Rightarrow> resolve_optimize_areas s | None \<Rightarrow> resolve_optimize_areas server)"
  have "length areas \<le> 1" using assms(7) by (simp add: areas_def one_exchange_def)
  note ex = answered_exchange [OF assms(1-6) this, of server]
  show ?thesis
    using ex assms(8) by (auto simp: remote_answers_def sync_from_server_def areas_def [symmetric])
qed

section \<open>Properties\<close>

text \<open>
  C16. A running task hears from the client at most once, whatever the network does to any of its exchanges and
  in whatever order they end: so a task is never completed twice.
\<close>

theorem remote_answers_at_most_once:
  assumes "remote_answers ord arrive now gen nets (sync_from_server conf (host, server)) = Some (calls, gen')"
    and "\<And>txs. mset (arrive txs) = mset txs"
    and "\<forall>s \<in> insert server (set (cf_servers conf)). length (resolve_optimize_areas s) < 2 ^ 16"
  shows "length calls \<le> 1"
proof -
  define areas where "areas = (case find (\<lambda>s. server_id s = server_id server) (cf_servers conf) of
      Some s \<Rightarrow> resolve_optimize_areas s | None \<Rightarrow> resolve_optimize_areas server)"
  have small: "length areas < 2 ^ 16"
    using assms(3) by (auto simp: areas_def find_Some_iff split: option.splits)
  consider (tcp) tls where "tcp_call ord arrive tls host (call_timeout (sv_timeout server)) now areas gen nets = Some (calls, gen')"
    | (udp) "udp_call host (call_timeout (sv_timeout server)) now gen (concat (take 1 nets)) = Some (calls, gen')"
    | (none) "calls = []"
    using assms(1) by (auto simp: remote_answers_def sync_from_server_def areas_def [symmetric] split: if_splits)
  then show ?thesis
  proof cases
    case tcp
    then show ?thesis using assms(2) small by (rule tcp_call_at_most_once)
  next
    case udp
    then obtain ux req ux' where "udp_dns host (call_timeout (sv_timeout server)) now gen = Some (ux, req, gen')"
      "udp_run (concat (take 1 nets)) ux = Some ux'" "calls = map (\<lambda>ips. (ips, True)) (ux_calls ux')"
      by (auto simp: udp_call_def bind_eq_Some_conv)
    moreover from this(1) have "udp_once ux" by (auto simp: udp_dns_def udp_once_def bind_eq_Some_conv)
    ultimately have "udp_once ux'" "calls = map (\<lambda>ips. (ips, True)) (ux_calls ux')" using udp_run_once by blast+
    then show ?thesis by (auto simp: udp_once_def split: if_splits)
  qed simp
qed

theorem remote_answers_at_most_once_witness:
  "\<exists>calls. remote_answers sort rev 4000 3 [answered_by sample_server 4050 (answer_bytes 3 [(''a.cn'', 1, 1)] 60 [7])]
       (sync_from_server config_default (''a.cn'', sample_server)) = Some (calls, 4)
     \<and> calls = [([7], True)] \<and> length calls \<le> 1"
proof -
  have server: "resolve_optimize_areas sample_server = []" "sv_timeout sample_server = 100" "sv_type sample_server = ''UDP''"
    by (simp_all add: sample_server_def remote_dns_server_new_def)
  have conf: "cf_servers config_default = []" by (simp add: config_default_def)
  have run: "remote_answers sort rev 4000 3 [answered_by sample_server 4050 (answer_bytes 3 [(''a.cn'', 1, 1)] 60 [7])]
      (sync_from_server config_default (''a.cn'', sample_server)) = Some ([([7], True)], 3 + 1)"
    by (rule remote_answers_served)
       (simp_all add: server conf one_exchange_def call_timeout_def is_timeout_or_error_def minus_u64_def
          query_fits_def wf_host_def wf_label_def answer_bytes_def)
  have "length [([7 :: u32], True)] \<le> 1"
    by (rule remote_answers_at_most_once [OF run]) (simp_all add: server conf)
  with run show ?thesis by simp
qed

end
