(* ===== verification/Area_Sync.thy ===== *)
theory Area_Sync
  imports Area_Ip "HOL-Library.Multiset"
begin

text \<open>
  The synchronisation of the learnt areas with their file, \<open>manager::sync_net_area_ip\<close> of
  \<open>utils/area_ip.cpp\<close>: which of cache and file become the union of the two, and when. The code holds the lock
  of the cache for the snapshot and for the replacement, not for the merge between them, so other threads,
  such as the one that learns areas, may run in between.
\<close>

section \<open>The critical sections\<close>

text \<open>
  The merge works on the snapshot \<open>net\<close>. Its result is what replaces file and cache, or nothing if the
  snapshot adds no line or there is no file.
\<close>

definition sync_merge ::
  "(u32 \<times> string) list \<Rightarrow> (string list \<Rightarrow> string list) \<Rightarrow> area_manager
     \<Rightarrow> (cpp_fault + (string \<times> (u32 \<rightharpoonup> string)) option) option" where
  "sync_merge net order m =
     (case files m ip_net_area_file of
        None \<Rightarrow> Some (Inr None)
      | Some content \<Rightarrow>
          (let ori = foldl (\<lambda>acc line. if line \<noteq> [] then insert_new line acc else acc) [] (getlines content);
               merged = foldl (\<lambda>acc (ip, area). insert_new (ip_to_str ip @ tab @ area) acc) ori net
           in if length ori \<noteq> length merged then do {
                r \<leftarrow> sync_records (order merged) [] Map.empty;
                Some (case r of Inl e \<Rightarrow> Inl e | Inr work \<Rightarrow> Inr (Some work)) }
              else Some (Inr None)))"

definition sync_commit :: "(string \<times> (u32 \<rightharpoonup> string)) option \<Rightarrow> nat \<Rightarrow> nat \<Rightarrow> area_manager \<Rightarrow> area_manager" where
  "sync_commit work last_write_time tmp_crate_time m =
     (case work of
        None \<Rightarrow> create_area_file ip_net_area_file m
      | Some (out, caches) \<Rightarrow>
          (let m1 = m\<lparr>net_caches := caches\<rparr>
           in if last_write_time < tmp_crate_time then m1\<lparr>files := (files m1)(ip_net_area_file \<mapsto> out)\<rparr> else m1))"

lemma sync_net_area_ip_sections:
  "sync_net_area_ip net order lwt tct m =
     map_option (\<lambda>r. case r of Inl e \<Rightarrow> (Inl e, m) | Inr work \<Rightarrow> (Inr (), sync_commit work lwt tct m)) (sync_merge net order m)"
proof (cases "files m ip_net_area_file")
  case None
  then show ?thesis by (simp add: sync_net_area_ip_def sync_merge_def sync_commit_def)
next
  case (Some content)
  then have "create_area_file ip_net_area_file m = m" by (simp add: create_area_file_def)
  with Some show ?thesis
    by (auto simp: sync_net_area_ip_def sync_merge_def sync_commit_def Let_def
        split: Option.bind_splits sum.splits)
qed

section \<open>Lines of the file\<close>

definition record_line :: "u32 \<times> string \<Rightarrow> string" where
  "record_line p = ip_to_str (fst p) @ tab @ snd p"

definition area_file :: "(u32 \<times> string) list \<Rightarrow> string" where
  "area_file ps = concat (map (\<lambda>l. l @ [CHR 0x0A]) (map record_line ps))"

text \<open>An area without a tab and a line break, for an address that the code does not take for invalid.\<close>

definition wf_entry :: "u32 \<times> string \<Rightarrow> bool" where
  "wf_entry p \<longleftrightarrow> fst p \<noteq> 9 \<and> snd p \<noteq> [] \<and> set tab \<inter> set (snd p) = {} \<and> CHR 0x0A \<notin> set (snd p)"

lemma tab_not_in_ip: "CHR 0x09 \<notin> set (ip_to_str ip)" "CHR 0x0A \<notin> set (ip_to_str ip)"
  using ip_to_str_chars [of "CHR 0x09" ip] ip_to_str_chars [of "CHR 0x0A" ip] by (auto simp: is_digit_def)

lemma record_line_split:
  assumes "wf_entry p"
  shows "split (record_line p) tab = Some [ip_to_str (fst p), snd p]"
proof -
  have "CHR 0x09 \<notin> set (snd p)" using assms by (auto simp: wf_entry_def tab_def)
  then have "split_on (CHR 0x09) (ip_to_str (fst p) @ CHR 0x09 # snd p) = [ip_to_str (fst p), snd p]"
    using tab_not_in_ip(1) by (simp add: split_on_sep split_on_no_sep)
  then show ?thesis by (simp add: record_line_def tab_def split_nonempty)
qed

lemma record_line_inj: "wf_entry p \<Longrightarrow> wf_entry q \<Longrightarrow> record_line p = record_line q \<Longrightarrow> p = q"
  using record_line_split [of p] record_line_split [of q] dotted_roundtrip [of "fst p"] dotted_roundtrip [of "fst q"]
  by (auto intro: prod_eqI)

lemma record_line_text: "wf_entry p \<Longrightarrow> record_line p \<noteq> [] \<and> CHR 0x0A \<notin> set (record_line p)"
  using tab_not_in_ip(2) by (auto simp: record_line_def wf_entry_def tab_def)

definition enter :: "(u32 \<rightharpoonup> string) \<Rightarrow> u32 \<times> string \<Rightarrow> u32 \<rightharpoonup> string" where
  "enter c p = c(fst p \<mapsto> snd p)"

lemma sync_records_lines:
  "\<forall>p \<in> set ps. wf_entry p \<Longrightarrow>
     sync_records (map record_line ps) out caches = Some (Inr (out @ area_file ps, foldl enter caches ps))"
proof (induction ps arbitrary: out caches)
  case Nil
  then show ?case by (simp add: area_file_def)
next
  case (Cons p ps)
  then have p: "wf_entry p" by simp
  then have "fst p \<noteq> 9 \<and> snd p \<noteq> []" by (simp add: wf_entry_def)
  with Cons show ?case
    by (simp add: record_line_split [OF p] dotted_roundtrip area_file_def enter_def [symmetric])
qed

text \<open>No address with two areas: then the order in which the entries are read does not matter.\<close>

definition functional :: "(u32 \<times> string) set \<Rightarrow> bool" where
  "functional S \<longleftrightarrow> (\<forall>ip a b. (ip, a) \<in> S \<longrightarrow> (ip, b) \<in> S \<longrightarrow> a = b)"

lemma foldl_enter: "functional (set ps) \<Longrightarrow>
    foldl enter c ps ip = Some a \<longleftrightarrow> (ip, a) \<in> set ps \<or> c ip = Some a \<and> (\<forall>b. (ip, b) \<notin> set ps)"
proof (induction ps arbitrary: c)
  case (Cons p ps)
  then have f: "functional (set ps)" by (auto simp: functional_def)
  obtain i b where p: "p = (i, b)" by fastforce
  have b: "b' = b" if "(i, b') \<in> set ps" for b' using Cons(2) that by (auto simp: p functional_def)
  have step: "foldl enter c (p # ps) ip = Some a \<longleftrightarrow> (ip, a) \<in> set ps \<or> enter c p ip = Some a \<and> (\<forall>b. (ip, b) \<notin> set ps)"
    using Cons.IH [OF f, of "enter c p"] by simp
  show ?case
  proof (cases "ip = i")
    case True
    have "enter c p ip = Some b" using True by (simp add: p enter_def)
    with step b True show ?thesis by (cases "\<exists>b'. (i, b') \<in> set ps") (auto simp: p)
  next
    case False
    then have "enter c p ip = c ip" by (simp add: p enter_def)
    with step False show ?thesis by (simp add: p)
  qed
qed simp

lemma foldl_enter_map_of: "functional (set ps) \<Longrightarrow> foldl enter Map.empty ps ip = Some a \<longleftrightarrow> (ip, a) \<in> set ps"
  by (simp add: foldl_enter)

section \<open>The merge\<close>

definition add_new :: "'a list \<Rightarrow> 'a list \<Rightarrow> 'a list" where
  "add_new acc xs = foldl (\<lambda>acc x. insert_new x acc) acc xs"

lemma add_new_simps [simp]: "add_new acc [] = acc" "add_new acc (x # xs) = add_new (insert_new x acc) xs"
  by (simp_all add: add_new_def)

lemma set_add_new [simp]: "set (add_new acc xs) = set acc \<union> set xs"
  by (induction xs arbitrary: acc) auto

lemma length_add_new_le: "length acc \<le> length (add_new acc xs)"
proof (induction xs arbitrary: acc)
  case (Cons x xs)
  have "length acc \<le> length (insert_new x acc)" by simp
  also have "\<dots> \<le> length (add_new (insert_new x acc) xs)" by (rule Cons.IH)
  finally show ?case by simp
qed simp

lemma length_add_new: "length (add_new acc xs) = length acc \<longleftrightarrow> set xs \<subseteq> set acc"
proof (induction xs arbitrary: acc)
  case (Cons x xs)
  with length_add_new_le [of "acc @ [x]" xs] show ?case by auto
qed simp

text \<open>Lines and entries are added alike.\<close>

lemma insert_new_lines:
  "\<forall>q \<in> insert p (set ps). wf_entry q \<Longrightarrow> insert_new (record_line p) (map record_line ps) = map record_line (insert_new p ps)"
proof -
  assume wf: "\<forall>q \<in> insert p (set ps). wf_entry q"
  have "p = q" if "record_line p = record_line q" "q \<in> set ps" for q using record_line_inj that wf by blast
  then have "record_line p \<in> set (map record_line ps) \<longleftrightarrow> p \<in> set ps" by auto
  then show ?thesis by simp
qed

lemma add_new_lines:
  "\<forall>p \<in> set acc \<union> set ps. wf_entry p \<Longrightarrow> add_new (map record_line acc) (map record_line ps) = map record_line (add_new acc ps)"
proof (induction ps arbitrary: acc)
  case (Cons p ps)
  then have "insert_new (record_line p) (map record_line acc) = map record_line (insert_new p acc)"
    by (intro insert_new_lines) auto
  with Cons show ?case by (simp del: insert_new.simps) (rule Cons.IH, auto)
qed simp

lemma read_lines:
  "\<forall>p \<in> set ps. wf_entry p \<Longrightarrow>
     foldl (\<lambda>acc line. if line \<noteq> [] then insert_new line acc else acc) [] (getlines (area_file ps)) = map record_line (add_new [] ps)"
proof -
  assume wf: "\<forall>p \<in> set ps. wf_entry p"
  have lines: "getlines (area_file ps) = map record_line ps"
    unfolding area_file_def by (rule getlines_concat) (use wf record_line_text in auto)
  have "foldl (\<lambda>acc line. if line \<noteq> [] then insert_new line acc else acc) [] (map record_line ps) = add_new [] (map record_line ps)"
    unfolding add_new_def by (rule foldl_cong) (use wf record_line_text in auto)
  also have "\<dots> = map record_line (add_new [] ps)" using add_new_lines [of "[]" ps] wf by simp
  finally show ?thesis by (simp only: lines)
qed

lemma merge_lines:
  "\<forall>p \<in> set acc \<union> set net. wf_entry p \<Longrightarrow>
     foldl (\<lambda>acc (ip, area). insert_new (ip_to_str ip @ tab @ area) acc) (map record_line acc) net = map record_line (add_new acc net)"
proof -
  assume wf: "\<forall>p \<in> set acc \<union> set net. wf_entry p"
  have "foldl (\<lambda>acc (ip, area). insert_new (ip_to_str ip @ tab @ area) acc) ls net = add_new ls (map record_line net)" for ls
    by (induction net arbitrary: ls) (simp_all add: record_line_def case_prod_beta del: insert_new.simps)
  then show ?thesis using add_new_lines [OF wf] by simp
qed

text \<open>The iteration order of a set of lines is one of the entries.\<close>

lemma ordered_lines:
  assumes "mset ls = mset (map record_line us)" and "\<forall>p \<in> set us. wf_entry p"
  obtains us' where "ls = map record_line us'" and "set us' = set us"
proof -
  let ?f = "inv_into (set us) record_line"
  have img: "set ls = record_line ` set us" using assms(1) by (metis set_map set_mset_mset)
  have "ls = map record_line (map ?f ls)"
    unfolding map_map by (rule map_idI [symmetric]) (simp add: img f_inv_into_f)
  moreover have "set (map ?f ls) = set us"
  proof -
    have "inj_on record_line (set us)" using assms(2) record_line_inj by (intro inj_onI) blast
    then show ?thesis by (simp add: img image_image inv_into_f_f)
  qed
  ultimately show ?thesis by (rule that)
qed

lemma sync_merge_entries:
  assumes "files m ip_net_area_file = Some (area_file ps)" and "\<forall>p \<in> set ps \<union> set net. wf_entry p"
    and "\<And>ls. mset (order ls) = mset ls"
  shows "if set net \<subseteq> set ps then sync_merge net order m = Some (Inr None)
         else \<exists>us. set us = set ps \<union> set net \<and> sync_merge net order m = Some (Inr (Some (area_file us, foldl enter Map.empty us)))"
proof -
  let ?ori = "add_new [] ps" and ?us = "add_new (add_new [] ps) net"
  have wf: "\<forall>p \<in> set ?us. wf_entry p" "\<forall>p \<in> set ?ori \<union> set net. wf_entry p" using assms(2) by auto
  have read: "foldl (\<lambda>acc line. if line \<noteq> [] then insert_new line acc else acc) [] (getlines (area_file ps)) = map record_line ?ori"
    using assms(2) by (intro read_lines) auto
  have same: "length ?ori = length ?us \<longleftrightarrow> set net \<subseteq> set ps" using length_add_new [of ?ori net] by auto
  obtain us' where us': "order (map record_line ?us) = map record_line us'" "set us' = set ?us"
    using ordered_lines [OF assms(3) wf(1)] by metis
  have "sync_records (order (map record_line ?us)) [] Map.empty = Some (Inr (area_file us', foldl enter Map.empty us'))"
    using sync_records_lines [of us' "[]" Map.empty] us' wf(1) by simp
  with same us'(2) show ?thesis
    by (auto simp: sync_merge_def assms(1) Let_def read merge_lines [OF wf(2)] simp del: insert_new.simps)
qed

section \<open>Properties\<close>


text \<open>A manager whose file knows one address and whose cache another one.\<close>

definition sample_sync_manager :: area_manager where
  "sample_sync_manager = \<lparr>default_caches = Map.empty, net_caches = [8 \<mapsto> ''US''], am_ips = [], last_load_ip_info_time = 0,
     last_load_area_ips_time = 0, interfaces = [], files = [ip_net_area_file \<mapsto> area_file [(7, ''CN'')]],
     ctx_tasks = [], delay_timers = []\<rparr>"

lemma sample_entries: "\<forall>p \<in> set [(7, ''CN'')] \<union> set [(8, ''US'')]. wf_entry p"
  by (simp add: wf_entry_def tab_def)


text \<open>
  An area that is learnt between the two critical sections is lost: the replacement installs what the
  snapshot and the file hold.
\<close>

theorem learnt_between_sections_lost:
  assumes "files m ip_net_area_file = Some (area_file ps)" and "\<forall>p \<in> set ps \<union> set net. wf_entry p"
    and "\<And>ls. mset (order ls) = mset ls" and "\<not> set net \<subseteq> set ps"
    and "ip \<notin> fst ` (set ps \<union> set net)" and "net_caches m ip = None" and "learnt \<noteq> []"
  shows "\<exists>work. sync_merge net order m = Some (Inr (Some work))
    \<and> net_caches (do_load_ip_info now ip learnt m) ip = Some learnt
    \<and> net_caches (sync_commit (Some work) lwt tct (do_load_ip_info now ip learnt m)) ip = None"
proof -
  obtain us where us: "set us = set ps \<union> set net"
    "sync_merge net order m = Some (Inr (Some (area_file us, foldl enter Map.empty us)))"
    using sync_merge_entries [OF assms(1-3)] assms(4) by auto
  have "foldl enter c us ip = c ip" if "ip \<notin> fst ` set us" for c
    using that by (induction us arbitrary: c) (auto simp: enter_def)
  then have "foldl enter Map.empty us ip = None" using assms(5) us(1) by simp
  moreover have "net_caches (do_load_ip_info now ip learnt m) ip = Some learnt"
    using assms(6,7) by (simp add: do_load_ip_info_def get_area_net_def async_load_area_ips_def post_task_def Let_def)
  ultimately show ?thesis using us(2) by (auto simp: sync_commit_def Let_def)
qed

theorem learnt_between_sections_lost_witness:
  "\<exists>work. sync_merge [(8, ''US'')] rev sample_sync_manager = Some (Inr (Some work))
     \<and> net_caches (do_load_ip_info 5 1 ''JP'' sample_sync_manager) 1 = Some ''JP''
     \<and> net_caches (sync_commit (Some work) 0 1 (do_load_ip_info 5 1 ''JP'' sample_sync_manager)) 1 = None"
  by (rule learnt_between_sections_lost [OF _ sample_entries]) (simp_all add: sample_sync_manager_def)

end
