(* ===== verification/Counters.thy ===== *)
theory Counters
  imports St_Prelude "HOL-Library.Signed_Division" "HOL-Library.Multiset"
begin

text \<open>
  The counters of \<open>src/common/main/utils/\<close>: \<open>avg_counter.h\<close>, \<open>interval_counter.h\<close> and
  \<open>median_counter.h\<close>. The templates are modelled at 64 bits; \<open>None\<close> is a division by zero or a signed overflow.
  The counters are atomic one by one, so a step of the model is one call.
\<close>

section \<open>Average\<close>

record average =
  av_total :: u64
  av_num :: u64

definition average_new :: average where
  "average_new = \<lparr>av_total = 0, av_num = 0\<rparr>"

definition average_add :: "u64 \<Rightarrow> average \<Rightarrow> average" where
  "average_add v a = \<lparr>av_total = av_total a + v, av_num = av_num a + 1\<rparr>"

definition average_avg :: "average \<Rightarrow> u64 option" where
  "average_avg a = (if av_num a = 0 then None else Some (av_total a div av_num a))"

section \<open>Interval\<close>

record interval =
  last_interval_time :: u64
  last_record_time :: u64
  interval_count :: u64
  total_count :: u64

definition interval_new :: interval where
  "interval_new = \<lparr>last_interval_time = 0, last_record_time = 0, interval_count = 0, total_count = 0\<rparr>"

definition interval_inter :: "u64 \<Rightarrow> interval \<Rightarrow> (u64 \<times> u64) \<times> interval" where
  "interval_inter now c =
     ((now - last_interval_time c, interval_count c), c\<lparr>last_interval_time := now, interval_count := 0\<rparr>)"

definition interval_add :: "u64 \<Rightarrow> u64 \<Rightarrow> interval \<Rightarrow> interval" where
  "interval_add now incr c =
     (let c1 = c\<lparr>last_record_time := now\<rparr>;
          c2 = (if last_interval_time c1 = 0 then c1\<lparr>last_interval_time := last_record_time c1\<rparr> else c1)
      in c2\<lparr>interval_count := interval_count c2 + incr, total_count := total_count c2 + incr\<rparr>)"

definition interval_total :: "interval \<Rightarrow> u64" where
  "interval_total c = total_count c"

definition interval_is_start :: "interval \<Rightarrow> bool" where
  "interval_is_start c \<longleftrightarrow> 0 < interval_total c"

definition interval_get_last_record_time :: "interval \<Rightarrow> u64" where
  "interval_get_last_record_time c = last_record_time c"

section \<open>Median\<close>

text \<open>A queue of at most 1000 numbers; the front is the head of the list.\<close>

type_synonym median = "int list"

definition median_max :: nat where
  "median_max = 1000"

definition median_add :: "int \<Rightarrow> median \<Rightarrow> median" where
  "median_add num q = (let q1 = (if median_max \<le> length q then tl q else q) in q1 @ [num])"

text \<open>The loop of \<open>mid\<close> turns the queue once while it copies it: the numbers and the queue after.\<close>

fun rotate_loop :: "nat \<Rightarrow> median \<Rightarrow> int list \<Rightarrow> int list \<times> median" where
  "rotate_loop 0 q nums = (nums, q)"
| "rotate_loop (Suc k) q nums =
     (case q of [] \<Rightarrow> (nums, q) | val # q1 \<Rightarrow> rotate_loop k (q1 @ [val]) (nums @ [val]))"

text \<open>\<open>None\<close>: the sum of the two middle numbers leaves the range of \<open>long\<close>.\<close>

definition in_long :: "int \<Rightarrow> bool" where
  "in_long n \<longleftrightarrow> - (2 ^ 63) \<le> n \<and> n < 2 ^ 63"

definition median_mid :: "median \<Rightarrow> (int \<times> median) option" where
  "median_mid q =
     (let sz = length q in
      if sz = 0 then Some (0, q)
      else
        (let (nums0, q1) = rotate_loop sz q []; nums = sort nums0 in
         if sz mod 2 = 0 then
           (let s = nums ! (sz div 2 - 1) + nums ! (sz div 2)
            in if in_long s then Some (s sdiv 2, q1) else None)
         else Some (nums ! (sz div 2), q1)))"

section \<open>Lemmas\<close>

lemma rotate_loop_append: "rotate_loop (length xs) (xs @ ys) nums = (nums @ xs, ys @ xs)"
proof (induction xs arbitrary: ys nums)
  case Nil
  then show ?case by simp
next
  case (Cons x xs)
  from Cons [of "ys @ [x]" "nums @ [x]"] show ?case by simp
qed

lemma median_mid_eq:
  "median_mid q = (if q = [] then Some (0, q)
     else if length q mod 2 = 0 then
       (if in_long (sort q ! (length q div 2 - 1) + sort q ! (length q div 2))
        then Some ((sort q ! (length q div 2 - 1) + sort q ! (length q div 2)) sdiv 2, q) else None)
     else Some (sort q ! (length q div 2), q))"
  using rotate_loop_append [of q "[]" "[]"] by (simp add: median_mid_def Let_def)

lemma sdiv_2_between:
  fixes a b :: int
  assumes "a \<le> b"
  shows "a \<le> (a + b) sdiv 2 \<and> (a + b) sdiv 2 \<le> b"
proof -
  have "(a + b) sdiv 2 = (if 0 \<le> a + b then (a + b) div 2 else - ((- (a + b)) div 2))"
    by (simp add: signed_divide_int_def sgn_if)
  with assms show ?thesis by (auto split: if_splits)
qed

lemma in_long_add:
  assumes "\<bar>a\<bar> < 2 ^ 62" and "\<bar>b\<bar> < 2 ^ 62"
  shows "in_long (a + b)"
  using assms by (simp add: in_long_def abs_less_iff)

lemma sorted_count_le:
  fixes s :: "int list"
  assumes "sorted s" and "i < length s" and "s ! i \<le> m"
  shows "Suc i \<le> length (filter (\<lambda>n. n \<le> m) s)"
proof -
  have "x \<le> m" if x: "x \<in> set (take (Suc i) s)" for x
  proof -
    from x obtain j where j: "j < Suc i" "x = s ! j" using assms(2) by (auto simp: in_set_conv_nth)
    from sorted_nth_mono [OF assms(1), of j i] j assms(2) have "x \<le> s ! i" by simp
    with assms(3) show ?thesis by simp
  qed
  then have "filter (\<lambda>n. n \<le> m) (take (Suc i) s) = take (Suc i) s" by (simp add: filter_id_conv)
  then have "Suc i = length (filter (\<lambda>n. n \<le> m) (take (Suc i) s))" using assms(2) by simp
  also have "\<dots> \<le> length (filter (\<lambda>n. n \<le> m) (take (Suc i) s @ drop (Suc i) s))"
    by (simp only: filter_append length_append le_add1)
  finally show ?thesis by simp
qed

lemma sorted_count_ge:
  fixes s :: "int list"
  assumes "sorted s" and "i < length s" and "m \<le> s ! i"
  shows "length s - i \<le> length (filter (\<lambda>n. m \<le> n) s)"
proof -
  have "m \<le> x" if x: "x \<in> set (drop i s)" for x
  proof -
    from x obtain j where j: "j < length s - i" "x = s ! (i + j)" by (auto simp: in_set_conv_nth)
    from sorted_nth_mono [OF assms(1), of i "i + j"] j have "s ! i \<le> x" by simp
    with assms(3) show ?thesis by simp
  qed
  then have "filter (\<lambda>n. m \<le> n) (drop i s) = drop i s" by (simp add: filter_id_conv)
  then have "length s - i = length (filter (\<lambda>n. m \<le> n) (drop i s))" by simp
  also have "\<dots> \<le> length (filter (\<lambda>n. m \<le> n) (take i s @ drop i s))"
    by (simp only: filter_append length_append le_add2)
  finally show ?thesis by simp
qed

lemma median_add_all: "foldl (\<lambda>q n. median_add n q) [] ns = drop (length ns - 1000) ns"
proof (induction ns rule: rev_induct)
  case Nil
  then show ?case by simp
next
  case (snoc n ns)
  show ?case
  proof (cases "1000 \<le> length ns")
    case True
    then have "length (ns @ [n]) - 1000 = Suc (length ns - 1000)" by simp
    with snoc True show ?thesis by (simp add: median_add_def median_max_def Let_def drop_Suc tl_drop)
  next
    case False
    then show ?thesis using snoc by (simp add: median_add_def median_max_def Let_def)
  qed
qed

section \<open>Properties\<close>

text \<open>
  The median counter keeps the last 1000 numbers, whatever came before, and for numbers whose sums
  fit in a \<open>long\<close> \<open>mid\<close> returns a median of them: at least half of the numbers are not above it and
  at least half not below it, and the queue is left as it was.
\<close>

theorem median_mid_correct:
  assumes "ns \<noteq> []" and "\<forall>n\<in>set ns. \<bar>n\<bar> < 2 ^ 62"
  shows "\<exists>m q. median_mid (foldl (\<lambda>q n. median_add n q) [] ns) = Some (m, q)
       \<and> q = drop (length ns - 1000) ns
       \<and> length q \<le> 2 * length (filter (\<lambda>n. n \<le> m) q) \<and> length q \<le> 2 * length (filter (\<lambda>n. m \<le> n) q)"
proof -
  define q where "q = drop (length ns - 1000) ns"
  have "0 < length ns" using assms(1) by simp
  then have pos: "0 < length q" by (simp add: q_def)
  let ?k = "length q div 2" and ?s = "sort q"
  let ?j = "length q - Suc ?k"
  let ?m = "if length q mod 2 = 0 then (?s ! (?k - 1) + ?s ! ?k) sdiv 2 else ?s ! ?k"
  have small: "\<bar>?s ! i\<bar> < 2 ^ 62" if "i < length q" for i
  proof -
    have "?s ! i \<in> set q" using that nth_mem [of i ?s] by simp
    then have "?s ! i \<in> set ns" unfolding q_def by (rule in_set_dropD)
    with assms(2) show ?thesis by blast
  qed
  have "\<bar>?s ! (?k - 1)\<bar> < 2 ^ 62" "\<bar>?s ! ?k\<bar> < 2 ^ 62" using pos by (intro small, linarith)+
  then have "in_long (?s ! (?k - 1) + ?s ! ?k)" by (rule in_long_add)
  then have run: "median_mid q = Some (?m, q)" using pos by (auto simp: median_mid_eq)
  have bounds: "?s ! ?j \<le> ?m \<and> ?m \<le> ?s ! ?k"
  proof (cases "length q mod 2 = 0")
    case True
    then have "?j = ?k - 1" by presburger
    moreover have "?s ! (?k - 1) \<le> ?s ! ?k" using pos by (intro sorted_nth_mono) auto
    ultimately show ?thesis using True sdiv_2_between by simp
  next
    case False
    then have "?j = ?k" by presburger
    with False show ?thesis by simp
  qed
  have filt: "length (filter P q) = length (filter P ?s)" for P
    by (metis mset_filter mset_sort size_mset)
  have below: "Suc ?j \<le> length (filter (\<lambda>n. n \<le> ?m) q)"
    unfolding filt by (rule sorted_count_le) (use bounds pos in simp_all)
  have above: "length q - ?k \<le> length (filter (\<lambda>n. ?m \<le> n) q)"
    using sorted_count_ge [of ?s ?k ?m] bounds pos unfolding filt by simp
  have half: "length q \<le> 2 * Suc ?j" "length q \<le> 2 * (length q - ?k)" using pos by presburger+
  have "length q \<le> 2 * length (filter (\<lambda>n. n \<le> ?m) q) \<and> length q \<le> 2 * length (filter (\<lambda>n. ?m \<le> n) q)"
    using le_trans [OF half(1) mult_le_mono2 [OF below]] le_trans [OF half(2) mult_le_mono2 [OF above]] by (rule conjI)
  with run show ?thesis unfolding median_add_all q_def [symmetric] by (intro exI [of _ ?m] exI [of _ q]) simp
qed

theorem median_mid_correct_witness:
  "\<exists>m q. median_mid (foldl (\<lambda>q n. median_add n q) [] [5, 1, 4, 2]) = Some (m, q)
       \<and> q = drop (length [5, 1, 4, 2 :: int] - 1000) [5, 1, 4, 2]
       \<and> length q \<le> 2 * length (filter (\<lambda>n. n \<le> m) q) \<and> length q \<le> 2 * length (filter (\<lambda>n. m \<le> n) q)"
  by (rule median_mid_correct) simp_all

end
