(* ===== verification/File_Utils.thy ===== *)
theory File_Utils
  imports Str_Utils "HOL-Library.Multiset"
begin

text \<open>
  The file helpers of \<open>src/common/main/utils/file.h\<close>. \<open>boost::filesystem\<close> and the file streams act on
  the operating system, so the operations the code calls are the fields of a record over a state
  \<open>'fs\<close>; \<open>None\<close> is an exception of \<open>boost::filesystem\<close>. An operation that may throw halfway returns
  the state it leaves beside its result. The order in which \<open>std::sort\<close> leaves files of the same time
  is not fixed, so the sort is a parameter as well.
\<close>

section \<open>The operating system\<close>

record 'fs filesystem =
  bf_is_regular :: "'fs \<Rightarrow> string \<Rightarrow> bool option"
  bf_exists :: "'fs \<Rightarrow> string \<Rightarrow> bool option"
  bf_is_directory :: "'fs \<Rightarrow> string \<Rightarrow> bool option"
  bf_remove :: "string \<Rightarrow> 'fs \<Rightarrow> 'fs option"
  bf_create_directories :: "string \<Rightarrow> 'fs \<Rightarrow> bool \<times> 'fs"
  bf_parent_path :: "string \<Rightarrow> string"
  bf_entries :: "string \<Rightarrow> 'fs \<Rightarrow> string list option"
  bf_last_write_time :: "'fs \<Rightarrow> string \<Rightarrow> int option"
  fs_read :: "'fs \<Rightarrow> string \<Rightarrow> string option"
  fs_write :: "string \<Rightarrow> string \<Rightarrow> 'fs \<Rightarrow> 'fs option"
  fs_append :: "string \<Rightarrow> string \<Rightarrow> 'fs \<Rightarrow> 'fs option"

text \<open>
  \<open>bf_create_directories\<close> returns whether it reports an error. \<open>fs_read\<close> is the content of a file
  that opens for reading, \<open>fs_write\<close> and \<open>fs_append\<close> open a file (truncating or at its end) and write
  a text to it; there \<open>None\<close> is a file that does not open.
\<close>

section \<open>Operations\<close>

definition file_pid :: "'fs filesystem \<Rightarrow> nat \<Rightarrow> string \<Rightarrow> 'fs \<Rightarrow> bool \<times> 'fs" where
  "file_pid F pid pidFile fs =
     (case fs_write F pidFile (to_string pid) fs of Some fs1 \<Rightarrow> (True, fs1) | None \<Rightarrow> (False, fs))"

definition file_exists :: "'fs filesystem \<Rightarrow> 'fs \<Rightarrow> string \<Rightarrow> bool option" where
  "file_exists F fs path = bf_is_regular F fs path"

definition file_del :: "'fs filesystem \<Rightarrow> string \<Rightarrow> 'fs \<Rightarrow> 'fs option" where
  "file_del F path fs = bf_remove F path fs"

text \<open>What \<open>mkdirs\<close> does: returns, throws, or runs off its end with no value (when it creates the directory).\<close>

datatype mkdirs_result = Returns bool | Throws | No_Value

definition mkdirs :: "'fs filesystem \<Rightarrow> string \<Rightarrow> 'fs \<Rightarrow> mkdirs_result \<times> 'fs" where
  "mkdirs F path fs =
     (let create = (let (error, fs1) = bf_create_directories F path fs
                    in (if error then Returns False else No_Value, fs1))
      in case bf_exists F fs path of
           None \<Rightarrow> (Throws, fs)
         | Some False \<Rightarrow> create
         | Some True \<Rightarrow>
             (case bf_is_directory F fs path of
                None \<Rightarrow> (Throws, fs)
              | Some True \<Rightarrow> (Returns True, fs)
              | Some False \<Rightarrow> create))"

text \<open>The part of \<open>create_if_not_exits\<close> after the directory is there.\<close>

definition create_file :: "'fs filesystem \<Rightarrow> string \<Rightarrow> 'fs \<Rightarrow> bool \<times> 'fs" where
  "create_file F path fs =
     (case file_exists F fs path of
        None \<Rightarrow> (False, fs)
      | Some True \<Rightarrow> (True, fs)
      | Some False \<Rightarrow> (case fs_append F path [] fs of Some fs1 \<Rightarrow> (True, fs1) | None \<Rightarrow> (False, fs)))"

definition create_if_not_exits :: "'fs filesystem \<Rightarrow> string \<Rightarrow> 'fs \<Rightarrow> bool \<times> 'fs" where
  "create_if_not_exits F path fs =
     (case bf_exists F fs (bf_parent_path F path) of
        None \<Rightarrow> (False, fs)
      | Some True \<Rightarrow> create_file F path fs
      | Some False \<Rightarrow>
          (let (errorCode, fs1) = bf_create_directories F (bf_parent_path F path) fs
           in if errorCode then (False, fs1) else create_file F path fs1))"

definition file_read_set :: "'fs filesystem \<Rightarrow> 'fs \<Rightarrow> string \<Rightarrow> string set \<Rightarrow> string set" where
  "file_read_set F fs path data =
     (case fs_read F fs path of None \<Rightarrow> data | Some s \<Rightarrow> foldl (\<lambda>d line. insert line d) data (getlines s))"

definition file_read :: "'fs filesystem \<Rightarrow> 'fs \<Rightarrow> string \<Rightarrow> string" where
  "file_read F fs path =
     (case fs_read F fs path of
        None \<Rightarrow> []
      | Some s \<Rightarrow> foldl (\<lambda>result line. (result @ line) @ [CHR 0x0A]) [] (getlines s))"

text \<open>The regular files of a directory, with their times of change.\<close>

fun regular_files :: "'fs filesystem \<Rightarrow> 'fs \<Rightarrow> string list \<Rightarrow> (int \<times> string) list \<Rightarrow> (int \<times> string) list option" where
  "regular_files F fs [] acc = Some acc"
| "regular_files F fs (p # ps) acc =
     do { reg \<leftarrow> bf_is_regular F fs p;
          if reg then do { t \<leftarrow> bf_last_write_time F fs p; regular_files F fs ps (acc @ [(t, p)]) }
          else regular_files F fs ps acc }"

text \<open>The loop that deletes: the flag tells that \<open>remove\<close> threw.\<close>

fun delete_loop :: "'fs filesystem \<Rightarrow> u32 \<Rightarrow> (int \<times> string) list \<Rightarrow> 'fs \<Rightarrow> bool \<times> 'fs" where
  "delete_loop F need [] fs = (True, fs)"
| "delete_loop F need (item # files) fs =
     (case bf_remove F (snd item) fs of
        None \<Rightarrow> (False, fs)
      | Some fs1 \<Rightarrow> (let need1 = need - 1 in if need1 \<le> 0 then (True, fs1) else delete_loop F need1 files fs1))"

definition limit_file_cnt ::
  "'fs filesystem \<Rightarrow> ((int \<times> string) list \<Rightarrow> (int \<times> string) list) \<Rightarrow> string \<Rightarrow> u32 \<Rightarrow> 'fs \<Rightarrow> u32 option \<times> 'fs"
where
  "limit_file_cnt F std_sort path limit fs =
     (case Option.bind (bf_entries F path fs) (\<lambda>ps. regular_files F fs ps []) of
        None \<Rightarrow> (None, fs)
      | Some files0 \<Rightarrow>
          (let files = std_sort files0;
               need = (if unat limit < length files then of_nat (length files - unat limit) else (0 :: u32))
           in if 0 < need
              then (let (ok, fs1) = delete_loop F need files fs in (if ok then Some need else None, fs1))
              else (Some need, fs)))"

fun count_regular :: "'fs filesystem \<Rightarrow> 'fs \<Rightarrow> string list \<Rightarrow> u32 \<Rightarrow> u32 option" where
  "count_regular F fs [] cnt = Some cnt"
| "count_regular F fs (p # ps) cnt =
     do { reg \<leftarrow> bf_is_regular F fs p; count_regular F fs ps (if reg then cnt + 1 else cnt) }"

definition get_file_cnt :: "'fs filesystem \<Rightarrow> string \<Rightarrow> 'fs \<Rightarrow> u32 option" where
  "get_file_cnt F path fs = Option.bind (bf_entries F path fs) (\<lambda>ps. count_regular F fs ps 0)"

section \<open>Reading\<close>

lemma concat_getlines:
  "concat (map (\<lambda>l. l @ [CHR 0x0A]) (getlines s)) = (if s = [] \<or> last s = CHR 0x0A then s else s @ [CHR 0x0A])"
proof (induction s rule: length_induct)
  case (1 s)
  show ?case
  proof (cases "CHR 0x0A \<in> set s")
    case False
    then have "s = [] \<or> last s \<noteq> CHR 0x0A" by (metis last_in_set)
    with False show ?thesis by (auto simp: getlines_def split_on_no_sep)
  next
    case True
    then obtain ys zs where s: "s = ys @ CHR 0x0A # zs" "CHR 0x0A \<notin> set ys" by (blast dest: split_list_first)
    then have "getlines s = ys # getlines zs" by (simp add: getlines_def split_on_sep Let_def)
    with 1 [rule_format, of zs] s show ?thesis by simp
  qed
qed

lemma foldl_lines: "foldl (\<lambda>result line. result @ line @ [c]) acc ls = acc @ concat (map (\<lambda>l. l @ [c]) ls)"
  by (induction ls arbitrary: acc) auto

text \<open>
  Reading a file gives its content, with a newline added when the last line has none; a file that
  does not open reads as the empty text.
\<close>

theorem file_read_content:
  "file_read F fs path = (case fs_read F fs path of
     None \<Rightarrow> [] | Some s \<Rightarrow> if s = [] \<or> last s = CHR 0x0A then s else s @ [CHR 0x0A])"
  by (simp add: file_read_def foldl_lines concat_getlines split: option.splits)

section \<open>Limiting the number of files\<close>

text \<open>
  What the code relies on: removing a listed regular file, which it may remove, takes it out of the
  listing of its directory and leaves the other entries and what they are. Nothing is said of other entries.
\<close>

definition remove_law :: "'fs filesystem \<Rightarrow> string \<Rightarrow> bool" where
  "remove_law F path \<longleftrightarrow>
     (\<forall>fs ps p. bf_entries F path fs = Some ps \<and> distinct ps \<and> p \<in> set ps \<and> bf_is_regular F fs p = Some True \<longrightarrow>
        (\<exists>fs' ps'. bf_remove F p fs = Some fs' \<and> bf_entries F path fs' = Some ps' \<and> distinct ps'
           \<and> set ps' = set ps - {p} \<and> (\<forall>q \<in> set ps'. bf_is_regular F fs' q = bf_is_regular F fs q)))"

text \<open>What \<open>std::sort\<close> promises for the comparison of the times.\<close>

definition sort_law :: "((int \<times> string) list \<Rightarrow> (int \<times> string) list) \<Rightarrow> bool" where
  "sort_law srt \<longleftrightarrow> (\<forall>xs. mset (srt xs) = mset xs \<and> sorted (map fst (srt xs)))"

text \<open>A directory that lists \<open>ps\<close>, of which \<open>reg\<close> are regular files, changed at \<open>tm\<close>.\<close>

definition listing :: "'fs filesystem \<Rightarrow> string \<Rightarrow> 'fs \<Rightarrow> string list \<Rightarrow> (string \<Rightarrow> bool) \<Rightarrow> (string \<Rightarrow> int) \<Rightarrow> bool" where
  "listing F path fs ps reg tm \<longleftrightarrow>
     bf_entries F path fs = Some ps \<and> distinct ps
     \<and> (\<forall>p\<in>set ps. bf_is_regular F fs p = Some (reg p) \<and> bf_last_write_time F fs p = Some (tm p))"

lemma regular_files_listing:
  assumes "\<forall>p\<in>set ps. bf_is_regular F fs p = Some (reg p) \<and> bf_last_write_time F fs p = Some (tm p)"
  shows "regular_files F fs ps acc = Some (acc @ map (\<lambda>p. (tm p, p)) (filter reg ps))"
  using assms by (induction ps arbitrary: acc) auto

lemma of_nat_u32_pos: "0 < n \<Longrightarrow> n < 2 ^ 32 \<Longrightarrow> (0 :: u32) < of_nat n"
  by (simp add: word_gt_0 word_of_nat_eq_0_iff nat_dvd_not_less)

lemma delete_loop_correct:
  assumes "remove_law F path" and "bf_entries F path fs = Some ps" and "distinct ps"
    and "distinct (map snd files)" and "snd ` set files \<subseteq> set ps"
    and "\<forall>p \<in> snd ` set files. bf_is_regular F fs p = Some True"
    and "0 < n" and "n \<le> length files" and "n < 2 ^ 32"
  shows "\<exists>fs' ps'. delete_loop F (of_nat n) files fs = (True, fs') \<and> bf_entries F path fs' = Some ps'
     \<and> distinct ps' \<and> set ps' = set ps - snd ` set (take n files)"
  using assms(2-)
proof (induction files arbitrary: fs ps n)
  case Nil
  then show ?case by simp
next
  case (Cons item files)
  from Cons.prems have "snd item \<in> set ps" "bf_is_regular F fs (snd item) = Some True" by simp_all
  with Cons.prems(1,2) assms(1) obtain fs1 ps1 where
    rm: "bf_remove F (snd item) fs = Some fs1" "bf_entries F path fs1 = Some ps1" "distinct ps1" "set ps1 = set ps - {snd item}"
      "\<forall>q \<in> set ps1. bf_is_regular F fs1 q = bf_is_regular F fs q"
    unfolding remove_law_def by metis
  obtain k where n: "n = Suc k" using Cons.prems(6) by (cases n) auto
  have one: "of_nat n - 1 = (of_nat k :: u32)" by (simp add: n)
  show ?case
  proof (cases "k = 0")
    case True
    with rm one show ?thesis by (intro exI [of _ fs1] exI [of _ ps1]) (auto simp: n)
  next
    case False
    have "(0 :: u32) < of_nat k" using False Cons.prems(8) n by (intro of_nat_u32_pos) simp_all
    then have step: "delete_loop F (of_nat n) (item # files) fs = delete_loop F (of_nat k) files fs1"
      using rm one by (simp add: Let_def word_le_0_iff word_gt_0)
    have sub: "snd ` set files \<subseteq> set ps1" using Cons.prems(3,4) rm(4) by (metis Diff_empty image_set insert_subset list.set_map list.simps(15) list.simps(9) distinct.simps(2) subset_Diff_insert)
    have reg: "\<forall>p \<in> snd ` set files. bf_is_regular F fs1 p = Some True"
    proof
      fix p assume p: "p \<in> snd ` set files"
      with sub rm(5) have "bf_is_regular F fs1 p = bf_is_regular F fs p" by blast
      also have "\<dots> = Some True" using p Cons.prems(5) by auto
      finally show "bf_is_regular F fs1 p = Some True" .
    qed
    from Cons.IH [OF rm(2,3) _ sub reg, of k] Cons.prems(3,7,8) False n obtain fs' ps' where
      "delete_loop F (of_nat k) files fs1 = (True, fs')" "bf_entries F path fs' = Some ps'" "distinct ps'"
      "set ps' = set ps1 - snd ` set (take k files)" by auto
    with step rm(4) n show ?thesis by (intro exI [of _ fs'] exI [of _ ps']) auto
  qed
qed

text \<open>The files as \<open>limit_file_cnt\<close> sorts them: the oldest come first.\<close>

definition by_age :: "(string \<Rightarrow> int) \<Rightarrow> string list \<Rightarrow> (int \<times> string) list \<Rightarrow> bool" where
  "by_age tm rs files \<longleftrightarrow>
     sorted (map fst files) \<and> set files = (\<lambda>p. (tm p, p)) ` set rs \<and> distinct (map snd files) \<and> length files = length rs"

lemma by_age_sort:
  assumes "sort_law std_sort" and "distinct rs"
  shows "by_age tm rs (std_sort (map (\<lambda>p. (tm p, p)) rs))"
proof -
  let ?files = "std_sort (map (\<lambda>p. (tm p, p)) rs)"
  have mset: "mset ?files = mset (map (\<lambda>p. (tm p, p)) rs)" and srt: "sorted (map fst ?files)"
    using assms(1) unfolding sort_law_def by blast+
  have "mset (map snd ?files) = image_mset snd (mset ?files)" by simp
  also have "\<dots> = mset rs" unfolding mset by (simp add: multiset.map_comp comp_def)
  finally have "distinct (map snd ?files)" using mset_eq_imp_distinct_iff assms(2) by blast
  moreover have "set ?files = (\<lambda>p. (tm p, p)) ` set rs" using mset_eq_setD [OF mset] by simp
  moreover have "length ?files = length rs" using mset_eq_length [OF mset] by simp
  ultimately show ?thesis using srt by (simp add: by_age_def)
qed

lemma by_age_older:
  assumes "by_age tm rs files" and "p \<in> snd ` set (take n files)" and "q \<in> set rs" and "q \<notin> snd ` set (take n files)"
  shows "tm p \<le> tm q"
proof -
  from assms(1) have set: "set (take n files) \<union> set (drop n files) = (\<lambda>p. (tm p, p)) ` set rs"
    unfolding by_age_def by (metis append_take_drop_id set_append)
  from assms(1) have "sorted (map fst (take n files) @ map fst (drop n files))"
    unfolding by_age_def by (metis append_take_drop_id map_append)
  then have le: "x \<le> y" if "x \<in> fst ` set (take n files)" "y \<in> fst ` set (drop n files)" for x y
    using that by (auto simp: sorted_append)
  from set assms(3) have "(tm q, q) \<in> set (take n files) \<union> set (drop n files)" by blast
  with assms(4) have "(tm q, q) \<in> set (drop n files)" by force
  moreover have "(tm p, p) \<in> set (take n files)"
  proof -
    from assms(2) obtain x where x: "(x, p) \<in> set (take n files)" by auto
    with set have "(x, p) \<in> (\<lambda>p. (tm p, p)) ` set rs" by blast
    with x show ?thesis by auto
  qed
  ultimately show ?thesis using le by force
qed

lemma by_age_card:
  assumes "by_age tm (filter reg ps) files" and "distinct ps" and "distinct ps'" and "n \<le> length files"
    and "set ps' = set ps - snd ` set (take n files)"
  shows "length (filter reg ps') = length (filter reg ps) - n"
proof -
  let ?T = "snd ` set (take n files)"
  have "set (take n files) \<subseteq> set files" by (rule set_take_subset)
  then have sub: "?T \<subseteq> set (filter reg ps)" using assms(1) by (auto simp: by_age_def)
  have "card ?T = length (map snd (take n files))"
    using assms(1) unfolding by_age_def by (metis distinct_card distinct_take list.set_map take_map)
  then have "card ?T = n" using assms(4) by simp
  moreover have "set (filter reg ps') = set (filter reg ps) - ?T" using assms(5) by auto
  ultimately have "card (set (filter reg ps')) = card (set (filter reg ps)) - n"
    using sub by (simp add: card_Diff_subset)
  then show ?thesis using distinct_card [OF distinct_filter [OF assms(2)]] distinct_card [OF distinct_filter [OF assms(3)]]
    by (metis (no_types))
qed

text \<open>
  C35. \<open>limit_file_cnt\<close> deletes exactly the surplus of a directory and keeps the newest files: it
  returns the number of files over the limit, leaves every entry that is no regular file, leaves
  \<open>limit\<close> regular files (all of them when there are no more), and no file it deletes is newer than
  one it keeps.
\<close>

theorem limit_file_cnt_keeps_newest:
  assumes "remove_law F path" and "sort_law std_sort" and "listing F path fs ps reg tm"
    and "length (filter reg ps) < 2 ^ 32"
  shows "\<exists>fs' ps'. limit_file_cnt F std_sort path limit fs = (Some (of_nat (length (filter reg ps) - unat limit)), fs')
     \<and> bf_entries F path fs' = Some ps' \<and> set ps' \<subseteq> set ps \<and> (\<forall>p\<in>set ps. \<not> reg p \<longrightarrow> p \<in> set ps')
     \<and> length (filter reg ps') = min (length (filter reg ps)) (unat limit)
     \<and> (\<forall>p\<in>set ps - set ps'. \<forall>q\<in>set ps'. reg q \<longrightarrow> tm p \<le> tm q)"
proof -
  let ?R = "filter reg ps" and ?L = "unat limit"
  define files where "files = std_sort (map (\<lambda>p. (tm p, p)) ?R)"
  from assms(3) have ps: "bf_entries F path fs = Some ps" "distinct ps"
    and reg: "\<forall>p\<in>set ps. bf_is_regular F fs p = Some (reg p) \<and> bf_last_write_time F fs p = Some (tm p)"
    by (auto simp: listing_def)
  have age: "by_age tm ?R files" unfolding files_def using assms(2) ps(2) by (intro by_age_sort) simp_all
  then have len: "length files = length ?R" and dist: "distinct (map snd files)"
    and sub: "snd ` set files \<subseteq> set ps" and regular: "\<forall>p \<in> snd ` set files. bf_is_regular F fs p = Some True"
    using reg by (auto simp: by_age_def)
  have run: "limit_file_cnt F std_sort path limit fs =
      (let need = (if ?L < length ?R then of_nat (length ?R - ?L) else (0 :: u32))
       in if 0 < need then (let (ok, fs1) = delete_loop F need files fs in (if ok then Some need else None, fs1))
          else (Some need, fs))"
    unfolding limit_file_cnt_def ps regular_files_listing [OF reg] append_Nil Option.bind.bind_lunit option.case
      files_def [symmetric] len [symmetric] Let_def by (rule refl)
  show ?thesis
  proof (cases "?L < length ?R")
    case False
    then show ?thesis using run ps by (intro exI [of _ fs] exI [of _ ps]) simp
  next
    case True
    let ?n = "length ?R - ?L"
    have n: "0 < ?n" "?n \<le> length files" "?n < 2 ^ 32" using True len assms(4) by auto
    from delete_loop_correct [OF assms(1) ps dist sub regular n] obtain fs' ps' where
      del: "delete_loop F (of_nat ?n) files fs = (True, fs')" "bf_entries F path fs' = Some ps'" "distinct ps'"
        "set ps' = set ps - snd ` set (take ?n files)" by blast
    from n(1,3) have "(0 :: u32) < of_nat ?n" by (rule of_nat_u32_pos)
    then have res: "limit_file_cnt F std_sort path limit fs = (Some (of_nat ?n), fs')"
      using True unfolding run Let_def by (simp only: if_True del(1) prod.case)
    have gone: "reg p" if "p \<in> snd ` set (take ?n files)" for p
      using that age set_take_subset [of ?n files] by (fastforce simp: by_age_def)
    have "length (filter reg ps') = min (length ?R) ?L"
      using by_age_card [OF age ps(2) del(3) n(2) del(4)] True by simp
    moreover have "\<forall>p\<in>set ps. \<not> reg p \<longrightarrow> p \<in> set ps'" "set ps' \<subseteq> set ps" using gone del(4) by blast+
    moreover have "\<forall>p\<in>set ps - set ps'. \<forall>q\<in>set ps'. reg q \<longrightarrow> tm p \<le> tm q"
      using by_age_older [OF age] del(4) by fastforce
    ultimately show ?thesis using res del(2) by (intro exI [of _ fs'] exI [of _ ps']) (simp only: simp_thms)
  qed
qed

text \<open>A file system of one directory: its files with their times, all regular.\<close>

definition flat_fs :: "(string \<times> int) list filesystem" where
  "flat_fs = \<lparr>bf_is_regular = (\<lambda>fs p. Some (map_of fs p \<noteq> None)), bf_exists = (\<lambda>fs p. Some (map_of fs p \<noteq> None)),
     bf_is_directory = (\<lambda>fs p. Some False), bf_remove = (\<lambda>p fs. Some (filter (\<lambda>e. fst e \<noteq> p) fs)),
     bf_create_directories = (\<lambda>p fs. (False, fs)), bf_parent_path = (\<lambda>p. []),
     bf_entries = (\<lambda>d fs. Some (remdups (map fst fs))), bf_last_write_time = map_of,
     fs_read = (\<lambda>fs p. None), fs_write = (\<lambda>p s fs. None), fs_append = (\<lambda>p s fs. None)\<rparr>"

lemma map_of_filter_fst: "q \<noteq> p \<Longrightarrow> map_of (filter (\<lambda>e. fst e \<noteq> p) fs) q = map_of fs q"
  by (induction fs) auto

lemma flat_fs_remove_law: "remove_law flat_fs d"
  by (auto simp: remove_law_def flat_fs_def map_of_filter_fst)

lemma sort_key_law: "sort_law (sort_key fst)"
  by (simp add: sort_law_def)

theorem limit_file_cnt_keeps_newest_witness:
  "\<exists>fs' ps'. limit_file_cnt flat_fs (sort_key fst) ''/tmp/st/perf/'' 2 [(''b'', 7), (''a'', 3), (''c'', 9)] =
       (Some (of_nat (length (filter (\<lambda>p. True) [''b'', ''a'', ''c'']) - unat (2 :: u32))), fs')
     \<and> bf_entries flat_fs ''/tmp/st/perf/'' fs' = Some ps' \<and> set ps' \<subseteq> set [''b'', ''a'', ''c'']
     \<and> length (filter (\<lambda>p. True) ps') = min (length (filter (\<lambda>p. True) [''b'', ''a'', ''c''])) (unat (2 :: u32))
     \<and> (\<forall>p\<in>set [''b'', ''a'', ''c''] - set ps'. \<forall>q\<in>set ps'.
          the (map_of [(''b'', 7), (''a'', 3), (''c'', 9)] p) \<le> (the (map_of [(''b'', 7), (''a'', 3), (''c'', 9)] q) :: int))"
proof -
  let ?fs = "[(''b'', 7), (''a'', 3), (''c'', 9 :: int)]"
  have "listing flat_fs ''/tmp/st/perf/'' ?fs [''b'', ''a'', ''c''] (\<lambda>p. True) (\<lambda>p. the (map_of ?fs p))"
    by (simp add: listing_def flat_fs_def)
  from limit_file_cnt_keeps_newest [OF flat_fs_remove_law sort_key_law this, of 2] show ?thesis by simp
qed

end
