(* ===== verification/Base64.thy ===== *)
theory Base64
  imports St_Prelude
begin

text \<open>
  \<open>src/common/main/utils/base64.h\<close>. The bit shuffling is done by the iterators of
  \<open>boost::archive\<close>, which are parameters: \<open>to6\<close> is \<open>base64_from_binary\<close> over \<open>transform_width 6 8\<close>,
  \<open>from6\<close> is \<open>transform_width 8 6\<close> over \<open>binary_from_base64\<close>, with \<open>None\<close> for the exception they throw
  on a character outside the alphabet. What the code adds is the padding.
\<close>

definition base64_encode :: "(string \<Rightarrow> string) \<Rightarrow> string \<Rightarrow> string" where
  "base64_encode to6 str = to6 str @ replicate ((3 - length str mod 3) mod 3) (CHR ''='')"

definition base64_decode :: "(string \<Rightarrow> string option) \<Rightarrow> string \<Rightarrow> string option" where
  "base64_decode from6 str = from6 (filter (\<lambda>c. c \<noteq> CHR ''='') str)"

text \<open>The overload that writes to \<open>data\<close> returns the length in 16 bits; \<open>None\<close> is also a write past the buffer.\<close>

definition base64_decode_to :: "(string \<Rightarrow> string option) \<Rightarrow> string \<Rightarrow> buffer \<Rightarrow> (u16 \<times> buffer) option" where
  "base64_decode_to from6 str data =
     do { re \<leftarrow> base64_decode from6 str;
          data1 \<leftarrow> wr_n data 0 (map byte_of re);
          Some (of_nat (length re), data1) }"

text \<open>The padding completes the last group of four: six bits per character, rounded up.\<close>

lemma base64_encode_length:
  assumes "length (to6 str) = (8 * length str + 5) div 6"
  shows "length (base64_encode to6 str) = 4 * ((length str + 2) div 3)"
proof -
  obtain q r where n: "length str = 3 * q + r" "r < 3"
    by (metis div_mult_mod_eq mod_less_divisor mult.commute zero_less_numeral)
  have len: "length (base64_encode to6 str) = (8 * (3 * q + r) + 5) div 6 + (3 - (3 * q + r) mod 3) mod 3"
    by (simp add: base64_encode_def assms n)
  have "(8 * (3 * q + r) + 5) div 6 = 4 * q + (8 * r + 5) div 6" by presburger
  moreover have "(3 * q + r) mod 3 = r" "(3 * q + r + 2) div 3 = q + (r + 2) div 3" using n(2) by auto
  moreover from n(2) have "r = 0 \<or> r = 1 \<or> r = 2" by linarith
  then have "(8 * r + 5) div 6 + (3 - r) mod 3 = 4 * ((r + 2) div 3)" by auto
  ultimately show ?thesis unfolding len n(1) by simp
qed

text \<open>Decoding undoes encoding when the iterators do and the alphabet does not hold the padding.\<close>

lemma base64_decode_encode:
  assumes "from6 (to6 str) = Some str" and "CHR ''='' \<notin> set (to6 str)"
  shows "base64_decode from6 (base64_encode to6 str) = Some str"
proof -
  from assms(2) have "filter (\<lambda>c. c \<noteq> CHR ''='') (to6 str) = to6 str" by (auto simp: filter_id_conv)
  with assms(1) show ?thesis by (simp add: base64_decode_def base64_encode_def)
qed

end
