(* ===== verification/Logger.thy ===== *)
theory Logger
  imports File_Utils Base64 "HOL-Library.AList"
begin

text \<open>
  \<open>src/common/main/utils/logger.h\<close> and \<open>logger.cpp\<close>: the loggers of the four levels, which collect a
  message piece by piece and write it line by line, and the \<open>apm_logger\<close>, which accumulates the costs
  of the operations of the program by name and dimensions and reports them every minute.

  The property trees, the JSON printer and the file sink of \<open>boost::log\<close> are parameters. An
  \<open>unordered_map\<close> is an association list without duplicate keys; its order stands for the order of
  the iteration, on which no statement depends. A function posted to \<open>IO_CONTEXT\<close> is a value of
  \<open>apm_task\<close> in a list until it runs.
\<close>

section \<open>Messages\<close>

record log_globals =
  LEVEL :: u32
  TAG :: string
  INITED :: bool

definition log_globals_default :: log_globals where
  "log_globals_default = \<lparr>LEVEL = 2, TAG = ''default'', INITED = False\<rparr>"

record logger =
  levelName :: string
  lg_level :: u32
  lg_str :: string

definition logger_new :: "string \<Rightarrow> u32 \<Rightarrow> logger" where
  "logger_new name lvl = \<lparr>levelName = name, lg_level = lvl, lg_str = []\<rparr>"

definition logger_DEBUG :: logger where
  "logger_DEBUG = logger_new ''DEBUG'' 0"

definition logger_WARN :: logger where
  "logger_WARN = logger_new ''WARN'' 1"

definition logger_INFO :: logger where
  "logger_INFO = logger_new ''INFO'' 2"

definition logger_ERROR :: logger where
  "logger_ERROR = logger_new ''ERROR'' 3"

definition SPLIT :: string where
  "SPLIT = '' ''"

definition append_str :: "log_globals \<Rightarrow> string \<Rightarrow> logger \<Rightarrow> logger" where
  "append_str g info l = (if lg_level l < LEVEL g then l else l\<lparr>lg_str := (lg_str l @ info) @ SPLIT\<rparr>)"

text \<open>\<open>operator<<\<close> of a string (and of a value already printed), of a character and of a set.\<close>

definition log_string :: "log_globals \<Rightarrow> string \<Rightarrow> logger \<Rightarrow> logger" where
  "log_string g s l = append_str g s l"

text \<open>The overloads for C strings end at the NUL.\<close>

definition log_cstr :: "log_globals \<Rightarrow> string \<Rightarrow> logger \<Rightarrow> logger" where
  "log_cstr g s l = append_str g (c_str s) l"

definition log_char :: "char \<Rightarrow> logger \<Rightarrow> logger" where
  "log_char ch l = l\<lparr>lg_str := (lg_str l @ [ch]) @ SPLIT\<rparr>"

definition log_set :: "log_globals \<Rightarrow> string list \<Rightarrow> logger \<Rightarrow> logger" where
  "log_set g strs l = foldl (\<lambda>l line. append_str g line l) l strs"

text \<open>Where a line goes: to the file sink, or before \<open>init\<close> to the standard output.\<close>

datatype log_output = To_File string | To_Stdout string

definition do_log_line :: "log_globals \<Rightarrow> string \<Rightarrow> string \<Rightarrow> nat \<Rightarrow> string \<Rightarrow> string \<Rightarrow> log_output" where
  "do_log_line g now_str thread traceId lvl line =
     (if INITED g
      then To_File (''['' @ lvl @ '']'' @ SPLIT @ ''['' @ to_string traceId @ '']'' @ SPLIT @ line)
      else To_Stdout (now_str @ SPLIT @ ''['' @ lvl @ '']'' @ SPLIT @ thread @ SPLIT
        @ ''['' @ to_string traceId @ '']'' @ SPLIT @ line))"

text \<open>The lines that the loop of \<open>do_log\<close> cuts out of the message, and the last one after it.\<close>

function log_lines :: "string \<Rightarrow> nat \<Rightarrow> nat \<Rightarrow> string list" where
  "log_lines str pos lastPos =
     (case str_find str [CHR 0x0A] pos of
        None \<Rightarrow> [substr str lastPos (Some (length str - lastPos))]
      | Some p \<Rightarrow> substr str lastPos (Some (p - lastPos)) # log_lines str (p + 1) (p + 1))"
  by pat_completeness auto
termination
proof (relation "measure (\<lambda>(str, pos, lastPos). Suc (length str) - pos)")
  fix str :: string and pos lastPos p :: nat
  assume "str_find str [CHR 0x0A] pos = Some p"
  then have "pos \<le> p \<and> p < length str" by (auto dest: str_find_Some)
  then show "((str, p + 1, p + 1), str, pos, lastPos) \<in> measure (\<lambda>(str, pos, lastPos). Suc (length str) - pos)" by auto
qed simp

definition do_log :: "log_globals \<Rightarrow> string \<Rightarrow> string \<Rightarrow> nat \<Rightarrow> logger \<Rightarrow> log_output list \<times> logger" where
  "do_log g now_str thread traceId l =
     (if lg_level l < LEVEL g then ([], l\<lparr>lg_str := []\<rparr>)
      else (map (do_log_line g now_str thread traceId (levelName l)) (log_lines (lg_str l) 0 0), l\<lparr>lg_str := []\<rparr>))"

section \<open>Statistics\<close>

type_synonym 'v smap = "(string \<times> 'v) list"
type_synonym metric = "u64 smap"
type_synonym statistics = "metric smap smap smap"

text \<open>\<open>operator[]\<close> of a map: a missing key is entered with the default value \<open>d\<close>.\<close>

definition at :: "'v \<Rightarrow> 'v smap \<Rightarrow> string \<Rightarrow> 'v" where
  "at d m k = (case map_of m k of None \<Rightarrow> d | Some v \<Rightarrow> v)"

definition update_at :: "'v \<Rightarrow> string \<Rightarrow> ('v \<Rightarrow> 'v) \<Rightarrow> 'v smap \<Rightarrow> 'v smap" where
  "update_at d k f m = AList.update k (f (at d m k)) m"

definition accumulate_metric :: "u64 \<Rightarrow> u64 \<Rightarrow> metric \<Rightarrow> metric" where
  "accumulate_metric value sample metric =
     (let m0 = (if metric = [] then AList.update ''max'' 0 (AList.update ''min'' (- 1) (AList.update ''sum'' 0 metric)) else metric);
          sum = value * sample;
          m1 = update_at 0 ''sum'' (\<lambda>s. s + sum) m0;
          m2 = update_at 0 ''min'' (\<lambda>v. min value v) m1
      in update_at 0 ''max'' (\<lambda>v. max value v) m2)"

text \<open>\<open>accumulate_metric(STATISTICS[name][id][metric], value, sample)\<close>.\<close>

definition accumulate_at :: "string \<Rightarrow> string \<Rightarrow> string \<Rightarrow> u64 \<Rightarrow> u64 \<Rightarrow> statistics \<Rightarrow> statistics" where
  "accumulate_at name did metric value sample =
     update_at [] name (update_at [] did (update_at [] metric (accumulate_metric value sample)))"

section \<open>The performance logger\<close>

text \<open>
  The parameters: the property trees (their values, what a \<open>put\<close> makes of them, the printed and the
  parsed JSON) and the iterators of \<open>base64\<close>. \<open>None\<close> is an exception.
\<close>

record 'pt apm_env =
  ap_empty :: 'pt
  ap_put :: "string \<Rightarrow> string \<Rightarrow> 'pt \<Rightarrow> 'pt"
  ap_put_child :: "string \<Rightarrow> 'pt \<Rightarrow> 'pt \<Rightarrow> 'pt"
  ap_insert_all :: "'pt \<Rightarrow> 'pt \<Rightarrow> 'pt"
  ap_get :: "'pt \<Rightarrow> string \<Rightarrow> string option"
  ap_get_u64 :: "'pt \<Rightarrow> string \<Rightarrow> u64 option"
  ap_keys :: "'pt \<Rightarrow> string list"
  write_json :: "'pt \<Rightarrow> string"
  from_json :: "string \<Rightarrow> 'pt option"
  b64_to6 :: "string \<Rightarrow> string"
  b64_from6 :: "string \<Rightarrow> string option"

text \<open>
  \<open>to_json\<close> removes the quotes around numbers: \<open>regex_replace\<close> of a quote, digits, an optional dot, digits
  and a quote by what is between the quotes. The pattern matches in one way only, so the search for
  the next match is a scan from left to right. \<open>number_token\<close> reads what follows an opening quote.
\<close>

definition quote :: char where
  "quote = CHR 0x22"

definition number_token :: "string \<Rightarrow> (string \<times> string) option" where
  "number_token s =
     (let ds = takeWhile is_digit s; s1 = dropWhile is_digit s;
          dot = (if s1 \<noteq> [] \<and> hd s1 = CHR ''.'' then ''.'' else []); s2 = drop (length dot) s1;
          fs = takeWhile is_digit s2; s3 = dropWhile is_digit s2
      in if ds \<noteq> [] \<and> s3 \<noteq> [] \<and> hd s3 = quote then Some (ds @ dot @ fs, tl s3) else None)"

lemma number_token_length: "number_token s = Some (num, rest) \<Longrightarrow> length rest < length s"
proof -
  assume "number_token s = Some (num, rest)"
  then have "rest = tl (dropWhile is_digit (drop d (dropWhile is_digit s)))" "s \<noteq> []"
    if "d = (if dropWhile is_digit s \<noteq> [] \<and> hd (dropWhile is_digit s) = CHR ''.'' then 1 else 0)" for d
    using that by (auto simp: number_token_def Let_def split: if_splits)
  moreover have "length (tl (dropWhile is_digit (drop d (dropWhile is_digit s)))) \<le> length s - 1" for d
    using length_dropWhile_le [of is_digit "drop d (dropWhile is_digit s)"] length_dropWhile_le [of is_digit s] by simp
  ultimately show ?thesis by (metis diff_less le_imp_less_Suc length_greater_0_conv Suc_pred' zero_less_one)
qed

function unquote_numbers :: "string \<Rightarrow> string" where
  "unquote_numbers [] = []"
| "unquote_numbers (c # cs) =
     (case (if c = quote then number_token cs else None) of
        Some (num, rest) \<Rightarrow> num @ unquote_numbers rest
      | None \<Rightarrow> c # unquote_numbers cs)"
  by pat_completeness auto
termination
  by (relation "measure length") (auto split: if_splits dest: number_token_length)

definition to_json :: "'pt apm_env \<Rightarrow> 'pt \<Rightarrow> string" where
  "to_json E properties = unquote_numbers (write_json E properties)"

text \<open>The functions posted to \<open>IO_CONTEXT\<close>: by \<open>perf\<close> with a cost, by \<open>perf\<close> with counts, by \<open>end\<close>.\<close>

datatype 'pt apm_task =
    Perf_Cost string "string smap" u64 u64 u64
  | Perf_Counts string "string smap" "int smap"
  | Apm_End 'pt 'pt

record 'pt apm_state =
  STATISTICS :: statistics
  apm_tasks :: "'pt apm_task list"
  apm_running :: bool

record 'pt apm_logger =
  al_dimensions :: 'pt
  al_metrics :: 'pt
  start_time :: u64
  last_step_time :: u64

definition apm_logger_new :: "'pt apm_env \<Rightarrow> string \<Rightarrow> 'pt apm_logger" where
  "apm_logger_new E name = \<lparr>al_dimensions = ap_put E ''name'' name (ap_empty E), al_metrics = ap_empty E,
     start_time = 0, last_step_time = 0\<rparr>"

definition add_metric :: "'pt apm_env \<Rightarrow> string \<Rightarrow> u64 \<Rightarrow> 'pt apm_logger \<Rightarrow> 'pt apm_logger" where
  "add_metric E name v a = a\<lparr>al_metrics := ap_put E name (to_string (unat v)) (al_metrics a)\<rparr>"

definition apm_start :: "u64 \<Rightarrow> 'pt apm_logger \<Rightarrow> 'pt apm_logger" where
  "apm_start now a = a\<lparr>start_time := now, last_step_time := now\<rparr>"

definition apm_step :: "'pt apm_env \<Rightarrow> u64 \<Rightarrow> u64 \<Rightarrow> string \<Rightarrow> 'pt apm_logger \<Rightarrow> 'pt apm_logger" where
  "apm_step E now1 now2 step a =
     (let cost = now1 - last_step_time a
      in add_metric E (step @ ''Cost'') cost (a\<lparr>last_step_time := now2\<rparr>))"

definition apm_post :: "'pt apm_task \<Rightarrow> 'pt apm_state \<Rightarrow> 'pt apm_state" where
  "apm_post t st = st\<lparr>apm_tasks := apm_tasks st @ [t]\<rparr>"

definition apm_end :: "'pt apm_env \<Rightarrow> u64 \<Rightarrow> 'pt apm_logger \<Rightarrow> 'pt apm_state \<Rightarrow> 'pt apm_logger \<times> 'pt apm_state" where
  "apm_end E now a st =
     (let cost = now - start_time a;
          a1 = add_metric E ''count'' 1 (add_metric E ''cost'' cost a)
      in (a1, apm_post (Apm_End (al_dimensions a1) (al_metrics a1)) st))"

text \<open>
  \<open>is_sample\<close>, with the random number of the call as an argument (\<open>0\<close> to \<open>999\<close>). \<open>None\<close> is a
  division by zero.
\<close>

definition is_sample :: "nat \<Rightarrow> u64 \<Rightarrow> bool option" where
  "is_sample rnd sample =
     (if sample = 0 then None
      else (let scale = 1000 div unat sample in if scale = 0 then None else Some (rnd div scale = 0)))"

definition perf_count :: "nat \<Rightarrow> string \<Rightarrow> string smap \<Rightarrow> u64 \<Rightarrow> u64 \<Rightarrow> u64 \<Rightarrow> 'pt apm_state \<Rightarrow> 'pt apm_state option" where
  "perf_count rnd name dims cost cnt sample st =
     do { s \<leftarrow> is_sample rnd sample;
          Some (if s then apm_post (Perf_Cost name dims cost cnt sample) st else st) }"

definition perf_sample :: "nat \<Rightarrow> string \<Rightarrow> string smap \<Rightarrow> u64 \<Rightarrow> u64 \<Rightarrow> 'pt apm_state \<Rightarrow> 'pt apm_state option" where
  "perf_sample rnd name dims cost sample st = perf_count rnd name dims cost 1 sample st"

definition perf :: "nat \<Rightarrow> string \<Rightarrow> string smap \<Rightarrow> u64 \<Rightarrow> 'pt apm_state \<Rightarrow> 'pt apm_state option" where
  "perf rnd name dims cost st = perf_sample rnd name dims cost 1 st"

definition perf_counts :: "string \<Rightarrow> string smap \<Rightarrow> int smap \<Rightarrow> 'pt apm_state \<Rightarrow> 'pt apm_state" where
  "perf_counts name dims counts st = apm_post (Perf_Counts name dims counts) st"

text \<open>The key of the statistics: the dimensions as a property tree, printed and encoded.\<close>

definition dimensions_id :: "'pt apm_env \<Rightarrow> string smap \<Rightarrow> string \<Rightarrow> string" where
  "dimensions_id E dims name =
     base64_encode (b64_to6 E)
       (to_json E (ap_put E ''name'' name (foldl (\<lambda>pt d. ap_put E (fst d) (snd d) pt) (ap_empty E) dims)))"

fun end_metrics :: "'pt apm_env \<Rightarrow> 'pt \<Rightarrow> string \<Rightarrow> string \<Rightarrow> string list \<Rightarrow> statistics \<Rightarrow> statistics option" where
  "end_metrics E metrics name did [] st = Some st"
| "end_metrics E metrics name did (m # ms) st =
     do { v \<leftarrow> ap_get_u64 E metrics m; end_metrics E metrics name did ms (accumulate_at name did m v 1 st) }"

fun run_task :: "'pt apm_env \<Rightarrow> 'pt apm_task \<Rightarrow> statistics \<Rightarrow> statistics option" where
  "run_task E (Perf_Cost name dims cost cnt sample) st =
     (let did = dimensions_id E dims name
      in Some (accumulate_at name did ''cost'' cost sample (accumulate_at name did ''count'' cnt sample st)))"
| "run_task E (Perf_Counts name dims counts) st =
     (let did = dimensions_id E dims name
      in Some (foldl (\<lambda>st c. accumulate_at name did (fst c) (of_int (snd c)) 1 st) (accumulate_at name did ''count'' 1 1 st) counts))"
| "run_task E (Apm_End dims metrics) st =
     do { name \<leftarrow> ap_get E dims ''name'';
          end_metrics E metrics name (base64_encode (b64_to6 E) (to_json E dims)) (ap_keys E metrics) st }"

text \<open>The tasks of \<open>IO_CONTEXT\<close> in the order its threads take them.\<close>

fun run_tasks :: "'pt apm_env \<Rightarrow> 'pt apm_task list \<Rightarrow> statistics \<Rightarrow> statistics option" where
  "run_tasks E [] st = Some st"
| "run_tasks E (t # ts) st = do { st1 \<leftarrow> run_task E t st; run_tasks E ts st1 }"

section \<open>The report\<close>

definition metric_avg :: "u64 \<Rightarrow> metric \<Rightarrow> u64" where
  "metric_avg t_count m = at 0 m ''sum'' div t_count"

text \<open>The metrics of an entry with their average, the count excepted; \<open>t_count\<close> is not zero here.\<close>

fun report_metrics :: "'pt apm_env \<Rightarrow> u64 \<Rightarrow> metric smap \<Rightarrow> 'pt \<Rightarrow> 'pt" where
  "report_metrics E t_count [] finalPT = finalPT"
| "report_metrics E t_count (it2 # rest) finalPT =
     (if fst it2 \<noteq> ''count'' then
        (let m = AList.update ''avg'' (metric_avg t_count (snd it2)) (snd it2);
             t_metrics = foldl (\<lambda>pt it3. ap_put E (fst it3) (to_string (unat (snd it3))) pt) (ap_empty E) m
         in report_metrics E t_count rest (ap_put_child E (fst it2) t_metrics finalPT))
      else report_metrics E t_count rest finalPT)"

text \<open>One entry: \<open>None\<close> is an exception of the decoder or of the parser, \<open>Some None\<close> an entry that is skipped.\<close>

definition report_entry :: "'pt apm_env \<Rightarrow> string \<Rightarrow> string \<times> metric smap \<Rightarrow> string option option" where
  "report_entry E now_str it1 =
     do { json \<leftarrow> base64_decode (b64_from6 E) (fst it1);
          t_dimensions \<leftarrow> from_json E json;
          let finalPT = ap_insert_all E t_dimensions (ap_empty E);
              metrics = update_at [] ''count'' (update_at 0 ''sum'' (\<lambda>v. v)) (snd it1);
              t_count = at 0 (at [] metrics ''count'') ''sum''
          in if t_count \<le> 0 then Some None
             else (let pt = ap_put E ''server_time'' now_str
                              (ap_put E ''count'' (to_string (unat t_count)) (report_metrics E t_count metrics finalPT))
                   in Some (Some (to_json E pt @ [CHR 0x0A]))) }"

fun report_entries :: "'pt apm_env \<Rightarrow> string \<Rightarrow> (string \<times> metric smap) list \<Rightarrow> string option" where
  "report_entries E now_str [] = Some []"
| "report_entries E now_str (it1 # its) =
     do { line \<leftarrow> report_entry E now_str it1;
          rest \<leftarrow> report_entries E now_str its;
          Some (case line of None \<Rightarrow> rest | Some l \<Rightarrow> l @ rest) }"

definition perf_folder :: string where
  "perf_folder = ''/tmp/st/perf/''"

text \<open>
  The whole report: the statistics are taken over and cleared, the file is created, the folder is cut
  to 200 files, the entries are written. The result is \<open>None\<close> when an exception leaves the function.
\<close>

definition report_apm_log_local ::
  "'fs filesystem \<Rightarrow> ((int \<times> string) list \<Rightarrow> (int \<times> string) list) \<Rightarrow> 'pt apm_env \<Rightarrow> log_globals
   \<Rightarrow> string \<Rightarrow> string \<Rightarrow> string \<Rightarrow> 'pt apm_state \<Rightarrow> 'fs \<Rightarrow> ('pt apm_state \<times> 'fs) option"
where
  "report_apm_log_local F std_sort E g stamp uuid now_str st fs =
     (let metric_duplicate = STATISTICS st; st1 = st\<lparr>STATISTICS := []\<rparr>;
          filename = perf_folder @ stamp @ ''.'' @ TAG g @ ''.perf.'' @ uuid
      in if metric_duplicate = [] then Some (st1, fs)
         else (let (created, fs1) = create_if_not_exits F filename fs;
                   (deleted, fs2) = limit_file_cnt F std_sort perf_folder 200 fs1
               in case deleted of
                    None \<Rightarrow> None
                  | Some n \<Rightarrow>
                      (case fs_write F filename [] fs2 of
                         None \<Rightarrow> Some (st1, fs2)
                       | Some fs3 \<Rightarrow>
                           do { text \<leftarrow> report_entries E now_str (concat (map snd metric_duplicate));
                                case fs_write F filename text fs3 of
                                  None \<Rightarrow> Some (st1, fs3)
                                | Some fs4 \<Rightarrow> Some (st1, fs4) })))"

definition apm_init :: "'pt apm_state \<Rightarrow> 'pt apm_state" where
  "apm_init st = st\<lparr>apm_running := True\<rparr>"

text \<open>The handler of the timer that \<open>init\<close> starts: it starts the timer again and writes the report.\<close>

definition schedule_log ::
  "'fs filesystem \<Rightarrow> ((int \<times> string) list \<Rightarrow> (int \<times> string) list) \<Rightarrow> 'pt apm_env \<Rightarrow> log_globals
   \<Rightarrow> nat \<Rightarrow> string \<Rightarrow> string \<Rightarrow> string \<Rightarrow> 'pt apm_state \<Rightarrow> 'fs \<Rightarrow> (nat \<times> 'pt apm_state \<times> 'fs) option"
where
  "schedule_log F std_sort E g now stamp uuid now_str st fs =
     do { res \<leftarrow> report_apm_log_local F std_sort E g stamp uuid now_str st fs; Some (now + 60 * 1000, res) }"

text \<open>\<open>disable\<close> stops the threads: what is posted and has not run stays in the queue.\<close>

definition apm_disable ::
  "'fs filesystem \<Rightarrow> ((int \<times> string) list \<Rightarrow> (int \<times> string) list) \<Rightarrow> 'pt apm_env \<Rightarrow> log_globals
   \<Rightarrow> string \<Rightarrow> string \<Rightarrow> string \<Rightarrow> 'pt apm_state \<Rightarrow> 'fs \<Rightarrow> ('pt apm_state \<times> 'fs) option"
where
  "apm_disable F std_sort E g stamp uuid now_str st fs =
     report_apm_log_local F std_sort E g stamp uuid now_str (if apm_running st then st\<lparr>apm_running := False\<rparr> else st) fs"

text \<open>\<open>logger::init\<close>: the \<open>log\<close> child of the configuration, if there is one, with its two optional values.\<close>

definition logger_init :: "(int option \<times> string option) option \<Rightarrow> log_globals \<Rightarrow> 'pt apm_state \<Rightarrow> log_globals \<times> 'pt apm_state" where
  "logger_init logConfig g st =
     (let g1 = (case logConfig of
                  None \<Rightarrow> g
                | Some (lvl, tag) \<Rightarrow>
                    g\<lparr>LEVEL := of_int (case lvl of None \<Rightarrow> 1 | Some n \<Rightarrow> n),
                      TAG := (case tag of None \<Rightarrow> ''default'' | Some t \<Rightarrow> t)\<rparr>)
      in (g1\<lparr>INITED := True\<rparr>, apm_init st))"

section \<open>Messages line by line\<close>

lemma log_lines_split: "log_lines (pre @ s) (length pre) (length pre) = split_on (CHR 0x0A) s"
proof (induction s arbitrary: pre rule: length_induct)
  case (1 s)
  show ?case
  proof (cases "CHR 0x0A \<in> set s")
    case False
    then have "str_find (pre @ s) [CHR 0x0A] (length pre) = None" by (intro str_find_char_None) simp
    then show ?thesis using False by (simp add: split_on_no_sep substr_def)
  next
    case True
    then obtain ys zs where s: "s = ys @ CHR 0x0A # zs" "CHR 0x0A \<notin> set ys" by (blast dest: split_list_first)
    have "str_find (pre @ s) [CHR 0x0A] (length pre) = Some (length (pre @ ys))"
      using str_find_char_Some [of "CHR 0x0A" ys "pre @ s" pre zs] s by simp
    moreover from 1 [rule_format, of zs "pre @ ys @ [CHR 0x0A]"] s
    have "log_lines (pre @ s) (Suc (length pre + length ys)) (Suc (length pre + length ys)) = split_on (CHR 0x0A) zs" by simp
    ultimately show ?thesis using s by (subst log_lines.simps) (simp add: split_on_sep substr_def del: log_lines.simps)
  qed
qed

lemma do_log_eq:
  "do_log g now_str thread traceId l =
     (if lg_level l < LEVEL g then [] else map (do_log_line g now_str thread traceId (levelName l)) (split_on (CHR 0x0A) (lg_str l)),
      l\<lparr>lg_str := []\<rparr>)"
  using log_lines_split [of "[]" "lg_str l"] by (simp add: do_log_def del: log_lines.simps)

lemma log_strings:
  "foldl (\<lambda>l s. log_string g s l) l ss =
     (if lg_level l < LEVEL g then l else l\<lparr>lg_str := lg_str l @ concat (map (\<lambda>s. s @ SPLIT) ss)\<rparr>)"
  by (induction ss arbitrary: l) (auto simp: log_string_def append_str_def)

text \<open>
  A message logged piece by piece and closed by \<open>END\<close> is written as its lines, in order, each with
  the level and the trace id, the pieces separated by blanks; a message below the level writes
  nothing. The logger is empty afterwards.
\<close>

theorem logged_message:
  assumes "lg_str l = []"
  shows "do_log g now_str thread traceId (foldl (\<lambda>l s. log_string g s l) l ss) =
    (if lg_level l < LEVEL g then []
     else map (do_log_line g now_str thread traceId (levelName l)) (split_on (CHR 0x0A) (concat (map (\<lambda>s. s @ '' '') ss))), l)"
  using assms by (auto simp: log_strings do_log_eq SPLIT_def)

theorem logged_message_witness:
  "do_log (log_globals_default\<lparr>INITED := True\<rparr>) ''t'' ''1'' 7 (foldl (\<lambda>l s. log_string (log_globals_default\<lparr>INITED := True\<rparr>) s l) logger_ERROR [''a'', ''b'']) =
     ([To_File ''[ERROR] [7] a b ''], logger_ERROR)"
proof -
  have "to_string 7 = ''7''" by code_simp
  with logged_message [of logger_ERROR "log_globals_default\<lparr>INITED := True\<rparr>" "''t''" "''1''" 7 "[''a'', ''b'']"]
  show ?thesis by (simp add: logger_ERROR_def logger_new_def log_globals_default_def do_log_line_def SPLIT_def)
qed

section \<open>Costs\<close>

lemma at_update_at: "at d (update_at d k f m) k' = (if k = k' then f (at d m k) else at d m k')"
  by (simp add: at_def update_at_def update_conv')

text \<open>The metric that a statistic holds under a name, dimensions and a metric name.\<close>

definition metric_of :: "statistics \<Rightarrow> string \<Rightarrow> string \<Rightarrow> string \<Rightarrow> metric" where
  "metric_of st name did m = at [] (at [] (at [] st name) did) m"

lemma metric_of_accumulate:
  "metric_of (accumulate_at n d m v s st) n' d' m' =
     (if n = n' \<and> d = d' \<and> m = m' then accumulate_metric v s (metric_of st n d m) else metric_of st n' d' m')"
  by (simp add: metric_of_def accumulate_at_def at_update_at)

text \<open>The summary of a list of values with their samples, and the metric that is one.\<close>

definition summarizes :: "metric \<Rightarrow> (u64 \<times> u64) list \<Rightarrow> bool" where
  "summarizes m vs \<longleftrightarrow>
     (if vs = [] then m = []
      else map_of m ''sum'' = Some (sum_list (map (\<lambda>(v, s). v * s) vs))
         \<and> map_of m ''min'' = Some (Min (fst ` set vs)) \<and> map_of m ''max'' = Some (Max (fst ` set vs)))"

lemma summarizes_accumulate:
  assumes "summarizes m vs"
  shows "summarizes (accumulate_metric v s m) (vs @ [(v, s)])"
proof (cases "vs = []")
  case True
  have "min v (- 1) = v" by (simp add: min_def word_order.extremum_unique)
  with True assms show ?thesis
    by (simp add: summarizes_def accumulate_metric_def update_at_def at_def Let_def)
next
  case False
  with assms have m: "map_of m ''sum'' = Some (sum_list (map (\<lambda>(v, s). v * s) vs))"
    "map_of m ''min'' = Some (Min (fst ` set vs))" "map_of m ''max'' = Some (Max (fst ` set vs))"
    by (simp_all add: summarizes_def)
  then have "m \<noteq> []" by auto
  with m False show ?thesis
    by (simp add: summarizes_def accumulate_metric_def update_at_def at_def Let_def update_conv')
qed

text \<open>The costs that a sequence of posted functions holds for a name and dimensions.\<close>

fun is_perf_cost :: "'pt apm_task \<Rightarrow> bool" where
  "is_perf_cost (Perf_Cost name dims cost cnt sample) = True"
| "is_perf_cost (Perf_Counts name dims counts) = False"
| "is_perf_cost (Apm_End dims metrics) = False"

fun cost_events :: "'pt apm_env \<Rightarrow> string \<Rightarrow> string \<Rightarrow> 'pt apm_task list \<Rightarrow> (u64 \<times> u64 \<times> u64) list" where
  "cost_events E name did [] = []"
| "cost_events E name did (Perf_Cost n dims cost cnt sample # ts) =
     (if n = name \<and> dimensions_id E dims n = did then (cost, cnt, sample) # cost_events E name did ts
      else cost_events E name did ts)"
| "cost_events E name did (t # ts) = cost_events E name did ts"

lemma run_tasks_summarizes:
  assumes "\<forall>t\<in>set ts. is_perf_cost t"
    and "summarizes (metric_of st name did ''cost'') (map (\<lambda>e. (fst e, snd (snd e))) evs)"
    and "summarizes (metric_of st name did ''count'') (map snd evs)"
  shows "\<exists>st'. run_tasks E ts st = Some st'
    \<and> summarizes (metric_of st' name did ''cost'') (map (\<lambda>e. (fst e, snd (snd e))) (evs @ cost_events E name did ts))
    \<and> summarizes (metric_of st' name did ''count'') (map snd (evs @ cost_events E name did ts))"
  using assms
proof (induction ts arbitrary: st evs)
  case Nil
  then show ?case by simp
next
  case (Cons t ts)
  then obtain n dims cost cnt sample where t: "t = Perf_Cost n dims cost cnt sample" by (cases t) auto
  let ?did = "dimensions_id E dims n"
  define st1 where "st1 = accumulate_at n ?did ''cost'' cost sample (accumulate_at n ?did ''count'' cnt sample st)"
  have run: "run_task E t st = Some st1" by (simp add: t st1_def Let_def)
  show ?case
  proof (cases "n = name \<and> ?did = did")
    case True
    have "summarizes (metric_of st1 name did ''cost'') (map (\<lambda>e. (fst e, snd (snd e))) (evs @ [(cost, cnt, sample)]))"
      "summarizes (metric_of st1 name did ''count'') (map snd (evs @ [(cost, cnt, sample)]))"
      using Cons.prems(2,3) True [THEN conjunct1] True [THEN conjunct2]
      by (simp_all add: st1_def metric_of_accumulate summarizes_accumulate)
    moreover have "evs @ cost_events E name did (t # ts) = (evs @ [(cost, cnt, sample)]) @ cost_events E name did ts"
      unfolding t cost_events.simps if_P [OF True] by simp
    ultimately show ?thesis using Cons.IH [of st1 "evs @ [(cost, cnt, sample)]"] Cons.prems(1) run by simp
  next
    case False
    then have "metric_of st1 name did m = metric_of st name did m" for m by (auto simp: st1_def metric_of_accumulate)
    moreover have "cost_events E name did (t # ts) = cost_events E name did ts"
      unfolding t cost_events.simps if_not_P [OF False] by (rule refl)
    ultimately show ?thesis using Cons.IH [of st1 evs] Cons.prems run by simp
  qed
qed

lemma sum_list_u64:
  "sum_list (map (\<lambda>(v, s). v * s) vs) = (of_nat (sum_list (map (\<lambda>(v, s). unat v * unat s) vs)) :: u64)"
  by (induction vs) auto

lemma unat_sum_list_u64:
  fixes vs :: "(u64 \<times> u64) list"
  assumes "sum_list (map (\<lambda>(v, s). unat v * unat s) vs) < 2 ^ 64"
  shows "unat (sum_list (map (\<lambda>(v, s). v * s) vs)) = sum_list (map (\<lambda>(v, s). unat v * unat s) vs)"
  using assms unfolding sum_list_u64 by (simp add: unat_of_nat)

lemma weighted_sum_bounds:
  fixes lo hi :: nat
  assumes "\<forall>(c, s)\<in>set vs. lo \<le> c \<and> c \<le> hi"
  shows "lo * sum_list (map snd vs) \<le> sum_list (map (\<lambda>(c, s). c * s) vs)
       \<and> sum_list (map (\<lambda>(c, s). c * s) vs) \<le> hi * sum_list (map snd vs)"
  using assms
proof (induction vs)
  case Nil
  then show ?case by simp
next
  case (Cons x vs)
  obtain c s where x: "x = (c, s)" by fastforce
  with Cons.prems have le: "lo * s \<le> c * s" "c * s \<le> hi * s" by auto
  from Cons have "lo * sum_list (map snd vs) \<le> sum_list (map (\<lambda>(c, s). c * s) vs)"
    "sum_list (map (\<lambda>(c, s). c * s) vs) \<le> hi * sum_list (map snd vs)" by auto
  from add_mono [OF le(1) this(1)] add_mono [OF le(2) this(2)] show ?case
    by (simp add: x distrib_left)
qed

lemma div_between:
  fixes lo hi s n :: nat
  assumes "lo * n \<le> s" and "s \<le> hi * n" and "0 < n"
  shows "lo \<le> s div n \<and> s div n \<le> hi"
  using assms div_le_mono [of "lo * n" s n] div_le_mono [of s "hi * n" n] by simp

text \<open>
  C34. The average that the report gives for a name and dimensions is the mean of the costs logged under
  them, weighted by their samples, and lies between the least and the greatest of these costs, which
  the report gives as well: for any sequence of calls of \<open>perf\<close> whose sums fit in 64 bits.
\<close>

theorem perf_average:
  fixes ts :: "'pt apm_task list"
  assumes "\<forall>t\<in>set ts. is_perf_cost t" and "evs = cost_events E name did ts" and "evs \<noteq> []"
    and "\<forall>(c, n, s)\<in>set evs. n = 1 \<and> 0 < s"
    and "sum_list (map (\<lambda>(c, n, s). unat c * unat s) evs) < 2 ^ 64"
    and "sum_list (map (\<lambda>(c, n, s). unat s) evs) < 2 ^ 64"
  shows "\<exists>st. run_tasks E ts [] = Some st \<and>
    (let t_count = at 0 (metric_of st name did ''count'') ''sum''; m = metric_of st name did ''cost'' in
      0 < t_count \<and> unat (metric_avg t_count m)
        = sum_list (map (\<lambda>(c, n, s). unat c * unat s) evs) div sum_list (map (\<lambda>(c, n, s). unat s) evs)
      \<and> at 0 m ''min'' = Min (fst ` set evs) \<and> at 0 m ''max'' = Max (fst ` set evs)
      \<and> at 0 m ''min'' \<le> metric_avg t_count m \<and> metric_avg t_count m \<le> at 0 m ''max'')"
proof -
  let ?cs = "map (\<lambda>e. (fst e, snd (snd e))) evs" and ?ns = "map snd evs"
  let ?S = "sum_list (map (\<lambda>(c, n, s). unat c * unat s) evs)" and ?N = "sum_list (map (\<lambda>(c, n, s). unat s) evs)"
  have "summarizes (metric_of [] name did m) []" for m by (simp add: metric_of_def at_def summarizes_def)
  with run_tasks_summarizes [OF assms(1), of "[]" name did "[]" E] assms(2) obtain st where
    run: "run_tasks E ts [] = Some st" and cost: "summarizes (metric_of st name did ''cost'') ?cs"
    and count: "summarizes (metric_of st name did ''count'') ?ns" by auto
  define m where "m = metric_of st name did ''cost''"
  define t_count where "t_count = at 0 (metric_of st name did ''count'') ''sum''"
  have costs: "fst ` set ?cs = fst ` set evs" by force
  have m: "at 0 m ''sum'' = sum_list (map (\<lambda>(v, s). v * s) ?cs)" "at 0 m ''min'' = Min (fst ` set evs)"
    "at 0 m ''max'' = Max (fst ` set evs)"
    using cost assms(3) unfolding costs [symmetric] by (simp_all add: summarizes_def m_def at_def)
  have S: "unat (at 0 m ''sum'') = ?S"
    using unat_sum_list_u64 [of ?cs] assms(5) unfolding m by (simp add: comp_def case_prod_unfold)
  have one: "map (\<lambda>(v, s). unat v * unat s) ?ns = map (\<lambda>(c, n, s). unat s) evs" using assms(4) by auto
  have "t_count = sum_list (map (\<lambda>(v, s). v * s) ?ns)" using count assms(3) by (simp add: summarizes_def t_count_def at_def)
  then have N: "unat t_count = ?N" using unat_sum_list_u64 [of ?ns] assms(6) unfolding one by simp
  obtain c0 n0 s0 where "(c0, n0, s0) \<in> set evs" using assms(3) by (metis last_in_set prod_cases3)
  with assms(4) have "unat s0 \<in> set (map (\<lambda>(c, n, s). unat s) evs)" "0 < unat s0"
    by (force simp: unat_gt_0 word_neq_0_conv)+
  then have pos: "0 < ?N" using member_le_sum_list [of "unat s0" "map (\<lambda>(c, n, s). unat s) evs"] by linarith
  have avg: "unat (metric_avg t_count m) = ?S div ?N" by (simp add: metric_avg_def unat_div S N)
  let ?vs = "map (\<lambda>(c, n, s). (unat c, unat s)) evs"
  have in_range: "\<forall>(c, s)\<in>set ?vs. unat (Min (fst ` set evs)) \<le> c \<and> c \<le> unat (Max (fst ` set evs))"
    by (auto simp: word_le_nat_alt [symmetric] intro!: Min_le Max_ge) force+
  have "map snd ?vs = map (\<lambda>(c, n, s). unat s) evs" "map (\<lambda>(c, s). c * s) ?vs = map (\<lambda>(c, n, s). unat c * unat s) evs" by auto
  with weighted_sum_bounds [OF in_range] pos div_between
  have "unat (Min (fst ` set evs)) \<le> ?S div ?N \<and> ?S div ?N \<le> unat (Max (fst ` set evs))" by metis
  then have "at 0 m ''min'' \<le> metric_avg t_count m \<and> metric_avg t_count m \<le> at 0 m ''max''"
    by (simp add: m word_le_nat_alt avg)
  moreover have "0 < t_count" using pos N by (simp add: word_less_nat_alt)
  ultimately show ?thesis using run avg m unfolding m_def t_count_def Let_def by blast
qed

text \<open>A property tree for the witness: an association list; the JSON text is the list of its values.\<close>

definition list_env :: "string smap apm_env" where
  "list_env = \<lparr>ap_empty = [], ap_put = AList.update, ap_put_child = (\<lambda>k v pt. pt), ap_insert_all = (\<lambda>a b. a @ b),
     ap_get = map_of, ap_get_u64 = (\<lambda>pt k. None), ap_keys = map fst, write_json = (\<lambda>pt. concat (map snd pt)),
     from_json = (\<lambda>s. None), b64_to6 = (\<lambda>s. s), b64_from6 = Some\<rparr>"

theorem perf_average_witness:
  "\<exists>st. run_tasks list_env [Perf_Cost ''dns'' [] 4 1 1, Perf_Cost ''dns'' [] 9 1 2] [] = Some st \<and>
    (let t_count = at 0 (metric_of st ''dns'' ''dns'' ''count'') ''sum''; m = metric_of st ''dns'' ''dns'' ''cost'' in
      0 < t_count \<and> unat (metric_avg t_count m) = 7 \<and> at 0 m ''min'' \<le> metric_avg t_count m \<and> metric_avg t_count m \<le> at 0 m ''max'')"
proof -
  let ?ts = "[Perf_Cost ''dns'' [] 4 1 1, Perf_Cost ''dns'' [] 9 1 2]" and ?evs = "[(4, 1, 1), (9, 1, 2)] :: (u64 \<times> u64 \<times> u64) list"
  have did: "dimensions_id list_env [] ''dns'' = ''dns''"
    by (simp add: dimensions_id_def list_env_def base64_encode_def to_json_def quote_def)
  have evs: "?evs = cost_events list_env ''dns'' ''dns'' ?ts" by (simp add: did)
  have "\<forall>t\<in>set ?ts. is_perf_cost t" "?evs \<noteq> []" "\<forall>(c, n, s)\<in>set ?evs. n = 1 \<and> 0 < s"
    "sum_list (map (\<lambda>(c, n, s). unat c * unat s) ?evs) < 2 ^ 64" "sum_list (map (\<lambda>(c, n, s). unat s) ?evs) < 2 ^ 64"
    by simp_all
  from perf_average [OF this(1) evs this(2-5)] obtain st where
    run: "run_tasks list_env ?ts [] = Some st" and
    res: "let t_count = at 0 (metric_of st ''dns'' ''dns'' ''count'') ''sum''; m = metric_of st ''dns'' ''dns'' ''cost'' in
      0 < t_count \<and> unat (metric_avg t_count m)
        = sum_list (map (\<lambda>(c, n, s). unat c * unat s) ?evs) div sum_list (map (\<lambda>(c, n, s). unat s) ?evs)
      \<and> at 0 m ''min'' = Min (fst ` set ?evs) \<and> at 0 m ''max'' = Max (fst ` set ?evs)
      \<and> at 0 m ''min'' \<le> metric_avg t_count m \<and> metric_avg t_count m \<le> at 0 m ''max''" by blast
  have "sum_list (map (\<lambda>(c, n, s). unat c * unat s) ?evs) div sum_list (map (\<lambda>(c, n, s). unat s) ?evs) = 7" by simp
  with run res show ?thesis unfolding Let_def by metis
qed

text \<open>
  \<open>perf\<close> with a sample divides by zero for the sample 0 and for every sample over 1000; for the
  others a call is counted when its random number is below \<open>1000 / sample\<close>, so the sample 1 counts
  every call.
\<close>

theorem perf_sampling:
  "(perf_sample rnd name dims cost sample st = None \<longleftrightarrow> sample = 0 \<or> 1000 < unat sample)
   \<and> (sample = 0 \<or> 1000 < unat sample \<or>
      perf_sample rnd name dims cost sample st =
        Some (if rnd < 1000 div unat sample then apm_post (Perf_Cost name dims cost 1 sample) st else st))"
proof -
  have "1000 div unat sample = 0 \<longleftrightarrow> unat sample = 0 \<or> 1000 < unat sample" by (auto simp: div_eq_0_iff)
  moreover have "rnd div k = 0 \<longleftrightarrow> rnd < k" if "k \<noteq> 0" for k :: nat using that by (simp add: div_eq_0_iff)
  ultimately show ?thesis
    by (auto simp: perf_sample_def perf_count_def is_sample_def Let_def unat_eq_0)
qed

section \<open>Names that look like numbers\<close>

text \<open>No quote of the text is followed by a digit.\<close>

fun no_number :: "string \<Rightarrow> bool" where
  "no_number [] \<longleftrightarrow> True"
| "no_number [c] \<longleftrightarrow> c \<noteq> quote"
| "no_number (c # d # cs) \<longleftrightarrow> (c = quote \<longrightarrow> \<not> is_digit d) \<and> no_number (d # cs)"

lemma unquote_prefix: "no_number pre \<Longrightarrow> unquote_numbers (pre @ s) = pre @ unquote_numbers s"
  by (induction pre rule: no_number.induct) (auto simp: number_token_def)

lemma unquote_number:
  assumes "num \<noteq> []" and "\<forall>c \<in> set num. is_digit c"
  shows "unquote_numbers (quote # num @ quote # post) = num @ unquote_numbers post"
proof -
  have "takeWhile is_digit (num @ quote # post) = num" "dropWhile is_digit (num @ quote # post) = quote # post"
    using assms(2) by (simp_all add: takeWhile_append dropWhile_append quote_def is_digit_def)
  then have "number_token (num @ quote # post) = Some (num, post)"
    using assms(1) by (simp add: number_token_def quote_def is_digit_def)
  then show ?thesis by simp
qed

lemma report_entries_fault: "it \<in> set its \<Longrightarrow> report_entry E now_str it = None \<Longrightarrow> report_entries E now_str its = None"
  by (induction its) auto

text \<open>
  C32. A measurement with a value that looks like a number is written without its quotes. If the parser does
  not take what comes out as JSON, as with the leading zeros of a host \<open>007\<close>, the next report reads it
  back and ends with an exception that nothing catches; the statistics are lost.
\<close>

theorem numeric_dimension_breaks_report:
  assumes "write_json E dims = pre @ quote # num @ quote # post" and "no_number pre" and "num \<noteq> []" and "\<forall>c \<in> set num. is_digit c"
    and "from_json E (pre @ num @ unquote_numbers post) = None"
    and "b64_from6 E (b64_to6 E (to_json E dims)) = Some (to_json E dims)" and "CHR ''='' \<notin> set (b64_to6 E (to_json E dims))"
    and "(base64_encode (b64_to6 E) (to_json E dims), metrics) \<in> set (concat (map snd (STATISTICS st)))"
    and "\<forall>path fs. fs_write F path [] fs \<noteq> None"
  shows "to_json E dims = pre @ num @ unquote_numbers post
    \<and> report_apm_log_local F std_sort E g stamp uuid now_str st fs = None"
proof -
  have json: "to_json E dims = pre @ num @ unquote_numbers post"
    using assms(1-4) by (simp add: to_json_def unquote_prefix unquote_number del: unquote_numbers.simps)
  have "report_entry E now_str (base64_encode (b64_to6 E) (to_json E dims), metrics) = None"
    using base64_decode_encode [of "b64_from6 E" "b64_to6 E" "to_json E dims"] assms(5-7) json by (simp add: report_entry_def)
  then have "report_entries E now_str (concat (map snd (STATISTICS st))) = None"
    using assms(8) by (intro report_entries_fault)
  moreover have "STATISTICS st \<noteq> []" using assms(8) by auto
  ultimately have "report_apm_log_local F std_sort E g stamp uuid now_str st fs = None"
    using assms(9) by (auto simp: report_apm_log_local_def Let_def split: prod.splits option.splits) (metis option.distinct(1))
  with json show ?thesis by blast
qed

definition host_env :: "string apm_env" where
  "host_env = \<lparr>ap_empty = [], ap_put = (\<lambda>k v pt. v), ap_put_child = (\<lambda>k v pt. pt), ap_insert_all = (\<lambda>a b. a),
     ap_get = (\<lambda>pt k. Some pt), ap_get_u64 = (\<lambda>pt k. None), ap_keys = (\<lambda>pt. []),
     write_json = (\<lambda>host. ''{'' @ quote # ''domain'' @ quote # '':'' @ quote # host @ quote # ''}''),
     from_json = (\<lambda>s. if s = ''{'' @ quote # ''domain'' @ quote # '':007}'' then None else Some s),
     b64_to6 = (\<lambda>s. s), b64_from6 = Some\<rparr>"

theorem numeric_dimension_breaks_report_witness:
  "report_apm_log_local (flat_fs\<lparr>fs_write := (\<lambda>p s fs. Some fs)\<rparr>) (sort_key fst) host_env log_globals_default ''t'' ''u'' ''t''
     \<lparr>STATISTICS = [(''st-dns'', [(base64_encode (b64_to6 host_env) (to_json host_env ''007''), [])])], apm_tasks = [], apm_running = True\<rparr>
     [] = None"
proof -
  let ?pre = "''{'' @ quote # ''domain'' @ quote # '':''"
  have w: "write_json host_env ''007'' = ?pre @ quote # ''007'' @ quote # ''}''" by (simp add: host_env_def)
  have n: "no_number ?pre" "''007'' \<noteq> []" "\<forall>c \<in> set ''007''. is_digit c" by (simp_all add: quote_def is_digit_def)
  have u: "unquote_numbers ''}'' = ''}''" by (simp add: quote_def)
  have j: "to_json host_env ''007'' = ?pre @ ''007'' @ ''}''"
    unfolding to_json_def w unquote_prefix [OF n(1)] unquote_number [OF n(2,3)] u by (rule refl)
  have f: "from_json host_env (?pre @ ''007'' @ unquote_numbers ''}'') = None" unfolding u by (simp add: host_env_def)
  have b64: "b64_to6 host_env = (\<lambda>s. s)" "b64_from6 host_env = Some" by (simp_all add: host_env_def)
  show ?thesis
    by (rule numeric_dimension_breaks_report [OF w n f, THEN conjunct2])
       (simp_all add: b64 j quote_def)
qed

end
