(* ===== verification/Console.thy ===== *)
theory Console
  imports Dns_Server
begin

text \<open>
  The command channel: \<open>src/common/main/console/udp_console.cpp\<close> (the server side of a console on
  UDP), \<open>console/client.h\<close> (the client side), \<open>core/console_manager.cpp\<close> (the commands of this
  program), \<open>command/dns_command.h\<close> and \<open>command/proxy_command.h\<close> (commands sent to other programs)
  and \<open>dns_server::schedule\<close>, which asks the proxy for the areas of the upstream servers.

  \<open>boost::trim\<close> and \<open>boost::program_options\<close> are parameters. \<open>None\<close> is an access outside a buffer or
  an exception that no handler catches; both end the program. A datagram is a string of characters.
\<close>

section \<open>Model\<close>

record console_options =
  op_domain :: string
  op_ip :: string

text \<open>
  \<open>ce_options\<close> parses the arguments against the two described options, whose default is the empty
  string; \<open>None\<close> is an exception of the parser. \<open>ce_dump_opens\<close>: the file of \<open>dump\<close> can be opened.
\<close>

record console_env =
  ce_trim :: "string \<Rightarrow> string"
  ce_options :: "string list \<Rightarrow> console_options option"
  ce_dump_opens :: bool

subsection \<open>The console on UDP\<close>

text \<open>Words up to the first that starts with a dash are the command, the rest are its options.\<close>

fun classify_items :: "console_env \<Rightarrow> string list \<Rightarrow> bool \<Rightarrow> string list \<Rightarrow> string list \<Rightarrow> string list \<times> string list" where
  "classify_items E [] is_option commands options = (commands, options)"
| "classify_items E (item0 # items) is_option commands options =
     (let item = ce_trim E item0 in
      if \<not> is_option \<and> (item = [] \<or> hd item \<noteq> CHR ''-'')
      then classify_items E items is_option (commands @ [item]) options
      else classify_items E items True commands (options @ [item]))"

definition parse_command :: "console_env \<Rightarrow> string \<Rightarrow> (string list \<times> console_options) option" where
  "parse_command E command = do {
     splits \<leftarrow> split command '' '';
     let (commands, options) = classify_items E splits False [] [];
     vm \<leftarrow> ce_options E (map c_str options);
     Some (commands, vm) }"

record udp_console =
  command_buffer :: string
  response_buffer :: string

definition udp_console_new :: "string \<Rightarrow> string \<Rightarrow> udp_console" where
  "udp_console_new cb rb = \<lparr>command_buffer = cb, response_buffer = rb\<rparr>"

definition char_write :: "string \<Rightarrow> nat \<Rightarrow> string \<Rightarrow> string option" where
  "char_write buf p s = (if p + length s \<le> length buf then Some (take p buf @ s @ drop (p + length s) buf) else None)"

text \<open>\<open>send_response\<close>: the datagram it sends.\<close>

definition send_response :: "string \<Rightarrow> udp_console \<Rightarrow> (string \<times> udp_console) option" where
  "send_response result con = do {
     rb \<leftarrow> char_write (response_buffer con) 0 result;
     Some (take (length result) rb, con\<lparr>response_buffer := rb\<rparr>) }"

text \<open>The handler of \<open>receive\<close>; \<open>impl\<close> is the function installed by the owner of the console.\<close>

definition console_receive ::
  "console_env \<Rightarrow> (string list \<Rightarrow> console_options \<Rightarrow> 's \<Rightarrow> ((bool \<times> string) \<times> 's) option) \<Rightarrow> string
     \<Rightarrow> udp_console \<Rightarrow> 's \<Rightarrow> (string \<times> udp_console \<times> 's) option" where
  "console_receive E impl datagram con s = do {
     cb \<leftarrow> char_write (command_buffer con) 0 datagram;
     cb1 \<leftarrow> char_write cb (length datagram) [CHR 0x00];
     let command = ce_trim E (c_str cb1);
     (commands, options) \<leftarrow> parse_command E command;
     ((ok, res), s') \<leftarrow> impl commands options s;
     (reply, con') \<leftarrow> send_response ((if ok then ''success'' else ''failed'') @ [CHR 0x0A] @ res @ [CHR 0x0A])
        (con\<lparr>command_buffer := cb1\<rparr>);
     Some (reply, con', s') }"

subsection \<open>The client of a console\<close>

text \<open>
  \<open>client::command\<close>: \<open>answer\<close> is the datagram that came back before the timeout, if any, as far as it
  fits in the buffer. The terminator is written one place after the end.
\<close>

definition client_command :: "console_env \<Rightarrow> string option \<Rightarrow> (bool \<times> string) option" where
  "client_command E answer = do {
     let res = replicate 10240 (CHR 0x00);
     res1 \<leftarrow> (case answer of
         None \<Rightarrow> Some res
       | Some bytes \<Rightarrow> do {
           buf \<leftarrow> char_write res 0 (take 10240 bytes);
           char_write buf (length (take 10240 bytes) + 1) [CHR 0x00] });
     let result = c_str res1;
     splits \<leftarrow> split result [CHR 0x0A];
     if splits \<noteq> [] then
       (if splits ! 0 = ''success'' then Some (True, ce_trim E (substr result 7 None))
        else if 6 \<le> length result then Some (False, ce_trim E (substr result 6 None)) else None)
     else Some (False, ''network error!'') }"

subsection \<open>The commands of the program\<close>

record 'd console_state =
  cs_server :: "'d dns_server"
  cs_dump :: "string option"

definition dns_record_stats_new :: dns_record_stats where
  "dns_record_stats_new = \<lparr>total_domain = 0, trusted_domain = 0, total_ip = 0, trusted_ip = 0\<rparr>"

definition dns_record_stats_serialize :: "dns_record_stats \<Rightarrow> string" where
  "dns_record_stats_serialize st =
     ''total_domain:'' @ to_string (unat (total_domain st)) @ [CHR 0x0A] @ ''trusted_domain:'' @ to_string (unat (trusted_domain st))
     @ [CHR 0x0A] @ ''total_ip:'' @ to_string (unat (total_ip st)) @ [CHR 0x0A] @ ''trusted_ip:'' @ to_string (unat (trusted_ip st))"

definition dump_path :: string where
  "dump_path = ''/tmp/st-dns-record.txt''"

definition console_impl ::
  "console_env \<Rightarrow> 'd server_env \<Rightarrow> nat \<Rightarrow> string list \<Rightarrow> console_options \<Rightarrow> 'd console_state
     \<Rightarrow> ((bool \<times> string) \<times> 'd console_state) option" where
  "console_impl E S now commands options cs =
     (let command = join commands '' ''; srv = cs_server cs; dn = op_domain options; ip = op_ip options;
          invalid = Some ((False, ''not invalid command''), cs);
          servers = cf_servers (ds_config srv);
          entries = disk_kv_list (en_db S) (en_values S) now (rm_db (ds_records srv))
      in if command = ''dns resolve'' then
           (if dn \<noteq> [] then do {
              (record, srv1) \<leftarrow> server_resolve S now dn srv;
              Some ((True, dns_record_serialize record), cs\<lparr>cs_server := srv1\<rparr>) }
            else invalid)
         else if command = ''dns reverse resolve'' then
           (if ip \<noteq> [] then
              (case str_to_ip ip of
                 Inl e \<Rightarrow> None
               | Inr addr \<Rightarrow>
                   (let (record, rm) = reverse_resolve (en_db S) (en_values S) (en_records S) now addr (ds_records srv)
                    in Some ((True, join (rr_domains record) '',''), cs\<lparr>cs_server := srv\<lparr>ds_records := rm\<rparr>\<rparr>)))
            else invalid)
         else if command = ''dns record get'' then
           (if dn \<noteq> [] then
              (let (records, rm, m) = get_dns_record_list (en_db S) (en_values S) (en_records S) now (en_areas S) servers dn
                     (ds_records srv) (ds_areas srv)
               in Some ((True, join (map dns_record_serialize records) [CHR 0x0A]),
                        cs\<lparr>cs_server := srv\<lparr>ds_records := rm, ds_areas := m\<rparr>\<rparr>))
            else invalid)
         else if command = ''dns record dump'' then
           (if ce_dump_opens E then
              (let (txt, m) = dump_records (en_records S) now (en_areas S) servers entries (ds_areas srv)
               in Some ((True, dump_path), cs\<lparr>cs_server := srv\<lparr>ds_areas := m\<rparr>, cs_dump := Some txt\<rparr>))
            else Some ((True, dump_path), cs))
         else if command = ''dns record remove'' then
           (if dn \<noteq> []
            then Some ((True, []), cs\<lparr>cs_server := srv\<lparr>ds_records := record_manager_remove (en_db S) dn (ds_records srv)\<rparr>\<rparr>)
            else invalid)
         else if command = ''dns record clear'' then
           Some ((True, []), cs\<lparr>cs_server := srv\<lparr>ds_records := record_manager_clear (en_db S) (ds_records srv)\<rparr>\<rparr>)
         else if command = ''dns record analyse'' then do {
           (st, m) \<leftarrow> record_stats (en_records S) (en_regex S) (en_sort S) (en_shuffle S) now (en_areas S) servers entries
              dns_record_stats_new (ds_areas srv);
           Some ((True, dns_record_stats_serialize st), cs\<lparr>cs_server := srv\<lparr>ds_areas := m\<rparr>\<rparr>) }
         else if command = ''ip area'' then
           (case str_to_ip ip of
              Inl e \<Rightarrow> None
            | Inr addr \<Rightarrow> (let (area, m) = get_area (en_areas S) addr True (ds_areas srv)
                           in Some ((True, area), cs\<lparr>cs_server := srv\<lparr>ds_areas := m\<rparr>\<rparr>)))
         else if command = ''dns queue list'' then Some ((False, ''not implemented in singleton''), cs)
         else invalid)"

subsection \<open>Commands to other programs\<close>

text \<open>\<open>net\<close> is the answer of the console on the other side to a command, if one comes in time.\<close>

definition dns_command_reverse_resolve :: "console_env \<Rightarrow> (string \<Rightarrow> string option) \<Rightarrow> u32 \<Rightarrow> string list option" where
  "dns_command_reverse_resolve E net ip = do {
     result \<leftarrow> client_command E (net (''dns reverse resolve --ip='' @ ip_to_str ip));
     if fst result then split (snd result) '','' else Some [] }"

definition register_area_port :: "console_env \<Rightarrow> (string \<Rightarrow> string option) \<Rightarrow> string \<Rightarrow> u16 \<Rightarrow> string \<Rightarrow> u16 option" where
  "register_area_port E net ip port area = do {
     result \<leftarrow> client_command E (net (''proxy register area virtual port --area='' @ area @ '' --port='' @
        to_string (unat port) @ '' --ip='' @ ip));
     if fst result then (case stoi (snd result) of Inl e \<Rightarrow> None | Inr n \<Rightarrow> Some (word_of_int n)) else Some 0 }"

definition get_ip_available_proxy_areas :: "console_env \<Rightarrow> (string \<Rightarrow> string option) \<Rightarrow> string \<Rightarrow> string list option" where
  "get_ip_available_proxy_areas E net ip = do {
     result \<leftarrow> client_command E (net (''proxy ip available areas --ip='' @ ip));
     if fst result then split (snd result) '','' else Some [] }"

subsection \<open>The schedule of the server\<close>

fun schedule_areas :: "console_env \<Rightarrow> (string \<Rightarrow> string option) \<Rightarrow> http_get \<Rightarrow> remote_dns_server \<Rightarrow> string list
    \<Rightarrow> (string \<times> u16) list \<Rightarrow> area_manager \<Rightarrow> ((string \<times> u16) list \<times> area_manager) option" where
  "schedule_areas E net http server [] result m = Some (result, m)"
| "schedule_areas E net http server (area # areas) result m = do {
     result1 \<leftarrow>
       (if is_match_areas (sv_areas server) area then do {
          a_port \<leftarrow> register_area_port E net (sv_ip server) (word_of_int (sv_port server)) area;
          Some (if 0 < a_port then result @ [(area, a_port)] else result) }
        else Some result);
     (case load_area_ips http area m of
        (Inl e, m1) \<Rightarrow> None
      | (Inr loaded, m1) \<Rightarrow> schedule_areas E net http server areas result1 m1) }"

fun schedule_servers :: "console_env \<Rightarrow> (string \<Rightarrow> string option) \<Rightarrow> http_get \<Rightarrow> remote_dns_server list \<Rightarrow> area_manager
    \<Rightarrow> (remote_dns_server list \<times> area_manager) option" where
  "schedule_servers E net http [] m = Some ([], m)"
| "schedule_servers E net http (server # servers) m = do {
     (server1, m1) \<leftarrow>
       (if ''LAN'' \<notin> set (sv_areas server) then do {
          areas \<leftarrow> get_ip_available_proxy_areas E net (sv_ip server);
          (result, m1) \<leftarrow> schedule_areas E net http server areas [] m;
          Some (server\<lparr>resolve_optimize_areas := result\<rparr>, m1) }
        else Some (server, m));
     (servers1, m2) \<leftarrow> schedule_servers E net http servers m1;
     Some (server1 # servers1, m2) }"

definition schedule :: "console_env \<Rightarrow> (string \<Rightarrow> string option) \<Rightarrow> http_get \<Rightarrow> 'd dns_server \<Rightarrow> 'd dns_server option" where
  "schedule E net http srv = do {
     (servers, m) \<leftarrow> schedule_servers E net http (cf_servers (ds_config srv)) (ds_areas srv);
     Some (srv\<lparr>ds_config := (ds_config srv)\<lparr>cf_servers := servers\<rparr>, ds_areas := m\<rparr>) }"

section \<open>Buffers\<close>

lemma char_write_in: "p + length s \<le> length buf \<Longrightarrow> char_write buf p s = Some (take p buf @ s @ drop (p + length s) buf)"
  by (simp add: char_write_def)

lemma c_str_append: "CHR 0x00 \<notin> set s \<Longrightarrow> c_str (s @ CHR 0x00 # rest) = s"
  by (auto simp: c_str_def takeWhile_append)

lemma send_response_in:
  assumes "length result \<le> length (response_buffer con)"
  shows "\<exists>con'. send_response result con = Some (result, con') \<and> length (response_buffer con') = length (response_buffer con)
     \<and> command_buffer con' = command_buffer con"
  using assms by (simp add: send_response_def char_write_in)

text \<open>What the console reads of a datagram without NUL characters that is shorter than the buffer.\<close>

lemma console_receive_eq:
  assumes "length (command_buffer con) = 1024" and "length datagram < 1024" and "CHR 0x00 \<notin> set datagram"
    and "parse_command E (ce_trim E datagram) = Some (commands, options)"
    and "impl commands options s = Some ((ok, res), s')"
    and "length ((if ok then ''success'' else ''failed'') @ [CHR 0x0A] @ res @ [CHR 0x0A]) \<le> length (response_buffer con)"
  shows "\<exists>con'. console_receive E impl datagram con s =
    Some ((if ok then ''success'' else ''failed'') @ [CHR 0x0A] @ res @ [CHR 0x0A], con', s')
    \<and> length (command_buffer con') = 1024 \<and> length (response_buffer con') = length (response_buffer con)"
proof -
  let ?reply = "(if ok then ''success'' else ''failed'') @ [CHR 0x0A] @ res @ [CHR 0x0A]"
  let ?cb = "datagram @ drop (length datagram) (command_buffer con)"
  let ?cb1 = "datagram @ CHR 0x00 # drop (Suc (length datagram)) (command_buffer con)"
  have w1: "char_write (command_buffer con) 0 datagram = Some ?cb" using assms(1,2) by (simp add: char_write_in)
  have w2: "char_write ?cb (length datagram) [CHR 0x00] = Some ?cb1" using assms(1,2) by (simp add: char_write_in)
  have cmd: "c_str ?cb1 = datagram" using assms(3) by (rule c_str_append)
  from send_response_in [of ?reply "con\<lparr>command_buffer := ?cb1\<rparr>"] assms(6) obtain con' where
    send: "send_response ?reply (con\<lparr>command_buffer := ?cb1\<rparr>) = Some (?reply, con')"
    and len: "length (response_buffer con') = length (response_buffer con)" "command_buffer con' = ?cb1" by auto
  have "console_receive E impl datagram con s = Some (?reply, con', s')"
    unfolding console_receive_def w1 Option.bind.bind_lunit w2 Let_def cmd assms(4) prod.case assms(5) send by (rule refl)
  with len assms(1,2) show ?thesis by (intro exI [of _ con']) simp
qed

text \<open>What the client makes of a reply.\<close>

lemma client_buffer:
  assumes "length reply + 2 \<le> n"
  shows "\<exists>rest. Option.bind (char_write (replicate n (CHR 0x00)) 0 reply)
    (\<lambda>buf. char_write buf (length reply + 1) [CHR 0x00]) = Some (reply @ CHR 0x00 # rest)"
proof -
  let ?buf = "reply @ replicate (n - length reply) (CHR 0x00)"
  have w1: "char_write (replicate n (CHR 0x00)) 0 reply = Some ?buf" using assms by (simp add: char_write_in)
  have "n - length reply = Suc (n - length reply - 1)" using assms by simp
  then have "replicate (n - length reply) (CHR 0x00) = CHR 0x00 # replicate (n - length reply - 1) (CHR 0x00)"
    by (metis replicate_Suc)
  then have "take (length reply + 1) ?buf = reply @ [CHR 0x00]" by simp
  moreover have "char_write ?buf (length reply + 1) [CHR 0x00] =
      Some (take (length reply + 1) ?buf @ [CHR 0x00] @ drop (length reply + 1 + 1) ?buf)"
    using assms by (subst char_write_in) simp_all
  ultimately show ?thesis unfolding w1 by simp
qed

lemma client_command_eq:
  assumes "CHR 0x00 \<notin> set reply" and "length reply + 2 \<le> 10240" and "split reply [CHR 0x0A] = Some (w # ws)"
    and "w = ''success'' \<or> 6 \<le> length reply"
  shows "client_command E (Some reply) =
    Some (w = ''success'', ce_trim E (drop (if w = ''success'' then 7 else 6) reply))"
proof -
  from client_buffer [OF assms(2)] obtain rest where
    "Option.bind (char_write (replicate 10240 (CHR 0x00)) 0 reply) (\<lambda>buf. char_write buf (length reply + 1) [CHR 0x00])
      = Some (reply @ CHR 0x00 # rest)" by blast
  moreover have "take 10240 reply = reply" using assms(2) by simp
  ultimately show ?thesis
    unfolding client_command_def Let_def option.case using c_str_append [OF assms(1), of rest] assms(3,4)
    by (auto simp: substr_def)
qed

lemma client_command_reply:
  assumes "CHR 0x00 \<notin> set res" and "length res < 10229"
  shows "client_command E (Some ((if ok then ''success'' else ''failed'') @ [CHR 0x0A] @ res @ [CHR 0x0A])) =
    Some (ok, ce_trim E ([CHR 0x0A] @ res @ [CHR 0x0A]))"
proof -
  let ?w = "if ok then ''success'' else ''failed''"
  let ?reply = "?w @ [CHR 0x0A] @ res @ [CHR 0x0A]"
  have "split ?reply [CHR 0x0A] = Some (?w # split_on (CHR 0x0A) (res @ [CHR 0x0A]))"
    by (simp add: split_nonempty split_on_sep)
  then have "client_command E (Some ?reply) = Some (?w = ''success'', ce_trim E (drop (if ?w = ''success'' then 7 else 6) ?reply))"
    using assms by (intro client_command_eq) auto
  then show ?thesis by (cases ok) simp_all
qed

section \<open>Commands end to end\<close>

text \<open>What the code relies on: \<open>trim\<close> takes the blanks off both ends, an option \<open>--ip=s\<close> is parsed.\<close>

definition bare :: "string \<Rightarrow> bool" where
  "bare s \<longleftrightarrow> s = [] \<or> \<not> is_space (hd s) \<and> \<not> is_space (last s)"

definition trim_law :: "console_env \<Rightarrow> bool" where
  "trim_law E \<longleftrightarrow> (\<forall>a s b. list_all is_space a \<and> list_all is_space b \<and> bare s \<longrightarrow> ce_trim E (a @ s @ b) = s)"

definition ip_option_law :: "console_env \<Rightarrow> bool" where
  "ip_option_law E \<longleftrightarrow> (\<forall>s. s \<noteq> [] \<longrightarrow> ce_options E [''--ip='' @ s] = Some \<lparr>op_domain = [], op_ip = s\<rparr>)"

lemma trim_blanks: "trim_law E \<Longrightarrow> list_all is_space a \<Longrightarrow> list_all is_space b \<Longrightarrow> bare s \<Longrightarrow> ce_trim E (a @ s @ b) = s"
  unfolding trim_law_def by blast

lemma trim_bare: "trim_law E \<Longrightarrow> bare s \<Longrightarrow> ce_trim E s = s"
  using trim_blanks [of E "[]" "[]" s] by simp

lemma trim_newlines: "trim_law E \<Longrightarrow> bare s \<Longrightarrow> ce_trim E ([CHR 0x0A] @ s @ [CHR 0x0A]) = s"
  by (rule trim_blanks) (simp_all add: is_space_def)

lemma ip_bare: "pre \<noteq> [] \<Longrightarrow> \<not> is_space (hd pre) \<Longrightarrow> bare (pre @ ip_to_str ip)"
proof -
  have "\<not> is_space c" if "c \<in> set (ip_to_str ip)" for c
    using ip_to_str_chars [OF that] is_digit_not [of c] by (auto simp: is_space_def)
  then show "pre \<noteq> [] \<Longrightarrow> \<not> is_space (hd pre) \<Longrightarrow> bare (pre @ ip_to_str ip)" by (simp add: bare_def)
qed

lemma ip_to_str_not: "CHR '' '' \<notin> set (ip_to_str ip)" "CHR 0x00 \<notin> set (ip_to_str ip)"
  using ip_to_str_chars [of "CHR '' ''" ip] ip_to_str_chars [of "CHR 0x00" ip] by (auto simp: is_digit_def)

lemma to_string_short: "n < 1000 \<Longrightarrow> length (to_string n) \<le> 3"
  by (subst to_string.simps, subst to_string.simps, subst to_string.simps) auto

lemma ip_to_str_short: "length (ip_to_str ip) < 16"
proof -
  have "length (to_string (unat (octet ip k))) \<le> 3" for k using octet_less [of ip k] by (intro to_string_short) simp
  from this [of 0] this [of 1] this [of 2] this [of 3] show ?thesis unfolding ip_to_str_def octet_masks by simp
qed

lemma parse_reverse_resolve:
  assumes "trim_law E" and "ip_option_law E"
  shows "parse_command E (ce_trim E (''dns reverse resolve --ip='' @ ip_to_str ip)) =
    Some ([''dns'', ''reverse'', ''resolve''], \<lparr>op_domain = [], op_ip = ip_to_str ip\<rparr>)"
proof -
  let ?cm = "''dns reverse resolve --ip='' @ ip_to_str ip"
  have "ce_trim E ?cm = ?cm" by (intro trim_bare assms(1) ip_bare) (simp_all add: is_space_def)
  moreover have "split ?cm '' '' = Some [''dns'', ''reverse'', ''resolve'', ''--ip='' @ ip_to_str ip]"
    using split_on_no_sep [OF ip_to_str_not(1)] by (simp add: split_nonempty)
  moreover have "ce_trim E (''--ip='' @ ip_to_str ip) = ''--ip='' @ ip_to_str ip"
    by (intro trim_bare assms(1) ip_bare) (simp_all add: is_space_def)
  moreover have "ce_trim E w = w" if "w \<in> {''dns'', ''reverse'', ''resolve''}" for w
    using assms(1) that by (intro trim_bare) (auto simp: bare_def is_space_def)
  moreover have "c_str (''--ip='' @ ip_to_str ip) = ''--ip='' @ ip_to_str ip"
    using ip_to_str_not(2) by (intro c_str_id) auto
  moreover have "ce_options E [''--ip='' @ ip_to_str ip] = Some \<lparr>op_domain = [], op_ip = ip_to_str ip\<rparr>"
    using assms(2) unfolding ip_option_law_def by (metis ip_to_str_nonempty)
  ultimately show ?thesis unfolding parse_command_def by (simp add: Let_def)
qed

lemma reverse_resolve_impl:
  assumes "reverse_resolve (en_db S) (en_values S) (en_records S) now ip (ds_records (cs_server cs)) = (record, rm)"
  shows "console_impl E S now [''dns'', ''reverse'', ''resolve''] \<lparr>op_domain = [], op_ip = ip_to_str ip\<rparr> cs =
    Some ((True, join (rr_domains record) '',''), cs\<lparr>cs_server := (cs_server cs)\<lparr>ds_records := rm\<rparr>\<rparr>)"
  using assms by (simp add: console_impl_def join_def Let_def dotted_roundtrip)

lemma console_reply:
  assumes "trim_law E" and "length (command_buffer con) = 1024" and "length (response_buffer con) = 10240"
    and "length datagram < 1024" and "CHR 0x00 \<notin> set datagram"
    and "parse_command E (ce_trim E datagram) = Some (commands, options)"
    and "impl commands options s = Some ((ok, res), s')"
    and "CHR 0x00 \<notin> set res" and "length res < 10229" and "bare res"
  shows "\<exists>reply con'. console_receive E impl datagram con s = Some (reply, con', s')
    \<and> client_command E (Some reply) = Some (ok, res)"
proof -
  let ?reply = "(if ok then ''success'' else ''failed'') @ [CHR 0x0A] @ res @ [CHR 0x0A]"
  have "length ?reply \<le> length (response_buffer con)" using assms(3,9) by simp
  from console_receive_eq [where impl = impl and E = E, OF assms(2,4,5,6,7) this] obtain con' where
    "console_receive E impl datagram con s = Some (?reply, con', s')" by blast
  moreover have "client_command E (Some ?reply) = Some (ok, res)"
    unfolding client_command_reply [OF assms(8,9)] trim_newlines [OF assms(1,10)] by (rule refl)
  ultimately show ?thesis by blast
qed

lemma join_chars: "c \<in> set (join ds d) \<Longrightarrow> c \<in> set d \<or> (\<exists>x\<in>set ds. c \<in> set x)"
proof -
  have "c \<in> set (foldl (\<lambda>result value. (if result \<noteq> [] then result @ d else result) @ value) acc ds)
      \<Longrightarrow> c \<in> set acc \<or> c \<in> set d \<or> (\<exists>x\<in>set ds. c \<in> set x)" for acc
    by (induction ds arbitrary: acc) (fastforce split: if_splits)+
  then show "c \<in> set (join ds d) \<Longrightarrow> c \<in> set d \<or> (\<exists>x\<in>set ds. c \<in> set x)" unfolding join_def by fastforce
qed

section \<open>Properties\<close>

text \<open>
  A reply of the console reaches the client as it was given: for a command that fits the command
  buffer and a result that fits the reply, the client gets the success flag and the text that the
  installed function returned.
\<close>

theorem console_reply_roundtrip:
  assumes "trim_law E" and "length (command_buffer con) = 1024" and "length (response_buffer con) = 10240"
    and "length datagram < 1024" and "CHR 0x00 \<notin> set datagram"
    and "parse_command E (ce_trim E datagram) = Some (commands, options)"
    and "impl commands options s = Some ((ok, res), s')"
    and "CHR 0x00 \<notin> set res" and "length res < 10229" and "bare res"
  shows "\<exists>reply con'. console_receive E impl datagram con s = Some (reply, con', s')
    \<and> client_command E (Some reply) = Some (ok, res)"
  using assms by (rule console_reply)

text \<open>A console environment for the witnesses: blanks are trimmed, only the option \<open>--ip\<close> is known.\<close>

definition plain_trim :: "string \<Rightarrow> string" where
  "plain_trim s = rev (dropWhile is_space (rev (dropWhile is_space s)))"

definition plain_console :: console_env where
  "plain_console = \<lparr>ce_trim = plain_trim,
     ce_options = (\<lambda>os. case os of [] \<Rightarrow> Some \<lparr>op_domain = [], op_ip = []\<rparr>
        | [w] \<Rightarrow> if take 5 w = ''--ip='' then Some \<lparr>op_domain = [], op_ip = drop 5 w\<rparr> else None | _ \<Rightarrow> None),
     ce_dump_opens = True\<rparr>"

lemma dropWhile_blanks: "list_all is_space a \<Longrightarrow> dropWhile is_space (a @ s) = dropWhile is_space s"
  by (induction a) auto

lemma dropWhile_bare: "s = [] \<or> \<not> is_space (hd s) \<Longrightarrow> dropWhile is_space s = s"
  by (cases s) auto

lemma plain_console_laws: "trim_law plain_console" "ip_option_law plain_console"
proof -
  have "plain_trim (a @ s @ b) = s" if "list_all is_space a" "list_all is_space b" "bare s" for a s b
  proof (cases "s = []")
    case True
    with that show ?thesis by (auto simp: plain_trim_def dropWhile_blanks list_all_iff dest: set_dropWhileD)
  next
    case False
    then have "dropWhile is_space (s @ b) = s @ b" using that(3) by (intro dropWhile_bare) (auto simp: bare_def)
    moreover have "list_all is_space (rev b)" using that(2) by (simp add: list_all_iff)
    moreover have "dropWhile is_space (rev s) = rev s" using that(3) False by (intro dropWhile_bare) (simp add: bare_def hd_rev)
    ultimately show ?thesis using that(1) by (simp add: plain_trim_def dropWhile_blanks)
  qed
  then show "trim_law plain_console" by (simp add: trim_law_def plain_console_def)
  show "ip_option_law plain_console" by (simp add: ip_option_law_def plain_console_def)
qed

abbreviation sample_console :: udp_console where
  "sample_console \<equiv> udp_console_new (replicate 1024 (CHR 0x00)) (replicate 10240 (CHR 0x00))"

theorem console_reply_roundtrip_witness:
  "\<exists>reply con'. console_receive plain_console (\<lambda>c opts s. Some ((c = [''x''], ''ok''), s + (1 :: nat))) ''x'' sample_console 4 = Some (reply, con', 5)
    \<and> client_command plain_console (Some reply) = Some (True, ''ok'')"
proof -
  have "parse_command plain_console (ce_trim plain_console ''x'') = Some ([''x''], \<lparr>op_domain = [], op_ip = []\<rparr>)"
    by (simp add: parse_command_def split_nonempty plain_console_def plain_trim_def is_space_def)
  moreover have "bare ''ok''" by (simp add: bare_def is_space_def)
  ultimately show ?thesis
    by (intro console_reply_roundtrip [OF plain_console_laws(1)]) (simp_all add: udp_console_new_def)
qed

text \<open>
  C31. \<open>dns reverse resolve\<close> from end to end: another program that asks the console of this one for the
  names of an address gets exactly the list of names stored for it, through the command line, the
  console, the store of reverse records and the reply.
\<close>

theorem reverse_resolve_command:
  assumes "trim_law E" and "ip_option_law E"
    and "length (command_buffer con) = 1024" and "length (response_buffer con) = 10240"
    and "reverse_resolve (en_db S) (en_values S) (en_records S) now ip (ds_records (cs_server cs)) = (record, rm)"
    and "\<forall>d\<in>set (rr_domains record). d \<noteq> [] \<and> CHR '','' \<notin> set d \<and> CHR 0x00 \<notin> set d \<and> list_all (\<lambda>c. \<not> is_space c) d"
    and "length (join (rr_domains record) '','') < 10229"
  shows "dns_command_reverse_resolve E (\<lambda>cm. map_option fst (console_receive E (console_impl E S now) cm con cs)) ip
    = Some (rr_domains record)"
proof -
  let ?cm = "''dns reverse resolve --ip='' @ ip_to_str ip" and ?res = "join (rr_domains record) '',''"
  have "\<not> is_space c \<and> c \<noteq> CHR 0x00" if "c \<in> set ?res" for c
    using join_chars [OF that] assms(6) by (auto simp: list_all_iff is_space_def)
  then have res: "CHR 0x00 \<notin> set ?res" "bare ?res" by (auto simp: bare_def)
  have "length (ip_to_str ip) < 16" by (rule ip_to_str_short)
  then have cm: "length ?cm < 1024" "CHR 0x00 \<notin> set ?cm" using ip_to_str_not(2) by auto
  from console_reply [where impl = "console_impl E S now" and E = E, OF assms(1,3,4) cm parse_reverse_resolve [OF assms(1,2)] reverse_resolve_impl [OF assms(5)] res(1) assms(7) res(2)]
  obtain reply con' cs' where "console_receive E (console_impl E S now) ?cm con cs = Some (reply, con', cs')"
    "client_command E (Some reply) = Some (True, ?res)" by blast
  moreover have "split ?res '','' = Some (rr_domains record)" using assms(6) by (intro split_join) (auto dest: hd_in_set)
  ultimately show ?thesis by (simp add: dns_command_reverse_resolve_def)
qed

text \<open>A store of reverse records whose text is the only name.\<close>

definition name_codec :: records_codec where
  "name_codec = \<lparr>rc_serialize = (\<lambda>r. []), rc_parse = (\<lambda>s. \<lparr>ps_domain = [], ps_map = []\<rparr>),
     rv_serialize = (\<lambda>r. concat (rr_domains r)), rv_parse = (\<lambda>s. \<lparr>rr_ip = 0, rr_domains = [s]\<rparr>)\<rparr>"

definition sample_console_state :: "(string \<times> string) list console_state" where
  "sample_console_state = \<lparr>cs_server = (sample_dns_server [])\<lparr>ds_records := \<lparr>rm_db = [], rm_reverse = [(''7'', '':a.cn'')]\<rparr>\<rparr>,
     cs_dump = None\<rparr>"

theorem reverse_resolve_command_witness:
  "dns_command_reverse_resolve plain_console
     (\<lambda>cm. map_option fst (console_receive plain_console (console_impl plain_console (sample_env name_codec) 5000) cm sample_console sample_console_state)) 7
   = Some [''a.cn'']"
proof -
  let ?S = "sample_env name_codec"
  let ?rec = "\<lparr>rr_ip = 7, rr_domains = [''a.cn'']\<rparr>"
  have key: "to_string 7 = ''7''" by code_simp
  have rr: "reverse_resolve (en_db ?S) (en_values ?S) (en_records ?S) 5000 7 (ds_records (cs_server sample_console_state))
      = (?rec, ds_records (cs_server sample_console_state))"
    by (simp add: reverse_resolve_def sample_env_def sample_console_state_def name_codec_def disk_kv_get_def list_db_def
        unary_codec_def not_expired_def key)
  have "\<forall>d\<in>set (rr_domains ?rec). d \<noteq> [] \<and> CHR '','' \<notin> set d \<and> CHR 0x00 \<notin> set d \<and> list_all (\<lambda>c. \<not> is_space c) d"
    by (simp add: is_space_def)
  from reverse_resolve_command [where S = ?S, OF plain_console_laws _ _ rr this, of sample_console]
  show ?thesis by (simp add: udp_console_new_def join_def)
qed

text \<open>
  A datagram that fills the command buffer, and a result that does not fit the reply, make the
  console write outside its buffers, whatever the installed function is.
\<close>

theorem console_overflow:
  assumes "length (command_buffer con) = 1024" and "length (response_buffer con) = 10240"
  shows "(length datagram = 1024 \<longrightarrow> console_receive E impl datagram con s = None)
    \<and> (\<forall>commands options ok res s'.
         parse_command E (ce_trim E datagram) = Some (commands, options) \<longrightarrow>
         impl commands options s = Some ((ok, res), s') \<longrightarrow> 10233 \<le> length res \<longrightarrow>
         length datagram < 1024 \<longrightarrow> CHR 0x00 \<notin> set datagram \<longrightarrow> console_receive E impl datagram con s = None)"
proof (intro conjI allI impI)
  assume "length datagram = 1024"
  with assms show "console_receive E impl datagram con s = None" by (simp add: console_receive_def char_write_def)
next
  fix commands options ok res s'
  assume parse: "parse_command E (ce_trim E datagram) = Some (commands, options)"
    and impl: "impl commands options s = Some ((ok, res), s')" and len: "10233 \<le> length res"
    and small: "length datagram < 1024" and nul: "CHR 0x00 \<notin> set datagram"
  let ?cb1 = "datagram @ CHR 0x00 # drop (Suc (length datagram)) (command_buffer con)"
  have w: "char_write (command_buffer con) 0 datagram = Some (datagram @ drop (length datagram) (command_buffer con))"
    "char_write (datagram @ drop (length datagram) (command_buffer con)) (length datagram) [CHR 0x00] = Some ?cb1"
    using assms(1) small by (simp_all add: char_write_in)
  have cmd: "c_str ?cb1 = datagram" using nul by (rule c_str_append)
  have "send_response ((if ok then ''success'' else ''failed'') @ [CHR 0x0A] @ res @ [CHR 0x0A]) (con\<lparr>command_buffer := ?cb1\<rparr>) = None"
    using len assms(2) by (simp add: send_response_def char_write_def)
  then show "console_receive E impl datagram con s = None"
    unfolding console_receive_def w Option.bind.bind_lunit Let_def cmd parse prod.case impl by simp
qed

theorem console_overflow_witness:
  "console_receive plain_console (\<lambda>c opts s. Some ((True, []), s :: nat)) (replicate 1024 (CHR ''a'')) sample_console 0 = None"
  using console_overflow [of sample_console "replicate 1024 (CHR ''a'')" plain_console "\<lambda>c opts s. Some ((True, []), s)" 0]
  by (simp add: udp_console_new_def)

section \<open>The schedule\<close>

text \<open>
  What a round of the schedule sets, without the loops: each server that is not of the area \<open>LAN\<close> gets the
  areas its proxy reports that match its configured areas and for which the proxy opens a port, with
  these ports.
\<close>

definition proxied_areas :: "console_env \<Rightarrow> (string \<Rightarrow> string option) \<Rightarrow> remote_dns_server \<Rightarrow> string list \<Rightarrow> (string \<times> u16) list" where
  "proxied_areas E net server areas = List.map_filter (\<lambda>area.
     if is_match_areas (sv_areas server) area
     then (case register_area_port E net (sv_ip server) (word_of_int (sv_port server)) area of
             Some port \<Rightarrow> if 0 < port then Some (area, port) else None
           | None \<Rightarrow> None)
     else None) areas"

definition reported_areas :: "console_env \<Rightarrow> (string \<Rightarrow> string option) \<Rightarrow> remote_dns_server \<Rightarrow> string list" where
  "reported_areas E net server =
     (if ''LAN'' \<in> set (sv_areas server) then []
      else (case get_ip_available_proxy_areas E net (sv_ip server) of None \<Rightarrow> [] | Some areas \<Rightarrow> areas))"

definition scheduled_server :: "console_env \<Rightarrow> (string \<Rightarrow> string option) \<Rightarrow> remote_dns_server \<Rightarrow> remote_dns_server" where
  "scheduled_server E net server =
     (if ''LAN'' \<in> set (sv_areas server) then server
      else server\<lparr>resolve_optimize_areas := proxied_areas E net server (reported_areas E net server)\<rparr>)"

text \<open>
  What it does to the areas: ranges of further areas are loaded, and files of ranges come and go; the
  learnt areas, the tasks, the timers and the interfaces of the manager stay.
\<close>

definition ranges_loaded :: "area_manager \<Rightarrow> area_manager \<Rightarrow> bool" where
  "ranges_loaded m m' \<longleftrightarrow> m' = m\<lparr>default_caches := default_caches m', files := files m'\<rparr>
     \<and> default_caches m \<subseteq>\<^sub>m default_caches m'"

lemma ranges_loaded_refl [simp]: "ranges_loaded m m"
  by (simp add: ranges_loaded_def)

lemma ranges_loaded_trans: "ranges_loaded a b \<Longrightarrow> ranges_loaded b c \<Longrightarrow> ranges_loaded a c"
  unfolding ranges_loaded_def
  by (metis (no_types, lifting) area_manager.surjective area_manager.update_convs(1,7) map_le_trans)

lemma load_area_ips_ranges: "load_area_ips http area m = (r, m') \<Longrightarrow> ranges_loaded m m'"
  by (auto simp: load_area_ips_def download_area_ips_def has_load_area_ips_def ranges_loaded_def Let_def map_le_def
      split: if_splits prod.splits option.splits)

lemma schedule_areas_result:
  "schedule_areas E net http server areas result m = Some (result', m')
     \<Longrightarrow> result' = result @ proxied_areas E net server areas \<and> ranges_loaded m m'"
proof (induction E net http server areas result m arbitrary: result' m' rule: schedule_areas.induct)
  case (1 E net http server result m)
  then show ?case by (simp add: proxied_areas_def)
next
  case (2 E net http server area areas result m)
  obtain r m1 where load: "load_area_ips http area m = (r, m1)" by fastforce
  from "2.prems" obtain loaded where r: "r = Inr loaded" by (cases r) (auto simp: load bind_eq_Some_conv)
  from "2.prems" obtain result1 where
    r1: "(if is_match_areas (sv_areas server) area then do {
          a_port \<leftarrow> register_area_port E net (sv_ip server) (word_of_int (sv_port server)) area;
          Some (if 0 < a_port then result @ [(area, a_port)] else result) } else Some result) = Some result1"
    and rest: "schedule_areas E net http server areas result1 m1 = Some (result', m')"
    unfolding schedule_areas.simps load r prod.case sum.case by (auto simp only: bind_eq_Some_conv)
  have "result1 = result @ proxied_areas E net server [area]"
    using r1 by (auto simp: proxied_areas_def map_filter_simps bind_eq_Some_conv split: if_splits)
  moreover have "proxied_areas E net server (area # areas) = proxied_areas E net server [area] @ proxied_areas E net server areas"
    by (simp add: proxied_areas_def map_filter_simps split: option.splits)
  ultimately show ?case
    using "2.IH" [OF r1 load [symmetric] r rest] ranges_loaded_trans [OF load_area_ips_ranges [OF load]] by simp
qed

lemma schedule_servers_result:
  "schedule_servers E net http servers m = Some (servers', m')
     \<Longrightarrow> servers' = map (scheduled_server E net) servers \<and> ranges_loaded m m'"
proof (induction E net http servers m arbitrary: servers' m' rule: schedule_servers.induct)
  case (1 E net http m)
  then show ?case by simp
next
  case (2 E net http server servers m)
  let ?one = "if ''LAN'' \<notin> set (sv_areas server) then do {
          areas \<leftarrow> get_ip_available_proxy_areas E net (sv_ip server);
          (result, m1) \<leftarrow> schedule_areas E net http server areas [] m;
          Some (server\<lparr>resolve_optimize_areas := result\<rparr>, m1) }
        else Some (server, m)"
  from "2.prems" obtain server1 m1 servers1 m2 where one: "?one = Some (server1, m1)"
    and rest: "schedule_servers E net http servers m1 = Some (servers1, m2)" and res: "servers' = server1 # servers1" "m' = m2"
    unfolding schedule_servers.simps by (auto simp only: bind_eq_Some_conv prod.case option.inject prod.inject split_paired_Ex)
  have "server1 = scheduled_server E net server \<and> ranges_loaded m m1"
    using one by (auto simp: scheduled_server_def reported_areas_def bind_eq_Some_conv dest!: schedule_areas_result split: if_splits)
  with "2.IH" [OF one refl rest] show ?case by (auto simp: res intro: ranges_loaded_trans)
qed

lemma client_command_none: "client_command E None = Some (False, ''network error!'')"
proof -
  have "c_str (replicate 10240 (CHR 0x00)) = []" by (simp add: c_str_def)
  then show ?thesis by (simp add: client_command_def split_def split_from_def Let_def)
qed

lemma schedule_servers_silent: "\<exists>servers'. schedule_servers E (\<lambda>cm. None) http servers m = Some (servers', m)"
proof (induction servers)
  case Nil
  then show ?case by simp
next
  case (Cons s servers)
  then show ?case by (auto simp: get_ip_available_proxy_areas_def client_command_none)
qed

text \<open>
  C33. A round of the schedule is exactly this: every upstream server that is not of the area \<open>LAN\<close> gets the
  areas that its proxy reports and opens a port for, all of which match its configured areas and carry a
  port; nothing else of the configuration and of the server changes, and the area manager at most loads
  ranges of areas it had not loaded. With a proxy that does not answer, a round ends and leaves no such areas.
\<close>

theorem schedule_areas_match:
  "(schedule E net http srv = Some srv' \<longrightarrow>
      srv' = srv\<lparr>ds_config := (ds_config srv)\<lparr>cf_servers := map (scheduled_server E net) (cf_servers (ds_config srv))\<rparr>,
                 ds_areas := ds_areas srv'\<rparr>
      \<and> ranges_loaded (ds_areas srv) (ds_areas srv')
      \<and> (\<forall>s. ''LAN'' \<notin> set (sv_areas s) \<longrightarrow> (\<forall>(a, p) \<in> set (resolve_optimize_areas (scheduled_server E net s)).
           a \<in> set (reported_areas E net s) \<and> is_match_areas (sv_areas s) a \<and> p \<noteq> 0)))
   \<and> (\<exists>srv1. schedule E (\<lambda>cm. None) http srv = Some srv1 \<and> ds_areas srv1 = ds_areas srv
        \<and> (\<forall>s \<in> set (cf_servers (ds_config srv1)). ''LAN'' \<notin> set (sv_areas s) \<longrightarrow> resolve_optimize_areas s = []))"
proof (intro conjI impI)
  assume "schedule E net http srv = Some srv'"
  then obtain servers m where s: "schedule_servers E net http (cf_servers (ds_config srv)) (ds_areas srv) = Some (servers, m)"
    "srv' = srv\<lparr>ds_config := (ds_config srv)\<lparr>cf_servers := servers\<rparr>, ds_areas := m\<rparr>"
    by (auto simp: schedule_def bind_eq_Some_conv)
  from schedule_servers_result [OF s(1)] s(2)
  show "srv' = srv\<lparr>ds_config := (ds_config srv)\<lparr>cf_servers := map (scheduled_server E net) (cf_servers (ds_config srv))\<rparr>,
          ds_areas := ds_areas srv'\<rparr>" and "ranges_loaded (ds_areas srv) (ds_areas srv')" by simp_all
  show "\<forall>s. ''LAN'' \<notin> set (sv_areas s) \<longrightarrow> (\<forall>(a, p) \<in> set (resolve_optimize_areas (scheduled_server E net s)).
      a \<in> set (reported_areas E net s) \<and> is_match_areas (sv_areas s) a \<and> p \<noteq> 0)"
    by (auto simp: scheduled_server_def proxied_areas_def map_filter_def split: option.splits if_splits)
next
  obtain servers where s: "schedule_servers E (\<lambda>cm. None) http (cf_servers (ds_config srv)) (ds_areas srv) = Some (servers, ds_areas srv)"
    using schedule_servers_silent by blast
  have "reported_areas E (\<lambda>cm. None) s = []" for s
    by (simp add: reported_areas_def get_ip_available_proxy_areas_def client_command_none)
  then have "''LAN'' \<notin> set (sv_areas (scheduled_server E (\<lambda>cm. None) s)) \<Longrightarrow>
      resolve_optimize_areas (scheduled_server E (\<lambda>cm. None) s) = []" for s
    by (cases "''LAN'' \<in> set (sv_areas s)") (simp_all add: scheduled_server_def proxied_areas_def map_filter_simps)
  with s schedule_servers_result [OF s]
  show "\<exists>srv1. schedule E (\<lambda>cm. None) http srv = Some srv1 \<and> ds_areas srv1 = ds_areas srv
        \<and> (\<forall>s \<in> set (cf_servers (ds_config srv1)). ''LAN'' \<notin> set (sv_areas s) \<longrightarrow> resolve_optimize_areas s = [])"
    by (auto simp: schedule_def)
qed

text \<open>A proxy that serves two areas, of which the server is configured for one, next to a server of the LAN.\<close>

definition sample_proxy :: "string \<Rightarrow> string option" where
  "sample_proxy cm = Some (''success'' @ [CHR 0x0A] @
     (if take 8 cm = ''proxy ip'' then ''JP,US'' else ''5353'') @ [CHR 0x0A])"

definition sample_schedule_server :: "(string \<times> string) list dns_server" where
  "sample_schedule_server = (sample_dns_server [])\<lparr>ds_config := config_default\<lparr>cf_cache_expire := 77,
     cf_servers := [sample_server\<lparr>sv_areas := [''jp'']\<rparr>, sample_server\<lparr>sv_ip := ''2.2.2.2'', sv_areas := [''LAN'']\<rparr>]\<rparr>\<rparr>"

lemma sample_proxy_reply:
  "client_command plain_console (sample_proxy cm) = Some (True, if take 8 cm = ''proxy ip'' then ''JP,US'' else ''5353'')"
proof -
  have trim: "ce_trim plain_console ([CHR 0x0A] @ s @ [CHR 0x0A]) = s" if "bare s" for s
    using trim_newlines [OF plain_console_laws(1) that] .
  have "client_command plain_console (sample_proxy cm) =
      Some (True, ce_trim plain_console ([CHR 0x0A] @ (if take 8 cm = ''proxy ip'' then ''JP,US'' else ''5353'') @ [CHR 0x0A]))"
    using client_command_reply [of "if take 8 cm = ''proxy ip'' then ''JP,US'' else ''5353''" plain_console True]
    by (simp add: sample_proxy_def)
  then show ?thesis by (subst (asm) trim) (auto simp: bare_def is_space_def)
qed

lemma sample_proxy_answers:
  "get_ip_available_proxy_areas plain_console sample_proxy ip = Some [''JP'', ''US'']"
  "register_area_port plain_console sample_proxy ip port area = Some 5353"
proof -
  have "split ''JP,US'' '','' = Some [''JP'', ''US'']" by (simp add: split_nonempty)
  moreover have "stoi ''5353'' = Inr 5353" by code_simp
  ultimately show "get_ip_available_proxy_areas plain_console sample_proxy ip = Some [''JP'', ''US'']"
    "register_area_port plain_console sample_proxy ip port area = Some 5353"
    by (simp_all add: get_ip_available_proxy_areas_def register_area_port_def sample_proxy_reply)
qed

theorem schedule_areas_match_witness:
  "\<exists>srv'. schedule plain_console sample_proxy (\<lambda>h p. (404, [])) sample_schedule_server = Some srv'
     \<and> map resolve_optimize_areas (cf_servers (ds_config srv')) = [[(''JP'', 5353)], []]
     \<and> map sv_ip (cf_servers (ds_config srv')) = [''1.1.1.1'', ''2.2.2.2'']
     \<and> cf_cache_expire (ds_config srv') = 77 \<and> ds_tasks srv' = ds_tasks sample_schedule_server
     \<and> net_caches (ds_areas srv') = net_caches (ds_areas sample_schedule_server)"
proof -
  have match: "is_match_areas [''jp''] ''JP''" "\<not> is_match_areas [''jp''] ''US''" by code_simp+
  have "load_area_ips (\<lambda>h p. (404, [])) area sample_manager = (Inr False, sample_manager)" for area
    by (simp add: load_area_ips_def download_area_ips_def has_load_area_ips_def sample_manager_def Let_def)
  then obtain srv' where run: "schedule plain_console sample_proxy (\<lambda>h p. (404, [])) sample_schedule_server = Some srv'"
    and areas: "map resolve_optimize_areas (cf_servers (ds_config srv')) = [[(''JP'', 5353)], []]"
    by (simp add: schedule_def sample_schedule_server_def sample_dns_server_def dns_server_new_def sample_server_def
        remote_dns_server_new_def sample_proxy_answers match)
  have frame: "srv' = sample_schedule_server\<lparr>ds_config := (ds_config sample_schedule_server)\<lparr>cf_servers :=
      map (scheduled_server plain_console sample_proxy) (cf_servers (ds_config sample_schedule_server))\<rparr>, ds_areas := ds_areas srv'\<rparr>"
    and loaded: "ranges_loaded (ds_areas sample_schedule_server) (ds_areas srv')"
    using schedule_areas_match [of plain_console sample_proxy "\<lambda>h p. (404, [])" sample_schedule_server srv'] run by blast+
  have "ds_tasks srv' = ds_tasks sample_schedule_server" "cf_cache_expire (ds_config srv') = 77"
    "map sv_ip (cf_servers (ds_config srv')) = [''1.1.1.1'', ''2.2.2.2'']"
    by (subst frame, simp add: sample_schedule_server_def scheduled_server_def sample_server_def remote_dns_server_new_def)+
  moreover have "net_caches (ds_areas srv') = net_caches (ds_areas sample_schedule_server)"
    using arg_cong [OF conjunct1 [OF loaded [unfolded ranges_loaded_def]], of net_caches] by simp
  ultimately show ?thesis using run areas by (intro exI [of _ srv'] conjI)
qed

end
