(* ===== verification/Program.thy ===== *)
theory Program
  imports Console Logger
begin

text \<open>
  The whole program: the server of \<open>core/dns_server.cpp\<close> with its console, its schedule and the manager of
  areas, which run on threads of their own and share the cache, the configuration and the areas. A step
  is one handler of any of them. The views of a state are the area manager and the task queue; every
  step of the program is a sequence of their steps.
\<close>

section \<open>Clients of the area manager\<close>

text \<open>What the cache, the responses and the schedule do to the area manager is a sequence of its steps.\<close>

abbreviation area_steps :: "area_manager \<Rightarrow> area_manager \<Rightarrow> bool" where
  "area_steps \<equiv> area_step\<^sup>*\<^sup>*"

named_theorems area_dest

lemma get_area_steps [area_dest]: "get_area ord ip async m = (a, m') \<Longrightarrow> area_steps m m'"
  by (rule r_into_rtranclp, rule area_step.call_get_area, erule sym)

lemma is_area_ip_steps [area_dest]: "is_area_ip now ord areas ip m = (b, m') \<Longrightarrow> area_steps m m'"
  by (rule r_into_rtranclp, rule area_step.call_is_area_ip, erule sym)

lemma load_area_ips_steps [area_dest]: "load_area_ips http code m = (r, m') \<Longrightarrow> area_steps m m'"
  by (rule r_into_rtranclp, rule area_step.call_load_area, erule sym)

lemma ip_areas_steps [area_dest]: "ip_areas ord ips m = (as, m') \<Longrightarrow> area_steps m m'"
proof (induction ips arbitrary: m as m')
  case (Cons ip ips)
  obtain a m1 where a: "get_area ord ip True m = (a, m1)" by fastforce
  obtain bs m2 where b: "ip_areas ord ips m1 = (bs, m2)" by fastforce
  from Cons.prems a b have "m2 = m'" by simp
  with get_area_steps [OF a] Cons.IH [OF b] show ?case by simp
qed simp

lemma collect_ips_steps [area_dest]: "collect_ips now ord s n rec ips m = (items, m') \<Longrightarrow> area_steps m m'"
proof (induction ips arbitrary: m items m')
  case (Cons ip ips)
  obtain b m1 where b: "is_area_ip now ord (sv_areas s) ip m = (b, m1)" by fastforce
  obtain xs m2 where xs: "collect_ips now ord s n rec ips m1 = (xs, m2)" by fastforce
  from Cons.prems b xs have "m2 = m'" by (simp add: Let_def)
  with is_area_ip_steps [OF b] Cons.IH [OF xs] show ?case by simp
qed simp

lemma collect_servers_steps [area_dest]: "collect_servers now ord mp n servers m = (items, m') \<Longrightarrow> area_steps m m'"
proof (induction servers arbitrary: n m items m')
  case (Cons s servers)
  obtain xs m1 where xs: "(case mp (server_id s) of None \<Rightarrow> ([], m)
      | Some rec \<Rightarrow> collect_ips now ord s (n + 1) rec (pr_ips rec) m) = (xs, m1)" by fastforce
  obtain ys m2 where ys: "collect_servers now ord mp (n + 1) servers m1 = (ys, m2)" by fastforce
  from Cons.prems xs ys have "m2 = m'" by (simp add: Let_def)
  moreover have "area_steps m m1" using xs by (auto split: option.splits dest: area_dest)
  ultimately show ?case using Cons.IH [OF ys] by simp
qed simp

lemma manager_transform_steps [area_dest]:
  "manager_transform rx srt shuf now ord servers records m = Some (r, m') \<Longrightarrow> area_steps m m'"
  by (cases "collect_servers now ord (map_of (ps_map records)) 0 (the (select_servers rx (ps_domain records) servers)) m")
    (auto simp: manager_transform_def Let_def bind_eq_Some_conv dest: collect_servers_steps)

lemma match_any_steps [area_dest]: "match_any now ord areas ips m = (b, m') \<Longrightarrow> area_steps m m'"
proof (induction ips arbitrary: m)
  case (Cons ip ips)
  obtain c m1 where c: "is_area_ip now ord areas ip m = (c, m1)" by fastforce
  with Cons.prems Cons.IH is_area_ip_steps [OF c] show ?case by (cases c) (auto dest: rtranclp_trans)
qed simp

lemma list_records_steps [area_dest]: "list_records now ord records servers m = (rs, m') \<Longrightarrow> area_steps m m'"
proof (induction servers arbitrary: m rs m')
  case (Cons s servers)
  show ?case
  proof (cases "map_of (ps_map records) (server_id s)")
    case None
    with Cons show ?thesis by simp
  next
    case (Some item)
    obtain b m1 where b: "match_any now ord (sv_areas s) (pr_ips item) m = (b, m1)" by fastforce
    obtain xs m2 where xs: "list_records now ord records servers m1 = (xs, m2)" by fastforce
    from Cons.prems Some b xs have "m2 = m'" by (simp add: Let_def)
    with match_any_steps [OF b] Cons.IH [OF xs] show ?thesis by simp
  qed
qed simp

lemma dns_record_transform_steps [area_dest]:
  "dns_record_transform now ord servers records m = (rs, m') \<Longrightarrow> area_steps m m'"
  by (auto simp: dns_record_transform_def split: if_splits dest: area_dest)

lemma dump_records_steps [area_dest]: "dump_records R now ord servers kvs m = (out, m') \<Longrightarrow> area_steps m m'"
proof (induction kvs arbitrary: m out m')
  case (Cons kv kvs)
  obtain k v where kv: "kv = (k, v)" by fastforce
  obtain rs m1 where rs: "dns_record_transform now ord servers (rc_parse R v) m = (rs, m1)" by fastforce
  obtain t2 m2 where t2: "dump_records R now ord servers kvs m1 = (t2, m2)" by fastforce
  from Cons.prems kv rs t2 have "m2 = m'" by (simp add: Let_def)
  with dns_record_transform_steps [OF rs] Cons.IH [OF t2] show ?case by simp
qed simp

lemma record_stats_steps [area_dest]:
  "record_stats R rx srt shuf now ord servers kvs st m = Some (st', m') \<Longrightarrow> area_steps m m'"
proof (induction kvs arbitrary: st m)
  case (Cons kv kvs)
  obtain k v where kv: "kv = (k, v)" by fastforce
  show ?case
  proof (cases "ps_domain (rc_parse R v) = []")
    case True
    with Cons kv show ?thesis by (simp add: Let_def)
  next
    case False
    with Cons.prems kv obtain r m1 st1 where "manager_transform rx srt shuf now ord servers (rc_parse R v) m = Some (r, m1)"
      "record_stats R rx srt shuf now ord servers kvs st1 m1 = Some (st', m')"
      by (auto simp: Let_def bind_eq_Some_conv)
    with manager_transform_steps Cons.IH show ?thesis by (blast intro: rtranclp_trans)
  qed
qed simp

lemma add_ips_steps [area_dest]: "add_ips L C R now dn ips rm m = (rm', m') \<Longrightarrow> area_steps m m'"
proof (induction ips arbitrary: rm m)
  case (Cons ip ips)
  then have "area_steps (async_load_ip_info_from_net ip m) m'" by simp
  then show ?case by (rule converse_rtranclp_into_rtranclp [rotated]) (rule area_step.call_load_ip)
qed simp

lemma record_manager_add_steps [area_dest]:
  "record_manager_add L C R now dn ips server expire rm m = (rm', m') \<Longrightarrow> area_steps m m'"
  by (auto simp: record_manager_add_def Let_def split: prod.splits dest: area_dest)

lemma schedule_areas_steps [area_dest]:
  "schedule_areas E net http server areas result m = Some (result', m') \<Longrightarrow> area_steps m m'"
proof (induction areas arbitrary: result m)
  case (Cons area areas)
  obtain r m1 where r: "load_area_ips http area m = (r, m1)" by fastforce
  with Cons.prems obtain result1 where "schedule_areas E net http server areas result1 m1 = Some (result', m')"
    by (cases r) (auto simp: bind_eq_Some_conv split: if_splits)
  with load_area_ips_steps [OF r] Cons.IH show ?case by (blast intro: rtranclp_trans)
qed simp

lemma schedule_servers_steps [area_dest]:
  "schedule_servers E net http servers m = Some (servers', m') \<Longrightarrow> area_steps m m'"
proof (induction servers arbitrary: m servers' m')
  case (Cons s servers)
  from Cons.prems obtain s1 m1 servers1 where one: "(if ''LAN'' \<notin> set (sv_areas s) then do {
          areas \<leftarrow> get_ip_available_proxy_areas E net (sv_ip s);
          (result, m1) \<leftarrow> schedule_areas E net http s areas [] m;
          Some (s\<lparr>resolve_optimize_areas := result\<rparr>, m1) }
        else Some (s, m)) = Some (s1, m1)" and rest: "schedule_servers E net http servers m1 = Some (servers1, m')"
    by (auto simp only: schedule_servers.simps bind_eq_Some_conv prod.case option.inject prod.inject split_paired_Ex)
  have "area_steps m m1" using one by (auto simp: bind_eq_Some_conv split: if_splits dest: area_dest)
  with Cons.IH [OF rest] show ?case by simp
qed simp

section \<open>The server as a client of the area manager\<close>

lemma server_resolve_areas: "server_resolve E now dn srv = Some (r, srv') \<Longrightarrow> area_steps (ds_areas srv) (ds_areas srv')"
  by (auto simp: server_resolve_def record_manager_resolve_def Let_def bind_eq_Some_conv split: prod.splits dest: area_dest)

lemma query_record_areas:
  assumes "query_record_from_cache E now dn srv = Some (r, srv')"
  shows "area_steps (ds_areas srv) (ds_areas srv')"
proof -
  from assms obtain r1 srv1 where one: "server_resolve E now dn srv = Some (r1, srv1)"
    and "srv' = srv1 \<or> (\<exists>r2. server_resolve E now (removeFIDomain dn) srv1 = Some (r2, srv'))"
    by (auto simp: query_record_from_cache_def Let_def bind_eq_Some_conv split: if_splits)
  then show ?thesis using server_resolve_areas by (blast intro: rtranclp_trans)
qed

lemma submit_servers_areas [simp]: "ds_areas (submit_servers dn p servers srv) = ds_areas srv"
  by (induction dn p servers srv rule: submit_servers.induct) (auto simp: Let_def split: prod.splits)

lemma sync_areas:
  "sync_dns_record_from_remote E dn srv = Some srv' \<Longrightarrow> ds_areas srv' = ds_areas srv"
  "sync_loss_dns_record_from_remote E dn r srv = Some srv' \<Longrightarrow> ds_areas srv' = ds_areas srv"
  by (auto simp: sync_dns_record_from_remote_def sync_loss_dns_record_from_remote_def bind_eq_Some_conv)

lemma complete_areas:
  "session_complete se srv = Some (se', stage, srv') \<Longrightarrow> ds_areas srv' = ds_areas srv"
  "query_complete se srv = Some (se', stage, srv') \<Longrightarrow> ds_areas srv' = ds_areas srv"
  by (auto simp: session_complete_def query_complete_def bind_eq_Some_conv)

lemma query_dns_record_areas:
  assumes "query_dns_record E now se srv = Some (se', stage, srv')"
  shows "area_steps (ds_areas srv) (ds_areas srv')"
proof (cases "session_get_host se = ''localhost''")
  case True
  with assms have "ds_areas srv' = ds_areas srv" by (auto simp: query_dns_record_def Let_def dest: complete_areas)
  then show ?thesis by simp
next
  case False
  with assms obtain r srv1 where q: "query_record_from_cache E now (session_get_host se) srv = Some (r, srv1)"
    by (auto simp: query_dns_record_def Let_def bind_eq_Some_conv)
  with False assms have "ds_areas srv' = ds_areas srv1"
    by (auto simp: query_dns_record_def Let_def bind_eq_Some_conv dest!: complete_areas sync_areas split: if_splits)
  with query_record_areas [OF q] show ?thesis by simp
qed

lemma process_session_areas:
  "process_session E now se srv = Some (se', stage, srv') \<Longrightarrow> area_steps (ds_areas srv) (ds_areas srv')"
  by (auto simp: process_session_def forward_dns_request_def Let_def bind_eq_Some_conv split: if_splits option.splits
      dest!: query_dns_record_areas complete_areas)

lemma end_session_areas:
  assumes "end_session E se srv = Some (ok, srv')"
  shows "area_steps (ds_areas srv) (ds_areas srv')"
proof (cases "se_response se")
  case None
  with assms show ?thesis by (auto simp: end_session_def Let_def bind_eq_Some_conv)
next
  case (Some resp)
  obtain a m1 where a: "get_area (en_areas E) (udp_response_fist_ip resp) True (ds_areas srv) = (a, m1)" by fastforce
  obtain as m2 where as: "ip_areas (en_areas E) (rs_ips resp) m1 = (as, m2)" by fastforce
  from assms Some a as have "ds_areas srv' = m2"
    by (auto simp: end_session_def fist_ip_area_def Let_def bind_eq_Some_conv)
  with get_area_steps [OF a] ip_areas_steps [OF as] show ?thesis by simp
qed

lemma answer_areas:
  assumes "multi_area_complete_handler E now task ips load_all srv = Some srv'"
  shows "area_steps (ds_areas srv) (ds_areas srv')"
proof -
  obtain host server where t: "t_in task = (host, server)" by fastforce
  define srv1 where "srv1 = (if ips \<noteq> [] then
          (let (rm, m) = record_manager_add (en_db E) (en_values E) (en_records E) now host ips (server_id server)
                 (if load_all then sv_cache_expire server else sv_cache_expire server sdiv 2) (ds_records srv) (ds_areas srv)
           in srv\<lparr>ds_records := rm, ds_areas := m\<rparr>) else srv)"
  have "area_steps (ds_areas srv) (ds_areas srv1)"
    by (auto simp: srv1_def split: prod.splits dest: record_manager_add_steps)
  moreover from assms obtain r srv2 where "server_resolve E now host srv1 = Some (r, srv2)" "ds_areas srv' = ds_areas srv2"
    by (auto simp: multi_area_complete_handler_def t srv1_def [symmetric] bind_eq_Some_conv)
  ultimately show ?thesis using server_resolve_areas by (metis rtranclp_trans)
qed

lemma server_step_areas: "server_step E srv srv' \<Longrightarrow> area_steps (ds_areas srv) (ds_areas srv')"
proof (induction rule: server_step.induct)
  case (datagram bytes errorCode now srv srv')
  have after: "ds_areas (after_receive srv) = ds_areas srv" by (simp add: after_receive_def receive_def)
  from datagram(2) show ?case
  proof (cases rule: receive_handler_cases)
    case (ended se ok)
    with end_session_areas [OF ended(1)] after show ?thesis by simp
  next
    case (processed se se' stage srv3)
    with process_session_areas [OF processed(1)] after show ?thesis by simp
  qed
next
  case (timer srv ses1 se ses2 now se' stage srv')
  then show ?case by (auto simp: cache_timer_def bind_eq_Some_conv dest!: complete_areas query_record_areas)
next
  case (forwarded srv ses1 se ses2 answer se' stage srv')
  then show ?case by (auto simp: forward_callback_def bind_eq_Some_conv dest!: complete_areas)
next
  case (responded srv ses1 se ses2 ok srv')
  with end_session_areas [OF responded(2)] show ?case by simp
next
  case (answer task srv now ips all srv')
  then show ?case by (blast dest: answer_areas)
qed simp_all

section \<open>Steps of the program\<close>

text \<open>
  The state: the buffers of the console, and the server with the file that the last \<open>dump\<close> wrote. \<open>net\<close> is
  what the proxy answers to the commands of the schedule.
\<close>

record 'd program =
  pg_console :: udp_console
  pg_state :: "'d console_state"

definition program_new :: "string \<Rightarrow> string \<Rightarrow> 'd dns_server \<Rightarrow> 'd program" where
  "program_new cb rb srv = \<lparr>pg_console = udp_console_new cb rb, pg_state = \<lparr>cs_server = srv, cs_dump = None\<rparr>\<rparr>"

abbreviation pg_server :: "'d program \<Rightarrow> 'd dns_server" where
  "pg_server p \<equiv> cs_server (pg_state p)"

text \<open>
  What the thread of the record manager does every five minutes: it computes the statistics, which asks the
  area manager, logs them and hands them to the measurements. The result holds the time of the next round.
\<close>

definition manager_stats :: "'d server_env \<Rightarrow> nat \<Rightarrow> 'd dns_server \<Rightarrow> (dns_record_stats \<times> 'd dns_server) option" where
  "manager_stats S now srv = do {
     (st, m) \<leftarrow> record_stats (en_records S) (en_regex S) (en_sort S) (en_shuffle S) now (en_areas S) (cf_servers (ds_config srv))
        (disk_kv_list (en_db S) (en_values S) now (rm_db (ds_records srv))) dns_record_stats_new (ds_areas srv);
     Some (st, srv\<lparr>ds_areas := m\<rparr>) }"

definition schedule_stats ::
  "'d server_env \<Rightarrow> log_globals \<Rightarrow> string \<Rightarrow> string \<Rightarrow> nat \<Rightarrow> nat \<Rightarrow> logger \<Rightarrow> 'pt apm_state \<Rightarrow> 'd dns_server
     \<Rightarrow> (nat \<times> log_output list \<times> logger \<times> 'pt apm_state \<times> 'd dns_server) option" where
  "schedule_stats S g now_str thread traceId now l apm srv = do {
     (st, srv1) \<leftarrow> manager_stats S now srv;
     let (out, l1) = do_log g now_str thread traceId
        (log_string g ([CHR 0x0A] @ dns_record_stats_serialize st) (log_cstr g ''dns record stats:'' l));
     let apm1 = perf_counts ''st-dns-stats'' []
        [(''trusted_domain_count'', uint (trusted_domain st)), (''total_domain_count'', uint (total_domain st))] apm;
     Some (now + 5 * 60 * 1000, out, l1, apm1, srv1) }"

inductive program_step :: "console_env \<Rightarrow> 'd server_env \<Rightarrow> 'd program \<Rightarrow> 'd program \<Rightarrow> bool" for E S where
  serve: "server_step S (pg_server p) srv' \<Longrightarrow> program_step E S p (p\<lparr>pg_state := (pg_state p)\<lparr>cs_server := srv'\<rparr>\<rparr>)"
| command: "console_receive E (console_impl E S now) datagram (pg_console p) (pg_state p) = Some (reply, con, cs) \<Longrightarrow>
    program_step E S p (p\<lparr>pg_console := con, pg_state := cs\<rparr>)"
| schedule_round: "schedule E net http (pg_server p) = Some srv' \<Longrightarrow>
    program_step E S p (p\<lparr>pg_state := (pg_state p)\<lparr>cs_server := srv'\<rparr>\<rparr>)"
| stats_round: "manager_stats S now (pg_server p) = Some (st, srv') \<Longrightarrow>
    program_step E S p (p\<lparr>pg_state := (pg_state p)\<lparr>cs_server := srv'\<rparr>\<rparr>)"
| manage_areas: "area_step (ds_areas (pg_server p)) m \<Longrightarrow>
    program_step E S p (p\<lparr>pg_state := (pg_state p)\<lparr>cs_server := (pg_server p)\<lparr>ds_areas := m\<rparr>\<rparr>\<rparr>)"

text \<open>The handler of the statistics is such a step of the program; a level above \<open>INFO\<close> keeps it silent.\<close>

lemma schedule_stats_step:
  assumes "schedule_stats S g now_str thread traceId now l apm (pg_server p) = Some (due, out, l', apm', srv')"
  shows "program_step E S p (p\<lparr>pg_state := (pg_state p)\<lparr>cs_server := srv'\<rparr>\<rparr>)"
    and "due = now + 300000" and "lg_level l < LEVEL g \<Longrightarrow> out = []"
proof -
  from assms obtain st where "manager_stats S now (pg_server p) = Some (st, srv')"
    by (auto simp: schedule_stats_def bind_eq_Some_conv Let_def case_prod_beta)
  then show "program_step E S p (p\<lparr>pg_state := (pg_state p)\<lparr>cs_server := srv'\<rparr>\<rparr>)" by (rule program_step.stats_round)
qed (use assms in \<open>auto simp: schedule_stats_def bind_eq_Some_conv Let_def case_prod_beta do_log_def log_string_def
       log_cstr_def append_str_def split: if_splits\<close>)

text \<open>A command leaves the sessions and the tasks alone.\<close>

lemma server_resolve_frame:
  "server_resolve E now dn srv = Some (r, srv') \<Longrightarrow>
     same_sessions srv srv' \<and> ds_tasks srv' = ds_tasks srv \<and> area_steps (ds_areas srv) (ds_areas srv')"
  using server_resolve_same server_resolve_areas by blast

lemma console_impl_frame:
  assumes "console_impl E S now commands options cs = Some (res, cs')"
  shows "same_sessions (cs_server cs) (cs_server cs') \<and> ds_tasks (cs_server cs') = ds_tasks (cs_server cs)
    \<and> area_steps (ds_areas (cs_server cs)) (ds_areas (cs_server cs'))"
  using assms
  by (auto simp: console_impl_def same_sessions_def get_dns_record_list_def Let_def bind_eq_Some_conv
      split: if_splits sum.splits prod.splits dest: area_dest dest!: server_resolve_frame)

lemma schedule_frame:
  assumes "schedule E net http srv = Some srv'"
  shows "ds_rid srv' = ds_rid srv \<and> ds_receiving srv' = ds_receiving srv \<and> ds_sessions srv' = ds_sessions srv
    \<and> ds_sent srv' = ds_sent srv \<and> ds_tasks srv' = ds_tasks srv \<and> area_steps (ds_areas srv) (ds_areas srv')"
  using assms by (auto simp: schedule_def bind_eq_Some_conv dest: schedule_servers_steps)

lemma manager_stats_frame:
  assumes "manager_stats S now srv = Some (st, srv')"
  shows "same_sessions srv srv' \<and> ds_tasks srv' = ds_tasks srv \<and> area_steps (ds_areas srv) (ds_areas srv')"
  using assms
  by (auto simp: manager_stats_def same_sessions_def Let_def bind_eq_Some_conv split: prod.splits dest: area_dest)

lemma console_receive_frame:
  assumes "console_receive E (console_impl E S now) datagram con cs = Some (reply, con', cs')"
  shows "same_sessions (cs_server cs) (cs_server cs') \<and> ds_tasks (cs_server cs') = ds_tasks (cs_server cs)
    \<and> area_steps (ds_areas (cs_server cs)) (ds_areas (cs_server cs'))"
  using assms by (auto simp: console_receive_def bind_eq_Some_conv dest: console_impl_frame)

interpretation program_sessions: state_machine "program_step E S" "\<lambda>p. session_inv (pg_server p)" for E S
proof
  fix p p' assume "program_step E S p p'" and inv: "session_inv (pg_server p)"
  then show "session_inv (pg_server p')"
  proof (cases rule: program_step.cases)
    case (serve srv')
    with inv show ?thesis by (simp add: session_inv_step)
  next
    case (command now datagram reply con cs)
    with inv console_receive_frame [OF command(2)] show ?thesis by (auto intro: session_inv_same)
  next
    case (schedule_round net http srv')
    with inv schedule_frame [OF schedule_round(2)] show ?thesis by (simp add: session_inv_def)
  next
    case (stats_round now st srv')
    with inv manager_stats_frame [OF stats_round(2)] show ?thesis by (auto intro: session_inv_same)
  next
    case (manage_areas m)
    with inv show ?thesis by (simp add: session_inv_def)
  qed
qed

interpretation program_queue: refined_machine "program_step E S" queue_step "\<lambda>p. ds_tasks (pg_server p)" queue_inv for E S
proof
  fix p p' assume "program_step E S p p'"
  then show "queue_step\<^sup>*\<^sup>* (ds_tasks (pg_server p)) (ds_tasks (pg_server p'))"
  proof (cases rule: program_step.cases)
    case (serve srv')
    then show ?thesis by (simp add: server_step_queue)
  next
    case (command now datagram reply con cs)
    with console_receive_frame [OF command(2)] show ?thesis by simp
  next
    case (schedule_round net http srv')
    with schedule_frame [OF schedule_round(2)] show ?thesis by simp
  next
    case (stats_round now st srv')
    with manager_stats_frame [OF stats_round(2)] show ?thesis by simp
  qed simp
qed

interpretation program_areas: refined_machine "program_step E S" area_step "\<lambda>p. ds_areas (pg_server p)" loads_inv for E S
proof
  fix p p' assume "program_step E S p p'"
  then show "area_steps (ds_areas (pg_server p)) (ds_areas (pg_server p'))"
  proof (cases rule: program_step.cases)
    case (serve srv')
    then show ?thesis by (simp add: server_step_areas)
  next
    case (command now datagram reply con cs)
    with console_receive_frame [OF command(2)] show ?thesis by simp
  next
    case (schedule_round net http srv')
    with schedule_frame [OF schedule_round(2)] show ?thesis by simp
  next
    case (stats_round now st srv')
    with manager_stats_frame [OF stats_round(2)] show ?thesis by simp
  next
    case (manage_areas m)
    then show ?thesis by simp
  qed
qed

end
