(* ===== verification/Entry.thy ===== *)
theory Entry
  imports Ipv4 File_Utils
begin

text \<open>
  The entry point \<open>src/server/main.cpp\<close> and the small system helpers of \<open>src/common/main/utils/\<close>:
  \<open>shell.h\<close>, \<open>dns.h\<close>, \<open>http.h\<close> and \<open>moment.h\<close>. Running a command, the resolver of asio, the HTTP
  client, the local time and \<open>boost::trim\<close> are parameters.
\<close>

section \<open>Running commands\<close>

record process_result =
  pr_error :: bool
  pr_status :: int
  pr_out :: string
  pr_err :: string

text \<open>The loop that collects the lines of a stream.\<close>

definition collect_lines :: "string \<Rightarrow> string list \<Rightarrow> string" where
  "collect_lines acc ls = foldl (\<lambda>res log. (if res \<noteq> [] then res @ [CHR 0x0A] else res) @ log) acc ls"

text \<open>\<open>exec\<close> with both streams; the text of the errors is appended to what the caller passes.\<close>

definition shell_exec_streams :: "(string \<Rightarrow> process_result) \<Rightarrow> string \<Rightarrow> string \<Rightarrow> bool \<times> string \<times> string" where
  "shell_exec_streams system command errorStr =
     (let r = system command; success = (\<not> pr_error r \<and> pr_status r = 0)
      in (success, collect_lines [] (getlines (pr_out r)), collect_lines errorStr (getlines (pr_err r))))"

definition shell_exec_out :: "(string \<Rightarrow> process_result) \<Rightarrow> string \<Rightarrow> bool \<times> string" where
  "shell_exec_out system command = (let (ok, out, err) = shell_exec_streams system command [] in (ok, out))"

definition shell_exec :: "(string \<Rightarrow> process_result) \<Rightarrow> string \<Rightarrow> bool" where
  "shell_exec system command = (let r = system command in \<not> pr_error r \<and> pr_status r = 0)"

section \<open>Asking nslookup\<close>

text \<open>
  The loop over the lines of the output: addresses count after the line with the name. \<open>None\<close> is an
  address line without a colon, or an exception of \<open>str_to_ip\<close>.
\<close>

definition contains :: "string \<Rightarrow> string \<Rightarrow> bool" where
  "contains s t \<longleftrightarrow> str_find s t 0 \<noteq> None"

fun nslookup_loop :: "(string \<Rightarrow> string) \<Rightarrow> string \<Rightarrow> string list \<Rightarrow> bool \<Rightarrow> u32 list \<Rightarrow> u32 list option" where
  "nslookup_loop trim host [] nameLine ips = Some ips"
| "nslookup_loop trim host (str # strs) nameLine ips = do {
     ips1 \<leftarrow>
       (if nameLine \<and> contains str ''Address'' then do {
          splits \<leftarrow> split str '':'';
          if length splits < 2 then None
          else (case str_to_ip (trim (splits ! 1)) of Inl e \<Rightarrow> None | Inr ip \<Rightarrow> Some (ips @ [ip])) }
        else Some ips);
     nslookup_loop trim host strs (if \<not> nameLine then contains str ''Name:'' \<and> contains str host else nameLine) ips1 }"

definition dns_query_server :: "(string \<Rightarrow> process_result) \<Rightarrow> (string \<Rightarrow> string) \<Rightarrow> string \<Rightarrow> string \<Rightarrow> u32 list option" where
  "dns_query_server system trim dnsServer host =
     (let (ok, result, error) = shell_exec_streams system (''nslookup '' @ host @ ''  '' @ dnsServer) []
      in if result \<noteq> [] then do { strs \<leftarrow> split result [CHR 0x0A]; nslookup_loop trim host strs False [] } else Some [])"

text \<open>The overload on the resolver: the IPv4 endpoints among those it returns.\<close>

definition dns_query_resolver :: "(string \<Rightarrow> u32 option list) \<Rightarrow> string \<Rightarrow> u32 list" where
  "dns_query_resolver resolve host = concat (map (\<lambda>e. case e of Some ip \<Rightarrow> [ip] | None \<Rightarrow> []) (resolve host))"

section \<open>HTTP and time\<close>

text \<open>The client throws (\<open>None\<close>) or returns whether it succeeded, a status and a body.\<close>

definition http_get_result :: "(bool \<times> nat \<times> string) option \<Rightarrow> nat \<times> string" where
  "http_get_result result =
     (case result of
        None \<Rightarrow> (0, [])
      | Some (success, status, body) \<Rightarrow> if success then (status, body) else (0, []))"

text \<open>\<open>strftime fmt secs\<close> is the text of a time in seconds; the milliseconds follow without padding.\<close>

definition time_format :: "(string \<Rightarrow> nat \<Rightarrow> string) \<Rightarrow> string \<Rightarrow> nat \<Rightarrow> string" where
  "time_format strftime fmt timestamp = strftime fmt (timestamp div 1000) @ ''.'' @ to_string (timestamp mod 1000)"

definition now_str :: "(string \<Rightarrow> nat \<Rightarrow> string) \<Rightarrow> nat \<Rightarrow> string" where
  "now_str strftime now = time_format strftime ''%Y-%m-%dT%H:%M:%S'' now"

section \<open>The entry point\<close>

definition availablePaths :: "string list" where
  "availablePaths = [''../confs'', ''/usr/local/etc/st/dns'', ''/etc/st/dns'']"

definition pidFile :: string where
  "pidFile = ''/var/run/st-dns.pid''"

text \<open>What \<open>main\<close> does, in order.\<close>

datatype main_action = Write_Pid string | Start_Server string | Run_Script string | Log_Error string

definition serviceScript :: "string \<Rightarrow> string \<Rightarrow> main_action" where
  "serviceScript confPath op = Run_Script (''sh '' @ confPath @ ''/service/'' @ op @ ''.sh'')"

text \<open>\<open>argv\<close> includes the name of the program; \<open>exists\<close> tells whether a path is a regular file.\<close>

definition find_conf_path :: "(string \<Rightarrow> bool) \<Rightarrow> string list \<Rightarrow> string" where
  "find_conf_path exists_file argv =
     (if 3 \<le> length argv \<and> argv ! 1 = ''-c'' then argv ! 2
      else (case find (\<lambda>path. exists_file (path @ ''/config.json'')) availablePaths of Some p \<Rightarrow> p | None \<Rightarrow> []))"

definition service_op :: "string list \<Rightarrow> string" where
  "service_op argv =
     (let inputConfigPath = (3 \<le> length argv \<and> argv ! 1 = ''-c'')
      in if inputConfigPath \<and> length argv = 5 \<and> argv ! 3 = ''-d'' then argv ! 4
         else if \<not> inputConfigPath \<and> length argv = 3 \<and> argv ! 1 = ''-d'' then argv ! 2
         else [])"

definition main_actions :: "(string \<Rightarrow> bool) \<Rightarrow> string list \<Rightarrow> main_action list" where
  "main_actions exists_file argv =
     (let confPath = find_conf_path exists_file argv;
          directStartServer = (length argv = 1 \<or> length argv = 3 \<and> argv ! 1 = ''-c'');
          serviceOP = service_op argv;
          invalid = Log_Error ''not valid command''
      in if confPath = [] then [Log_Error ''the config folder not exits!'']
         else if directStartServer then [Write_Pid pidFile, Start_Server confPath, invalid]
         else if serviceOP \<noteq> [] then
           (if serviceOP = ''start'' \<or> serviceOP = ''stop'' then [serviceScript confPath serviceOP]
            else if serviceOP = ''restart'' then [serviceScript confPath ''stop'', serviceScript confPath ''start'']
            else [Log_Error ''not support command''])
         else [invalid])"

section \<open>Properties\<close>

lemma nslookup_before:
  "\<forall>l\<in>set pre. \<not> (contains l ''Name:'' \<and> contains l host) \<Longrightarrow>
     nslookup_loop trim host (pre @ strs) False ips = nslookup_loop trim host strs False ips"
  by (induction pre) auto

lemma contains_prefix: "contains (t @ s) t"
proof -
  have "(0 :: nat) \<in> set [0 ..< Suc (length (t @ s))]" "take (length t) (drop 0 (t @ s)) = t" by auto
  then show ?thesis unfolding contains_def str_find_def find_None_iff by blast
qed

lemma nslookup_after:
  assumes "\<forall>ip. trim ('' '' @ ip_to_str ip) = ip_to_str ip"
  shows "nslookup_loop trim host (map (\<lambda>ip. ''Address: '' @ ip_to_str ip) addrs) True ips = Some (ips @ addrs)"
proof (induction addrs arbitrary: ips)
  case Nil
  then show ?case by simp
next
  case (Cons ip addrs)
  have "contains (''Address: '' @ ip_to_str ip) ''Address''" using contains_prefix [of "''Address''" "'': '' @ ip_to_str ip"] by simp
  moreover have "CHR '':'' \<notin> set ('' '' @ ip_to_str ip)" using ip_to_str_chars [of "CHR '':''" ip] by (auto simp: is_digit_def)
  then have "split (''Address: '' @ ip_to_str ip) '':'' = Some [''Address'', '' '' @ ip_to_str ip]"
    by (simp add: split_nonempty split_on_no_sep)
  ultimately show ?case using Cons assms by (simp add: dotted_roundtrip)
qed

lemma collect_lines_join: "collect_lines [] ls = join ls [CHR 0x0A]"
  by (simp add: collect_lines_def join_def)

text \<open>
  \<open>dns::query\<close> on an output of \<open>nslookup\<close>: it returns exactly the addresses of the lines after the
  one that names the host, in order, and none of those before, such as the address of the server
  itself.
\<close>

theorem nslookup_addresses:
  assumes "pr_out (system (''nslookup '' @ host @ ''  '' @ dnsServer)) = concat (map (\<lambda>l. l @ [CHR 0x0A]) ls)"
    and "ls = pre @ (''Name:'' @ mid @ host) # map (\<lambda>ip. ''Address: '' @ ip_to_str ip) addrs"
    and "\<forall>l\<in>set pre. \<not> (contains l ''Name:'' \<and> contains l host)"
    and "\<forall>l\<in>set ls. CHR 0x0A \<notin> set l" and "hd ls \<noteq> []"
    and "\<forall>ip. trim ('' '' @ ip_to_str ip) = ip_to_str ip" and "contains (''Name:'' @ mid @ host) host"
  shows "dns_query_server system trim dnsServer host = Some addrs"
proof -
  have ne: "ls \<noteq> []" using assms(2) by simp
  have out: "collect_lines [] (getlines (concat (map (\<lambda>l. l @ [CHR 0x0A]) ls))) = join ls [CHR 0x0A]"
    unfolding getlines_concat [OF assms(4)] collect_lines_join by (rule refl)
  have sp: "split (join ls [CHR 0x0A]) [CHR 0x0A] = Some ls" using assms(4,5) by (intro split_join) auto
  then have "join ls [CHR 0x0A] \<noteq> []" using ne by (auto simp: split_def split_from_def)
  moreover have "nslookup_loop trim host ls False [] = Some addrs"
    unfolding assms(2) nslookup_before [OF assms(3)]
    using assms(7) contains_prefix [of "''Name:''" "mid @ host"] nslookup_after [OF assms(6), of host addrs "[]"] by simp
  ultimately show ?thesis
    unfolding dns_query_server_def shell_exec_streams_def Let_def assms(1) prod.case out sp
    by (simp only: simp_thms if_True Option.bind.bind_lunit)
qed

theorem nslookup_addresses_witness:
  "dns_query_server (\<lambda>cmd. \<lparr>pr_error = False, pr_status = 0,
       pr_out = concat (map (\<lambda>l. l @ [CHR 0x0A]) [''Server: s'', ''Address: 1.1.1.1'', ''Name: a.cn'', ''Address: '' @ ip_to_str 7]), pr_err = []\<rparr>)
     (dropWhile (\<lambda>c. c = CHR '' '')) ''1.1.1.1'' ''a.cn'' = Some [7]"
proof -
  let ?ls = "[''Server: s'', ''Address: 1.1.1.1'', ''Name: a.cn'', ''Address: '' @ ip_to_str 7]"
  have split_ls: "?ls = [''Server: s'', ''Address: 1.1.1.1''] @ (''Name:'' @ '' '' @ ''a.cn'') # map (\<lambda>ip. ''Address: '' @ ip_to_str ip) [7]" by simp
  have not_name: "\<forall>l\<in>set [''Server: s'', ''Address: 1.1.1.1'']. \<not> (contains l ''Name:'' \<and> contains l ''a.cn'')"
    by code_simp
  have host: "contains (''Name:'' @ '' '' @ ''a.cn'') ''a.cn''" by code_simp
  have lines: "\<forall>l\<in>set ?ls. CHR 0x0A \<notin> set l"
    using ip_to_str_chars [of "CHR 0x0A" 7] by (auto simp: is_digit_def)
  have blank: "dropWhile (\<lambda>c. c = CHR '' '') (ip_to_str ip) = ip_to_str ip" for ip
    using ip_to_str_chars [of "CHR '' ''" ip] by (cases "ip_to_str ip") (auto simp: is_digit_def)
  show ?thesis
    by (rule nslookup_addresses [OF _ split_ls not_name lines _ _ host]) (simp_all add: blank)
qed

text \<open>
  The server is started by \<open>main\<close> exactly for no arguments with a configuration in one of the
  known places, the first of them, and for \<open>-c\<close> with a path and nothing more.
\<close>

theorem main_starts_server:
  "Start_Server p \<in> set (main_actions exists_file argv) \<longleftrightarrow>
     p \<noteq> [] \<and> (length argv = 1 \<and> find (\<lambda>path. exists_file (path @ ''/config.json'')) availablePaths = Some p
       \<or> length argv = 3 \<and> argv ! 1 = ''-c'' \<and> p = argv ! 2)"
proof -
  have "Start_Server p \<in> set (main_actions exists_file argv) \<longleftrightarrow>
      find_conf_path exists_file argv = p \<and> p \<noteq> [] \<and> (length argv = 1 \<or> length argv = 3 \<and> argv ! 1 = ''-c'')"
    by (auto simp: main_actions_def Let_def serviceScript_def)
  also have "\<dots> \<longleftrightarrow> p \<noteq> [] \<and> (length argv = 1 \<and> find (\<lambda>path. exists_file (path @ ''/config.json'')) availablePaths = Some p
       \<or> length argv = 3 \<and> argv ! 1 = ''-c'' \<and> p = argv ! 2)"
    by (auto simp: find_conf_path_def split: option.splits)
  finally show ?thesis .
qed

end
