(* ===== verification/Spec2Isabelle.thy ===== *)
theory Spec2Isabelle
  imports Ipv4 Dns_Message Request Response Area_Ip Kv Config Record_Manager Task_Queue Dns_Client Client_Io Lifecycle Upstream Area_Sync
    Dns_Server Counters Pool File_Utils Base64 Logger Console Program Entry
begin

text \<open>
  A verification library for \<^verbatim>\<open>st-dns\<close>, a caching DNS proxy in C++.

  \<^bold>\<open>The program.\<close> The server (\<^verbatim>\<open>src/core/dns_server.cpp\<close>) receives DNS questions as UDP datagrams. It
  answers a question for an IPv4 address from a cache on disk (\<^verbatim>\<open>dns_record_manager.cpp\<close> on
  \<^verbatim>\<open>kv/disk_kv.cpp\<close>). For a missing, stale or incomplete record it submits one task per upstream server
  that its configuration (\<^verbatim>\<open>config.cpp\<close>) selects for the domain to a priority queue
  (\<^verbatim>\<open>taskquque/task_queue.h\<close>). A task asks its server over UDP, TCP or TLS (\<^verbatim>\<open>dns_client.cpp\<close>), over TCP
  and TLS once for each area that a proxy offers a port for, and the addresses that come back are stored in
  the cache. The areas of addresses (\<^verbatim>\<open>area_ip.cpp\<close>) decide which of them are handed out. A question for an IPv6 address gets an empty answer, any other question is
  forwarded. Messages are written and parsed on raw buffers (\<^verbatim>\<open>protocol/\<close>) that come from a pool
  (\<^verbatim>\<open>utils/pool.cpp\<close>). A console on a UDP port (\<^verbatim>\<open>console/\<close>, \<^verbatim>\<open>console_manager.cpp\<close>) takes commands, and a
  logger (\<^verbatim>\<open>utils/logger.cpp\<close>) accumulates measurements.

  \<^bold>\<open>Conventions.\<close> Machine integers are words where the width matters; \<^verbatim>\<open>minus_u64\<close> and \<^verbatim>\<open>minus_u32\<close> are
  the wrapping subtractions of values kept as natural numbers. A buffer is the list of the bytes of
  one allocation, a pointer an offset into it. A result \<^verbatim>\<open>None\<close> is the behaviour the C++ code must not
  have: an access outside the buffer, a null pointer, an exception that nobody catches; each theory
  says which. The time is an argument in milliseconds. What C++ leaves open is an argument too: the
  orders of \<^verbatim>\<open>std::sort\<close>, \<^verbatim>\<open>std::shuffle\<close>, the heap and the hash tables. Code outside the repository is a
  parameter with its documented behaviour as a named law: LevelDB (\<^verbatim>\<open>leveldb_laws\<close>), the generated
  protobuf classes (\<^verbatim>\<open>value_codec_laws\<close>, \<^verbatim>\<open>records_codec_laws\<close>), the sorts and shuffles (\<^verbatim>\<open>sort_laws\<close>,
  \<^verbatim>\<open>shuffle_laws\<close>), the top of a heap (\<^verbatim>\<open>heap_top\<close>), the console libraries (\<^verbatim>\<open>boost::trim\<close>,
  \<^verbatim>\<open>program_options\<close>), regular expressions, property trees, the file system, the HTTP client and
  processes. Each law is shown to hold of a concrete function.

  \<^bold>\<open>The theories.\<close>
  \<^item> \<^verbatim>\<open>St_Prelude\<close>: words, buffers, C strings; the locales \<^verbatim>\<open>state_machine\<close> (a step relation with an
    invariant), \<^verbatim>\<open>simulation\<close> and \<^verbatim>\<open>refined_machine\<close>, which the stateful components interpret, and
    \<^verbatim>\<open>finishing_machine\<close>: a rank that every step lowers, so that every fair run reaches the goal.
  \<^item> \<^verbatim>\<open>Bytes\<close>, \<^verbatim>\<open>Str_Utils\<close>, \<^verbatim>\<open>Ipv4\<close>: \<^verbatim>\<open>utils/byte.h\<close>, \<^verbatim>\<open>string_utils.h\<close>, \<^verbatim>\<open>ipv4.h\<close>. Big-endian codecs
    (locale \<^verbatim>\<open>wire_codec\<close>, interpreted at 16 and 32 bits), splitting and joining, dotted notation and
    its round trip.
  \<^item> \<^verbatim>\<open>Dns_Domain\<close>, \<^verbatim>\<open>Dns_Message\<close>, \<^verbatim>\<open>Request\<close>, \<^verbatim>\<open>Response\<close>: \<^verbatim>\<open>core/protocol/\<close>. Names with compression
    pointers, header, questions, resource records, whole requests and responses. Round trips of every
    layer, the bound on what the name parser consumes, exactly when it stays inside the buffer,
    which messages are refused, and the messages on which the code leaves its buffers.
  \<^item> \<^verbatim>\<open>Kv\<close>: \<^verbatim>\<open>common/main/kv/\<close>. The virtual class \<^verbatim>\<open>abstract_kv\<close> is the locale \<^verbatim>\<open>kv_store\<close>; the disk store
    is a sublocale under the laws of its libraries (\<^verbatim>\<open>disk_env\<close>), the shared-memory store an
    interpretation. Reading what was written, expiry, sequences of writes.
  \<^item> \<^verbatim>\<open>Area_Ip\<close>: \<^verbatim>\<open>utils/area_ip.h\<close> and \<^verbatim>\<open>.cpp\<close>. The manager is a record with the tasks it has posted;
    ranges, lookups against their specification, no area is loaded twice at a time.
  \<^item> \<^verbatim>\<open>Config\<close>, \<^verbatim>\<open>Record_Manager\<close>: \<^verbatim>\<open>core/config.cpp\<close>, \<^verbatim>\<open>dns_record_manager.cpp\<close>. The selected servers
    against a specification, loading, the record of a domain after an answer, and the choice of the
    addresses handed out.
  \<^item> \<^verbatim>\<open>Task_Queue\<close>: \<^verbatim>\<open>taskquque/task_queue.h\<close> as a step relation of submissions, ticks, rounds of the
    dispatcher, starts and completions. The bound on running tasks, unique keys, no task dispatched twice
    (over runs with the ids they dispatch), priorities, and progress against whatever else happens.
  \<^item> \<^verbatim>\<open>Dns_Client\<close>: \<^verbatim>\<open>core/dns_client.cpp\<close>. An exchange is a chain of completion handlers driven by an
    arbitrary network. The caller's handler runs exactly once, and with the upstream addresses when the
    network delivers them.
  \<^item> \<^verbatim>\<open>Client_Io\<close>: the life of an exchange on the queue of handlers of the client's one thread: timer, socket,
    buffers. What a kind of exchange promises is the locale \<^verbatim>\<open>exchange\<close> (and \<^verbatim>\<open>reporting_exchange\<close>, which
    extends it), interpreted for TCP and TLS, UDP and forwarded requests. Nothing is used after its
    release or deleted twice; a timeout over TCP or UDP ends the exchange, one over TLS may not.
  \<^item> \<^verbatim>\<open>Upstream\<close>: a running task and the client together, from the call of \<^verbatim>\<open>sync_dns_record_from_remote\<close> over
    one or several exchanges to the handler: at most one result, and the addresses of a server that answers.
  \<^item> \<^verbatim>\<open>Area_Sync\<close>: the file of learnt areas. What a synchronisation makes of file and cache in its two
    critical sections, with anything in between; an area that is learnt in between is lost.
  \<^item> \<^verbatim>\<open>Dns_Server\<close>: \<^verbatim>\<open>core/dns_server.cpp\<close>, \<^verbatim>\<open>session.cpp\<close>. The whole server as a step relation over sessions,
    cache, areas and queue. One reply per session, answers from the cache, learning, and a refinement:
    its runs are runs of the task queue.
  \<^item> \<^verbatim>\<open>Lifecycle\<close>: \<^verbatim>\<open>start\<close>, \<^verbatim>\<open>wait_start\<close> and \<^verbatim>\<open>shutdown\<close> of the server, statement by statement, with the threads
    of the handlers interleaved. What a stop releases and who may still use it: the synchronisation under
    which a stop is safe and every fair run of it ends, and the orders in which it is not. (\<^verbatim>\<open>main\<close> never calls \<^verbatim>\<open>shutdown\<close>; the
    integration tests do.)
  \<^item> \<^verbatim>\<open>Console\<close>, \<^verbatim>\<open>Logger\<close>, \<^verbatim>\<open>Entry\<close>, \<^verbatim>\<open>Pool\<close>, \<^verbatim>\<open>Counters\<close>, \<^verbatim>\<open>File_Utils\<close>, \<^verbatim>\<open>Base64\<close>: the command channel with its
    commands and the schedule of the server, the logger and its averages, \<^verbatim>\<open>server/main.cpp\<close> with the
    process helpers, the pool and its accounting, the counters, the file helpers, base64.

  \<^item> \<^verbatim>\<open>Program\<close>: server, console, schedule, area manager and the statistics of the record manager together,
    with the steps of their threads interleaved; every step is a run of the task queue and one of the area
    manager (\<^verbatim>\<open>refined_machine\<close>).

  This theory holds what needs the whole chain: the safety of the program with all its parts, and the way
  from the exchange with an upstream server to the reply that a client reads.

  \<^bold>\<open>Termination.\<close> Every loop of the program is a total function except \<^verbatim>\<open>split_loop\<close>, the loop of
  \<^verbatim>\<open>strutils::split\<close>: it never ends on an empty separator, so it is a partial function with the value
  \<^verbatim>\<open>None\<close> for divergence, and it is shown to return for every other separator. The number of
  handlers that \<^verbatim>\<open>io_drain\<close> may run is bounded by an argument; five are shown to be enough. The
  depth of 20 in the name parser is a constant of the code.

  \<^bold>\<open>Not modelled.\<close> Sockets, TLS, threads and locks: a step of a model
  is one handler, what the network answers is arbitrary, and a lock makes a handler atomic, except
  in \<^verbatim>\<open>Lifecycle\<close>, where a step is one statement. Starting and stopping the console and the threads of the other
  singletons. The size of a shared-memory segment. What the sinks of \<^verbatim>\<open>boost::log\<close> do with a line, and the
  log lines of most functions. The destructors, which release memory and join threads. \<^verbatim>\<open>proxy_shm\<close> and \<^verbatim>\<open>session_manager\<close> have no code that does anything; \<^verbatim>\<open>httplib.h\<close> is
  vendored; the generated protobuf code is not in the repository; the tests.
\<close>

text \<open>
  The way from the answer of a task to the reply: the handler stores the addresses, and a question for the
  domain at any later time is answered from the cache at once.
\<close>

lemma learnt_reply:
  assumes "leveldb_laws (en_db E)" and "value_codec_laws (en_values E)" and "records_codec_laws (en_records E)"
    and "sort_laws (en_sort E)" and "shuffle_laws (en_shuffle E)"
    and "t_in task = (host, server)" and "host \<noteq> []" and "ips \<noteq> []"
    and "select_servers (en_regex E) host (cf_servers (ds_config srv)) = Some servers" and "server \<in> set servers"
    and "old = fst (get_dns_records_pb (en_db E) (en_values E) (en_records E) now host (ds_records srv))"
    and "new = old\<lparr>ps_domain := host, ps_map := map_set (server_id server)
           \<lparr>pr_expire = word_of_int ((if load_all then sv_cache_expire server else sv_cache_expire server sdiv 2)
              + int (now div 1000)), pr_ips = ips\<rparr> (ps_map old)\<rparr>"
    and "CHR 0x00 \<notin> set (rc_serialize (en_records E) new)" and "now \<le> t"
    and "wf_questions qs" and "qs \<noteq> []" and "hd qs = (host, type_A, cls)" and "host \<noteq> ''localhost''"
    and "msg = header_bytes ident (length qs) 0 0 False @ questions_bytes qs" and "length (questions_bytes qs) < 420"
    and "ds_receiving srv = session_new i"
  shows "\<exists>srv1 srv2 bs addrs expire. multi_area_complete_handler E now task ips load_all srv = Some srv1
           \<and> qs_started (ds_tasks srv1) = remove1 task (qs_started (ds_tasks srv))
           \<and> t_pk task \<notin> set (task_pks (qs_queue (ds_tasks srv1)))
           \<and> receive_handler E None t msg srv1 = Some srv2 \<and> ds_sent srv2 = ds_sent srv @ [(i, bs)]
           \<and> client_reads bs ident addrs expire
           \<and> addrs \<noteq> [] \<and> set addrs \<subseteq> answered_ips servers new"
proof -
  obtain srv1 r srv'' where learn: "multi_area_complete_handler E now task ips load_all srv = Some srv1"
    "same_sessions srv srv1" "query_record_from_cache E t host srv1 = Some (r, srv'')" "dr_ips r \<noteq> []"
    "set (dr_ips r) \<subseteq> answered_ips servers new"
    and tasks: "qs_started (ds_tasks srv1) = remove1 task (qs_started (ds_tasks srv))"
    "t_pk task \<notin> set (task_pks (qs_queue (ds_tasks srv1)))"
    using learnt_record [OF assms(1-14)] by blast
  then have frame: "ds_config srv1 = ds_config srv" "ds_receiving srv1 = session_new i" "ds_sent srv1 = ds_sent srv"
    using assms(21) by (simp_all add: same_sessions_def)
  have room: "12 + length (questions_bytes qs) + 16 * min 5 (length (dr_ips r)) < 512" using assms(20) by simp
  have "select_servers (en_regex E) host (cf_servers (ds_config srv1)) = Some servers" using assms(9) frame(1) by simp
  from cached_query_reply [OF assms(15-19) frame(2) learn(3,4) room this] frame(3)
  obtain srv2 bs where reply: "receive_handler E None t msg srv1 = Some srv2" "ds_sent srv2 = ds_sent srv @ [(i, bs)]"
    "client_reads bs ident (take 5 (dr_ips r)) (cal_expire (ds_config srv1) r)" by auto
  have "take 5 (dr_ips r) \<noteq> []" "set (take 5 (dr_ips r)) \<subseteq> answered_ips servers new"
    using learn(4,5) set_take_subset [of 5 "dr_ips r"] by auto
  with learn(1) tasks reply show ?thesis by blast
qed

text \<open>
  C1. From the exchange with an upstream server to the reply that a client reads. A task asks a server of
  type UDP, TCP or TLS (with no areas or one) for a domain, and the server answers in time with addresses
  under the id of the query. Then the client of the program hands the task exactly these addresses, once.
  After the handler of the task it is no longer running, its key is free for the next task, and a client
  that asks for the domain at any later time gets its reply at once: with the id of its question, with
  addresses, and with none but addresses that the servers of the domain have answered. (The
  serialized record must not hold a NUL byte, at which the store would cut it.)
\<close>

theorem upstream_answer_served:
  assumes "leveldb_laws (en_db E)" and "value_codec_laws (en_values E)" and "records_codec_laws (en_records E)"
    and "sort_laws (en_sort E)" and "shuffle_laws (en_shuffle E)"
    and "t_in task = (host, server)" and "ips \<noteq> []"
    and "select_servers (en_regex E) host (cf_servers (ds_config srv)) = Some servers" and "server \<in> set servers"
    and "sv_type server \<in> {''UDP'', ''TCP'', ''TCP_SSL''}" and "one_exchange (ds_config srv) server"
    and "query_fits [host]" and "wf_questions echoed" and "echoed \<noteq> []" and "length (answer_bytes gen echoed ttl ips) \<le> 1024"
    and "\<not> is_timeout_or_error None answer_time begin_time (call_timeout (sv_timeout server))"
    and "\<And>txs. mset (arrive txs) = mset txs"
    and "old = fst (get_dns_records_pb (en_db E) (en_values E) (en_records E) now host (ds_records srv))"
    and "new = old\<lparr>ps_domain := host, ps_map := map_set (server_id server)
           \<lparr>pr_expire = word_of_int (sv_cache_expire server + int (now div 1000)), pr_ips = ips\<rparr> (ps_map old)\<rparr>"
    and "CHR 0x00 \<notin> set (rc_serialize (en_records E) new)" and "now \<le> t"
    and "wf_questions qs" and "qs \<noteq> []" and "hd qs = (host, type_A, cls)" and "host \<noteq> ''localhost''"
    and "msg = header_bytes ident (length qs) 0 0 False @ questions_bytes qs" and "length (questions_bytes qs) < 420"
    and "ds_receiving srv = session_new i"
  shows "\<exists>srv1 srv2 bs addrs expire.
      remote_answers ord arrive begin_time gen [answered_by server answer_time (answer_bytes gen echoed ttl ips)]
        (sync_from_server (ds_config srv) (t_in task)) = Some ([(ips, True)], gen + 1)
    \<and> multi_area_complete_handler E now task ips True srv = Some srv1
    \<and> qs_started (ds_tasks srv1) = remove1 task (qs_started (ds_tasks srv))
    \<and> t_pk task \<notin> set (task_pks (qs_queue (ds_tasks srv1)))
    \<and> receive_handler E None t msg srv1 = Some srv2 \<and> ds_sent srv2 = ds_sent srv @ [(i, bs)]
    \<and> client_reads bs ident addrs expire \<and> addrs \<noteq> [] \<and> set addrs \<subseteq> answered_ips servers new"
proof -
  have host: "host \<noteq> []" using assms(12) by (auto simp: query_fits_def wf_host_def wf_label_def)
  have "remote_answers ord arrive begin_time gen [answered_by server answer_time (answer_bytes gen echoed ttl ips)]
      (sync_from_server (ds_config srv) (t_in task)) = Some ([(ips, True)], gen + 1)"
    unfolding assms(6) by (rule remote_answers_served [OF assms(12-17,11,10)])
  with learnt_reply [OF assms(1-6) host assms(7-9,18), where load_all = True, OF _ assms(20-28)] assms(19)
  show ?thesis by simp
qed

theorem upstream_answer_served_witness:
  "let E = sample_env unary_records_codec; srv = sample_dns_server [];
       task = \<lparr>t_in = (''a.cn'', sample_server), t_priority = 100, t_id = 0, t_pk = ''k'', t_status = RUNNING\<rparr>;
       msg = header_bytes 9 1 0 0 False @ questions_bytes [(''a.cn'', type_A, 1)]
   in \<exists>srv1 srv2 bs addrs expire.
        remote_answers sort rev 4000 3 [answered_by sample_server 4050 (answer_bytes 3 [(''a.cn'', 1, 1)] 60 [7])]
          (sync_from_server (ds_config srv) (t_in task)) = Some ([([7], True)], 4)
      \<and> multi_area_complete_handler E 5000 task [7] True srv = Some srv1
      \<and> t_pk task \<notin> set (task_pks (qs_queue (ds_tasks srv1)))
      \<and> receive_handler E None 9000 msg srv1 = Some srv2 \<and> ds_sent srv2 = [(1000, bs)]
      \<and> client_reads bs 9 addrs expire \<and> addrs \<noteq> [] \<and> set addrs \<subseteq> {7}"
proof -
  let ?E = "sample_env unary_records_codec" and ?srv = "sample_dns_server []"
  let ?task = "\<lparr>t_in = (''a.cn'', sample_server), t_priority = 100, t_id = 0, t_pk = ''k'', t_status = RUNNING\<rparr>"
  let ?old = "fst (get_dns_records_pb (en_db ?E) (en_values ?E) (en_records ?E) 5000 ''a.cn'' (ds_records ?srv))"
  let ?new = "?old\<lparr>ps_domain := ''a.cn'', ps_map := map_set (server_id sample_server)
     \<lparr>pr_expire = word_of_int (sv_cache_expire sample_server + int (5000 div 1000)), pr_ips = [7]\<rparr> (ps_map ?old)\<rparr>"
  have conf: "cf_servers (ds_config ?srv) = [sample_server]" "ds_receiving ?srv = session_new 1000" "ds_sent ?srv = []"
    by (simp_all add: sample_dns_server_def dns_server_new_def)
  have sel: "select_servers (en_regex ?E) ''a.cn'' (cf_servers (ds_config ?srv)) = Some [sample_server]"
    using sample_select conf(1) by (simp add: sample_env_def)
  have one: "one_exchange (ds_config ?srv) sample_server"
    by (simp add: one_exchange_def conf(1)) (simp add: sample_server_def remote_dns_server_new_def)
  have nul: "CHR 0x00 \<notin> set (rc_serialize (en_records ?E) ?new)" by (simp add: sample_env_def unary_records_codec_def)
  have wf: "wf_questions [(''a.cn'', type_A, 1 :: u16)]" "wf_questions [(''a.cn'', 1, 1 :: u16)]" "query_fits [''a.cn'']"
    by (simp_all add: query_fits_def wf_host_def wf_label_def)
  have in_time: "\<not> is_timeout_or_error None 4050 4000 (call_timeout (sv_timeout sample_server))"
    by (simp add: is_timeout_or_error_def minus_u64_def call_timeout_def sample_server_def remote_dns_server_new_def)
  have udp: "sv_type sample_server \<in> {''UDP'', ''TCP'', ''TCP_SSL''}" by (simp add: sample_server_def remote_dns_server_new_def)
  have laws: "leveldb_laws (en_db ?E)" "value_codec_laws (en_values ?E)" "records_codec_laws (en_records ?E)"
    "sort_laws (en_sort ?E)" "shuffle_laws (en_shuffle ?E)"
    by (simp_all add: sample_env_def list_db_laws unary_codec_laws unary_records_codec_laws insertion_sort_laws shuffle_laws_def)
  have order: "mset (rev txs) = mset txs" for txs :: "tcp_exchange list" by simp
  have fits: "length (answer_bytes 3 [(''a.cn'', 1, 1)] 60 [7]) \<le> 1024" by (simp add: answer_bytes_def)
  have "ps_map ?old = []"
    by (simp add: get_records_eq disk_kv_get_def sample_env_def sample_dns_server_def dns_server_new_def list_db_def Let_def)
  then have only: "answered_ips [sample_server] ?new \<subseteq> {7}" by (auto simp: answered_ips_def map_of_map_set)
  have ask: "hd [(''a.cn'', type_A, 1 :: u16)] = (''a.cn'', type_A, 1)" "length (questions_bytes [(''a.cn'', type_A, 1 :: u16)]) < 420"
    "header_bytes 9 1 0 0 False @ questions_bytes [(''a.cn'', type_A, 1)]
       = header_bytes 9 (length [(''a.cn'', type_A, 1 :: u16)]) 0 0 False @ questions_bytes [(''a.cn'', type_A, 1)]" by simp_all
  have task: "t_in ?task = (''a.cn'', sample_server)" by simp
  from upstream_answer_served [OF laws task _ sel _ udp one wf(3,2) _ fits in_time order refl refl nul _ wf(1) _ ask(1) _ ask(3,2) conf(2),
      where ord = sort and t = 9000] conf(3) only
  show ?thesis unfolding Let_def by simp (meson subset_trans)
qed

text \<open>
  C2. The whole program keeps its promises whatever its threads do and in whatever order: requests, answers,
  timers, commands of the console, rounds of the schedule and the work of the area manager. No client is
  answered twice and no session that still waits has been answered; at most 100 synchronisations are
  under way, never two for the same domain and server, and the dispatcher finds its task; and an address
  is reserved in the area manager exactly while its one query is pending.
\<close>

theorem program_safe:
  assumes "area_manager_init now ifs fs = Inr m0" and "heap_top top_of"
    and "(program_step E S)\<^sup>*\<^sup>* (program_new cb rb (dns_server_new conf rm m0 gen start)) p" and "srv = pg_server p"
  shows "distinct (map fst (ds_sent srv)) \<and> distinct (map (\<lambda>x. se_id (fst x)) (ds_sessions srv))
       \<and> (\<forall>(se, stage) \<in> set (ds_sessions srv). stage = Responding \<longleftrightarrow> se_id se \<in> fst ` set (ds_sent srv))
       \<and> length (posted (qs_queue (ds_tasks srv))) + length (qs_started (ds_tasks srv)) \<le> 100
       \<and> distinct (filter (\<lambda>k. k \<noteq> []) (map t_pk (queue_all (qs_queue (ds_tasks srv)))))
       \<and> queue_dispatch top_of (qs_queue (ds_tasks srv)) \<noteq> None
       \<and> distinct (pending_loads (ds_areas srv)) \<and> set (pending_loads (ds_areas srv)) = set (am_ips (ds_areas srv))"
proof -
  let ?srv0 = "dns_server_new conf rm m0 gen start"
  have server: "pg_server (program_new cb rb ?srv0) = ?srv0" by (simp add: program_new_def)
  have "session_inv srv"
    using program_sessions.reachable [OF assms(3)] server assms(4) by (simp add: session_inv_new)
  moreover have "queue_step\<^sup>*\<^sup>* (queue_init 100 100 gen) (ds_tasks srv)"
    using program_queue.simulated [OF assms(3)] server assms(4) by (simp add: dns_server_new_def)
  moreover have "loads_inv (ds_areas srv)"
    using program_areas.abs_inv [OF assms(3)] loads_inv_init [OF assms(1)] server assms(4) by (simp add: dns_server_new_def)
  ultimately show ?thesis
    using session_inv_replies server_tasks_safe [OF _ assms(2)] unfolding loads_inv_def by blast
qed

theorem program_safe_witness:
  "\<exists>p m0. area_manager_init 1000 [] Map.empty = Inr m0
     \<and> (program_step plain_console (sample_env sample_codec))\<^sup>*\<^sup>*
         (program_new [] [] (dns_server_new config_default \<lparr>rm_db = [], rm_reverse = []\<rparr> m0 0 1000)) p
     \<and> map fst (ds_sent (pg_server p)) = [1000] \<and> pending_loads (ds_areas (pg_server p)) = [7]
     \<and> distinct (map fst (ds_sent (pg_server p))) \<and> queue_dispatch max_entry (qs_queue (ds_tasks (pg_server p))) \<noteq> None
     \<and> set (pending_loads (ds_areas (pg_server p))) = set (am_ips (ds_areas (pg_server p)))"
proof -
  let ?S = "sample_env sample_codec" and ?rm = "\<lparr>rm_db = [], rm_reverse = []\<rparr> :: (string \<times> string) list dns_record_manager"
  from sample_area_init obtain m0 where m0: "area_manager_init 1000 [] Map.empty = Inr m0"
    and tasks: "ctx_tasks m0 = []" "delay_timers m0 = []" "am_ips m0 = []" "last_load_ip_info_time m0 = 1000" by blast
  let ?srv0 = "dns_server_new config_default ?rm m0 0 1000"
  let ?msg = "header_bytes 9 (length [(''a.cn'', type_AAAA, 1 :: u16)]) 0 0 False @ questions_bytes [(''a.cn'', type_AAAA, 1)]"
  have "wf_questions [(''a.cn'', type_AAAA, 1 :: u16)]" by (simp add: wf_host_def wf_label_def)
  from aaaa_query_dropped [OF this _ _ refl, where host = "''a.cn''" and cls = 1 and srv = ?srv0 and i = 1000]
  obtain srv1 bs where recv: "receive_handler ?S None 5000 ?msg ?srv0 = Some srv1"
    and srv1: "ds_sent srv1 = [(1000, bs)]" "ds_areas srv1 = m0" by (fastforce simp: dns_server_new_def)
  have "server_step ?S ?srv0 srv1" using recv by (intro server_step.datagram) simp_all
  define m1 where "m1 = async_load_ip_info_from_net 7 m0"
  define m2 where "m2 = start_load_ip_info 1000 7 (m1\<lparr>ctx_tasks := []\<rparr>)"
  have "area_step m1 m2" unfolding m2_def
    by (rule area_step.run_load_ip) (simp add: m1_def async_load_ip_info_from_net_def post_task_def tasks)
  define p0 where "p0 = program_new [] [] ?srv0"
  define p1 where "p1 = p0\<lparr>pg_state := (pg_state p0)\<lparr>cs_server := srv1\<rparr>\<rparr>"
  define p2 where "p2 = p1\<lparr>pg_state := (pg_state p1)\<lparr>cs_server := (pg_server p1)\<lparr>ds_areas := m1\<rparr>\<rparr>\<rparr>"
  define p3 where "p3 = p2\<lparr>pg_state := (pg_state p2)\<lparr>cs_server := (pg_server p2)\<lparr>ds_areas := m2\<rparr>\<rparr>\<rparr>"
  have "program_step plain_console ?S p0 p1" unfolding p1_def
    by (rule program_step.serve) (simp add: p0_def program_new_def \<open>server_step ?S ?srv0 srv1\<close>)
  moreover have "program_step plain_console ?S p1 p2" unfolding p2_def m1_def
    by (rule program_step.manage_areas) (simp add: p1_def srv1 area_step.call_load_ip)
  moreover have "program_step plain_console ?S p2 p3" unfolding p3_def
    by (rule program_step.manage_areas) (simp add: p2_def \<open>area_step m1 m2\<close>)
  ultimately have run: "(program_step plain_console ?S)\<^sup>*\<^sup>* p0 p3" by (meson rtranclp.rtrancl_into_rtrancl rtranclp.rtrancl_refl)
  have "pending_loads m2 = [7]"
    by (simp add: m2_def m1_def start_load_ip_info_def async_load_ip_info_from_net_def post_task_def tasks net_qps_def pending_loads_def)
  moreover have "map fst (ds_sent (pg_server p3)) = [1000]" "ds_areas (pg_server p3) = m2"
    by (simp_all add: p3_def p2_def p1_def srv1)
  ultimately show ?thesis
    using m0 run program_safe [OF m0 max_entry_top run [unfolded p0_def] refl] unfolding p0_def by auto
qed

end
